(* ===== verification/Prelude.thy ===== *)
theory Prelude
  imports Main "HOL-Library.Word"
begin

section \<open>Shared types, library contracts and automation\<close>

text \<open>
  What every component of the development shares: the machine integers of GLib, C strings
  and the C library calls the sources make on them (\<open>strtoll\<close>, \<open>strrchr\<close>, \<open>strcmp\<close>,
  \<open>%0*d\<close>), the GLib balanced tree as the ordered association list it stores, with the
  contract of its comparison function as the locale \<open>gcompare\<close>, and the locale
  \<open>event_machine\<close> through which every state machine of the program lifts an invariant of
  one step to its runs.
\<close>

named_theorems model_defs \<open>definitions that component proofs unfold\<close>

type_synonym u8 = "8 word"
type_synonym u16 = "16 word"
type_synonym u32 = "32 word"

text \<open>
  A \<open>GTimeVal\<close> is the pair of its seconds and microseconds, normalised by GLib
  (\<open>0 \<le> tv_usec < 1000000\<close>). It is modelled by its number of microseconds; the
  lexicographic comparison \<open>gtv_bigger\<close> of normalised pairs is the order of that number.
\<close>

type_synonym gtimeval = int

text \<open>A \<open>GError\<close> is its code; the message is for the log only.\<close>

type_synonym gerror = int

definition gtv_bigger :: "gtimeval \<Rightarrow> gtimeval \<Rightarrow> bool" where
  "gtv_bigger t0 t1 =
     (if t0 div 1000000 > t1 div 1000000 then True
      else if t0 div 1000000 = t1 div 1000000 \<and> t0 mod 1000000 > t1 mod 1000000 then True
      else False)"

lemma gtv_bigger_iff [simp]: "gtv_bigger t0 t1 \<longleftrightarrow> t1 < t0"
proof -
  define q0 r0 q1 r1 :: int
    where "q0 = t0 div 1000000" and "r0 = t0 mod 1000000"
      and "q1 = t1 div 1000000" and "r1 = t1 mod 1000000"
  have t: "t0 = 1000000 * q0 + r0" "t1 = 1000000 * q1 + r1"
    by (simp_all add: q0_def r0_def q1_def r1_def)
  have r: "0 \<le> r0" "r0 < 1000000" "0 \<le> r1" "r1 < 1000000"
    by (simp_all add: r0_def r1_def)
  have "gtv_bigger t0 t1 \<longleftrightarrow> q1 < q0 \<or> (q0 = q1 \<and> r1 < r0)"
    by (simp add: gtv_bigger_def q0_def r0_def q1_def r1_def)
  moreover have "q1 < q0 \<Longrightarrow> t1 < t0" "q0 < q1 \<Longrightarrow> t0 < t1" "q0 = q1 \<Longrightarrow> r1 < r0 \<longleftrightarrow> t1 < t0"
    using r unfolding t by linarith+
  ultimately show ?thesis by (metis linorder_neqE not_less_iff_gr_or_eq)
qed

definition gint64_cmp :: "int \<Rightarrow> int \<Rightarrow> int" where
  "gint64_cmp i1 i2 = (if i1 = i2 then 0 else if i1 < i2 then -1 else 1)"

subsection \<open>C strings\<close>

definition NUL :: char where
  "NUL = CHR 0x00"

text \<open>The C string at the start of a buffer: the bytes before the first NUL.\<close>

definition cstr :: "string \<Rightarrow> string" where
  "cstr s = takeWhile (\<lambda>c. c \<noteq> NUL) s"

lemma cstr_no_nul: "NUL \<notin> set (cstr s)"
  by (metis cstr_def set_takeWhileD)

lemma cstr_id [simp]: "NUL \<notin> set s \<Longrightarrow> cstr s = s"
  unfolding cstr_def by (metis (mono_tags, lifting) takeWhile_eq_all_conv)

text \<open>A byte of a string as the unsigned number the C code sees through \<open>guint8\<close>.\<close>

definition byte_of :: "char \<Rightarrow> nat" where
  "byte_of c = of_char c"

lemma byte_of_inj [simp]: "byte_of x = byte_of y \<longleftrightarrow> x = y"
  by (simp add: byte_of_def)

lemma byte_of_char_of [simp]: "n < 256 \<Longrightarrow> byte_of (char_of n) = n"
  by (simp add: byte_of_def)

lemma byte_of_less [simp]: "byte_of c < 256"
  by (simp add: byte_of_def)

text \<open>
  \<open>strcmp\<close> orders by the first differing byte, read as unsigned. Only the sign of its
  result is specified, so the model returns -1, 0 or 1.
\<close>

fun strcmp :: "string \<Rightarrow> string \<Rightarrow> int" where
  "strcmp [] [] = 0"
| "strcmp [] (y # ys) = -1"
| "strcmp (x # xs) [] = 1"
| "strcmp (x # xs) (y # ys) =
     (if byte_of x < byte_of y then -1 else if byte_of y < byte_of x then 1 else strcmp xs ys)"

lemma byte_of_linear: "\<not> byte_of x < byte_of y \<Longrightarrow> \<not> byte_of y < byte_of x \<Longrightarrow> x = y"
  by (metis byte_of_inj linorder_neqE_nat)

lemma strcmp_eq_0 [simp]: "strcmp xs ys = 0 \<longleftrightarrow> xs = ys"
  by (induction xs ys rule: strcmp.induct) (auto dest: byte_of_linear)

lemma strcmp_sym: "strcmp ys xs = - strcmp xs ys"
  by (induction xs ys rule: strcmp.induct) auto

lemma strcmp_trans: "strcmp xs ys < 0 \<Longrightarrow> strcmp ys zs < 0 \<Longrightarrow> strcmp xs zs < 0"
proof (induction xs ys arbitrary: zs rule: strcmp.induct)
  case (2 y ys)
  then show ?case by (cases zs) auto
next
  case (4 x xs y ys)
  from 4(3) obtain z zs' where z: "zs = z # zs'" by (cases zs) auto
  show ?case
  proof (cases "x = y \<and> y = z")
    case True
    with 4 z show ?thesis by simp
  next
    case False
    have "byte_of x \<le> byte_of y" using 4(2) by (simp split: if_splits)
    moreover have "byte_of y \<le> byte_of z" using 4(3) z by (simp split: if_splits)
    moreover have "byte_of x \<noteq> byte_of y \<or> byte_of y \<noteq> byte_of z" using False by simp
    ultimately have "byte_of x < byte_of z" by linarith
    with z show ?thesis by simp
  qed
qed simp_all

subsection \<open>Decimal numbers: \<open>strtoll\<close>, \<open>atoi\<close>, \<open>%d\<close>\<close>

definition is_digit :: "char \<Rightarrow> bool" where
  "is_digit c \<longleftrightarrow> 48 \<le> byte_of c \<and> byte_of c \<le> 57"

definition digit_val :: "char \<Rightarrow> int" where
  "digit_val c = int (byte_of c) - 48"

definition is_space :: "char \<Rightarrow> bool" where
  "is_space c \<longleftrightarrow> byte_of c = 32 \<or> (9 \<le> byte_of c \<and> byte_of c \<le> 13)"

fun digits_val :: "int \<Rightarrow> string \<Rightarrow> int" where
  "digits_val acc [] = acc"
| "digits_val acc (c # cs) = (if is_digit c then digits_val (10 * acc + digit_val c) cs else acc)"

definition clamp64 :: "int \<Rightarrow> int" where
  "clamp64 i = max (- (2 ^ 63)) (min (2 ^ 63 - 1) i)"

text \<open>
  \<open>strtoll (s, NULL, 10)\<close>: white space, an optional sign, digits up to the first other
  byte, saturated to 64 bits.
\<close>

definition strtoll :: "string \<Rightarrow> int" where
  "strtoll s =
     (case dropWhile is_space s of
        [] \<Rightarrow> 0
      | c # cs \<Rightarrow>
          if c = CHR ''-'' then clamp64 (- digits_val 0 cs)
          else if c = CHR ''+'' then clamp64 (digits_val 0 cs)
          else clamp64 (digits_val 0 (c # cs)))"

text \<open>
  \<open>atoi\<close> of the C library the program runs on: \<open>strtol\<close> (64 bits) converted to the 32-bit
  \<open>int\<close>, that is, reduced modulo \<open>2 ^ 32\<close>.
\<close>

definition atoi :: "string \<Rightarrow> int" where
  "atoi s = sint (word_of_int (strtoll s) :: u32)"

fun nat_digits :: "nat \<Rightarrow> string" where
  "nat_digits n =
     (if n < 10 then [char_of (48 + n)] else nat_digits (n div 10) @ [char_of (48 + n mod 10)])"

declare nat_digits.simps [simp del]

text \<open>\<open>%d\<close> of a signed value.\<close>

definition int_digits :: "int \<Rightarrow> string" where
  "int_digits i = (if i < 0 then CHR ''-'' # nat_digits (nat (- i)) else nat_digits (nat i))"

text \<open>\<open>%010d\<close> of a value that is not negative: zeroes on the left up to ten digits.\<close>

definition pad10 :: "int \<Rightarrow> string" where
  "pad10 i = replicate (10 - length (int_digits i)) (CHR ''0'') @ int_digits i"

lemma is_digit_char_of [simp]: "(d::nat) < 10 \<Longrightarrow> is_digit (char_of (48 + d))"
  by (simp add: is_digit_def)

lemma digit_val_char_of [simp]: "(d::nat) < 10 \<Longrightarrow> digit_val (char_of (48 + d)) = int d"
  by (simp add: digit_val_def)

lemma digit_zero [simp]: "is_digit (CHR ''0'')" "digit_val (CHR ''0'') = 0"
  by (simp_all add: is_digit_def digit_val_def byte_of_def)

lemma digits_val_append:
  "\<forall>c \<in> set xs. is_digit c \<Longrightarrow> digits_val acc (xs @ ys) = digits_val (digits_val acc xs) ys"
  by (induction xs arbitrary: acc) auto

lemma nat_digits_digit: "c \<in> set (nat_digits n) \<Longrightarrow> is_digit c"
proof (induction n rule: nat_digits.induct)
  case (1 n)
  show ?case
  proof (cases "n < 10")
    case True
    with 1 show ?thesis by (simp add: nat_digits.simps [of n])
  next
    case False
    with 1 show ?thesis by (auto simp add: nat_digits.simps [of n])
  qed
qed

lemma nat_digits_nonempty [simp]: "nat_digits n \<noteq> []"
  by (subst nat_digits.simps) simp

lemma digits_val_nat_digits [simp]: "digits_val 0 (nat_digits n) = int n"
proof (induction n rule: nat_digits.induct)
  case (1 n)
  show ?case
  proof (cases "n < 10")
    case True
    then show ?thesis by (simp add: nat_digits.simps [of n])
  next
    case False
    have "digits_val 0 (nat_digits n) =
        digits_val (int (n div 10)) [char_of (48 + n mod 10)]"
      using False 1 by (simp add: nat_digits.simps [of n] digits_val_append nat_digits_digit)
    also have "\<dots> = 10 * int (n div 10) + int (n mod 10)" by simp
    also have "\<dots> = int n"
      by (metis mult_div_mod_eq of_nat_add of_nat_mult of_nat_numeral)
    finally show ?thesis .
  qed
qed

lemma digits_val_zeros [simp]: "digits_val 0 (replicate k (CHR ''0'') @ s) = digits_val 0 s"
  by (induction k) simp_all

lemma digits_val_ge: "0 \<le> acc \<Longrightarrow> acc \<le> digits_val acc s"
proof (induction s arbitrary: acc)
  case (Cons c s)
  show ?case
  proof (cases "is_digit c")
    case True
    then have v: "0 \<le> digit_val c" by (auto simp: is_digit_def digit_val_def)
    then have "10 * acc + digit_val c \<le> digits_val (10 * acc + digit_val c) s"
      using Cons by simp
    with v True Cons.prems show ?thesis by simp
  qed (use Cons in simp)
qed simp

lemma is_digit_not_space: "is_digit c \<Longrightarrow> \<not> is_space c"
  by (auto simp: is_digit_def is_space_def)

lemma is_digit_not_sign: "is_digit c \<Longrightarrow> c \<noteq> CHR ''-'' \<and> c \<noteq> CHR ''+''"
  by (auto simp: is_digit_def byte_of_def)

text \<open>Text that starts with a digit is read as the number its digits spell.\<close>

lemma strtoll_digits: "is_digit c \<Longrightarrow> strtoll (c # cs) = clamp64 (digits_val 0 (c # cs))"
  using is_digit_not_space [of c] is_digit_not_sign [of c] by (simp add: strtoll_def)

lemma strtoll_nonneg: "is_digit c \<Longrightarrow> 0 \<le> strtoll (c # cs)"
  using digits_val_ge [of 0 "c # cs"] by (simp add: strtoll_digits clamp64_def)

lemma strtoll_pad10: "0 \<le> i \<Longrightarrow> i < 2 ^ 63 \<Longrightarrow> strtoll (pad10 i) = i"
proof -
  assume i: "0 \<le> i" "i < 2 ^ 63"
  have dig: "\<forall>c \<in> set (pad10 i). is_digit c"
    using i by (auto simp: pad10_def int_digits_def nat_digits_digit)
  have ne: "pad10 i \<noteq> []" using i by (simp add: pad10_def int_digits_def)
  then obtain c cs where p: "pad10 i = c # cs" by (cases "pad10 i") auto
  have v: "digits_val 0 (pad10 i) = i" using i by (simp add: pad10_def int_digits_def)
  show ?thesis
    using strtoll_digits [of c cs] p dig v i by (simp add: clamp64_def)
qed

text \<open>\<open>strrchr (s, c)\<close>, advanced by one: what follows the last occurrence of the byte.\<close>

definition after_last :: "char \<Rightarrow> string \<Rightarrow> string option" where
  "after_last c s = (if c \<in> set s then Some (rev (takeWhile (\<lambda>x. x \<noteq> c) (rev s))) else None)"

lemma after_last_append [simp]: "c \<notin> set t \<Longrightarrow> after_last c (s @ c # t) = Some t"
proof -
  assume "c \<notin> set t"
  then have "takeWhile (\<lambda>x. x \<noteq> c) (rev t @ c # rev s) = rev t"
    by (subst takeWhile_append2) auto
  then show ?thesis by (simp add: after_last_def)
qed

text \<open>\<open>g_str_has_prefix\<close>.\<close>

definition has_prefix :: "string \<Rightarrow> string \<Rightarrow> bool" where
  "has_prefix s p \<longleftrightarrow> take (length p) s = p"

lemma has_prefix_append [simp]: "has_prefix (p @ s) p"
  by (simp add: has_prefix_def)

subsection \<open>GLib's balanced tree\<close>

text \<open>
  A \<open>GTree\<close> holds its pairs in the order of its comparison function. The model is the list
  of the pairs in that order; \<open>g_tree_insert\<close> keeps the key that is already there,
  \<open>g_tree_replace\<close> installs the new one, \<open>g_tree_foreach\<close> visits in order (the hooks of
  this program never stop it).
\<close>

type_synonym ('k, 'v) gtree = "('k \<times> 'v) list"

fun g_tree_lookup :: "('k \<Rightarrow> 'k \<Rightarrow> int) \<Rightarrow> ('k, 'v) gtree \<Rightarrow> 'k \<Rightarrow> 'v option" where
  "g_tree_lookup cmp [] k = None"
| "g_tree_lookup cmp ((k', v) # t) k =
     (if cmp k k' = 0 then Some v else if cmp k k' < 0 then None else g_tree_lookup cmp t k)"

fun g_tree_insert :: "('k \<Rightarrow> 'k \<Rightarrow> int) \<Rightarrow> ('k, 'v) gtree \<Rightarrow> 'k \<Rightarrow> 'v \<Rightarrow> ('k, 'v) gtree" where
  "g_tree_insert cmp [] k v = [(k, v)]"
| "g_tree_insert cmp ((k', v') # t) k v =
     (if cmp k k' = 0 then (k', v) # t
      else if cmp k k' < 0 then (k, v) # (k', v') # t
      else (k', v') # g_tree_insert cmp t k v)"

fun g_tree_replace :: "('k \<Rightarrow> 'k \<Rightarrow> int) \<Rightarrow> ('k, 'v) gtree \<Rightarrow> 'k \<Rightarrow> 'v \<Rightarrow> ('k, 'v) gtree" where
  "g_tree_replace cmp [] k v = [(k, v)]"
| "g_tree_replace cmp ((k', v') # t) k v =
     (if cmp k k' = 0 then (k, v) # t
      else if cmp k k' < 0 then (k, v) # (k', v') # t
      else (k', v') # g_tree_replace cmp t k v)"

fun g_tree_remove :: "('k \<Rightarrow> 'k \<Rightarrow> int) \<Rightarrow> ('k, 'v) gtree \<Rightarrow> 'k \<Rightarrow> ('k, 'v) gtree" where
  "g_tree_remove cmp [] k = []"
| "g_tree_remove cmp ((k', v') # t) k =
     (if cmp k k' = 0 then t
      else if cmp k k' < 0 then (k', v') # t
      else (k', v') # g_tree_remove cmp t k)"

text \<open>Representation invariant: keys well formed and strictly increasing.\<close>

definition gtree_ok :: "('k \<Rightarrow> 'k \<Rightarrow> int) \<Rightarrow> ('k \<Rightarrow> bool) \<Rightarrow> ('k, 'v) gtree \<Rightarrow> bool" where
  "gtree_ok cmp okk t \<longleftrightarrow> sorted_wrt (\<lambda>a b. cmp a b < 0) (map fst t) \<and> (\<forall>k \<in> set (map fst t). okk k)"

lemma gtree_ok_filter: "gtree_ok cmp okk t \<Longrightarrow> gtree_ok cmp okk (filter P t)"
  by (induction t) (auto simp: gtree_ok_def)

lemma map_of_filter_key: "map_of (filter (\<lambda>p. fst p \<noteq> n) t) = (map_of t)(n := None)"
  by (induction t) (auto simp: fun_eq_iff)

lemma filter_keys_id: "k \<notin> fst ` set t \<Longrightarrow> filter (\<lambda>p. fst p \<noteq> k) t = t"
  by (induction t) auto

text \<open>
  The contract of a GLib comparison function on the keys the program stores: it is zero on
  equal keys only, it is antisymmetric and it is transitive.
\<close>

locale gcompare =
  fixes cmp :: "'k \<Rightarrow> 'k \<Rightarrow> int"
    and okk :: "'k \<Rightarrow> bool"
  assumes cmp_zero: "okk a \<Longrightarrow> okk b \<Longrightarrow> cmp a b = 0 \<longleftrightarrow> a = b"
    and cmp_flip: "okk a \<Longrightarrow> okk b \<Longrightarrow> cmp a b < 0 \<longleftrightarrow> 0 < cmp b a"
    and cmp_trans: "okk a \<Longrightarrow> okk b \<Longrightarrow> okk c \<Longrightarrow> cmp a b < 0 \<Longrightarrow> cmp b c < 0 \<Longrightarrow> cmp a c < 0"
begin

lemma ok_Nil: "gtree_ok cmp okk []"
  by (simp add: gtree_ok_def)

lemma ok_Cons:
  "gtree_ok cmp okk ((k, v) # t) \<longleftrightarrow>
     okk k \<and> (\<forall>k' \<in> fst ` set t. cmp k k' < 0) \<and> gtree_ok cmp okk t"
  by (auto simp: gtree_ok_def)

lemma head_notin:
  assumes "gtree_ok cmp okk ((k, v) # t)"
  shows "k \<notin> fst ` set t"
proof
  assume "k \<in> fst ` set t"
  with assms have "cmp k k < 0" and "okk k" by (auto simp: ok_Cons)
  then show False using cmp_zero [of k k] by simp
qed

lemma less_notin:
  assumes "gtree_ok cmp okk ((k', v') # t)" and "okk k" and "cmp k k' < 0"
  shows "k \<notin> fst ` set ((k', v') # t)"
proof
  assume "k \<in> fst ` set ((k', v') # t)"
  then have "k = k' \<or> cmp k' k < 0" using assms(1) by (auto simp: ok_Cons)
  moreover have "okk k'" using assms(1) by (simp add: ok_Cons)
  ultimately show False
    using assms(2,3) cmp_zero [of k k'] cmp_flip [of k k'] cmp_flip [of k' k] by auto
qed

lemma lookup_map_of: "gtree_ok cmp okk t \<Longrightarrow> okk k \<Longrightarrow> g_tree_lookup cmp t k = map_of t k"
proof (induction t)
  case (Cons p t)
  obtain k' v' where p: "p = (k', v')" by fastforce
  with Cons.prems have w: "okk k'" by (simp add: ok_Cons)
  show ?case
  proof (cases "cmp k k' < 0")
    case True
    then have "map_of (p # t) k = None"
      using less_notin Cons.prems p by (metis map_of_eq_None_iff)
    with True p show ?thesis using cmp_zero [OF Cons.prems(2) w] by auto
  next
    case False
    with Cons p w show ?thesis using cmp_zero [OF Cons.prems(2) w] by (auto simp: ok_Cons)
  qed
qed simp

lemma keys_insert: "gtree_ok cmp okk t \<Longrightarrow> okk k \<Longrightarrow> fst ` set (g_tree_insert cmp t k v) = insert k (fst ` set t)"
proof (induction t)
  case (Cons p t)
  obtain k' v' where p: "p = (k', v')" by fastforce
  with Cons.prems have w: "okk k'" by (simp add: ok_Cons)
  show ?case using Cons p cmp_zero [OF Cons.prems(2) w] by (auto simp: ok_Cons)
qed simp

lemma ok_insert: "gtree_ok cmp okk t \<Longrightarrow> okk k \<Longrightarrow> gtree_ok cmp okk (g_tree_insert cmp t k v)"
proof (induction t)
  case (Cons p t)
  obtain k' v' where p: "p = (k', v')" by fastforce
  with Cons.prems have w: "okk k'" and t: "gtree_ok cmp okk t"
    and above: "\<forall>k'' \<in> fst ` set t. cmp k' k'' < 0" by (simp_all add: ok_Cons)
  have wt: "\<forall>k'' \<in> fst ` set t. okk k''" using t by (auto simp: gtree_ok_def)
  consider (eq) "cmp k k' = 0" | (less) "cmp k k' < 0" | (more) "0 < cmp k k'" by linarith
  then show ?case
  proof cases
    case eq
    then show ?thesis using Cons.prems p by (simp add: ok_Cons)
  next
    case less
    have "\<forall>k'' \<in> fst ` set t. cmp k k'' < 0"
      using above wt w Cons.prems(2) less cmp_trans by blast
    with less show ?thesis using Cons.prems p by (simp add: ok_Cons)
  next
    case more
    have "cmp k' k < 0" using more cmp_flip [OF w Cons.prems(2)] by simp
    with more show ?thesis
      using p w above Cons.IH [OF t Cons.prems(2)] keys_insert [OF t Cons.prems(2)]
      by (simp add: ok_Cons)
  qed
qed (simp add: ok_Cons ok_Nil)

lemma map_of_insert:
  "gtree_ok cmp okk t \<Longrightarrow> okk k \<Longrightarrow> map_of (g_tree_insert cmp t k v) = (map_of t)(k \<mapsto> v)"
proof (induction t)
  case (Cons p t)
  obtain k' v' where p: "p = (k', v')" by fastforce
  with Cons.prems have w: "okk k'" by (simp add: ok_Cons)
  show ?case
    using Cons p cmp_zero [OF Cons.prems(2) w] by (auto simp: ok_Cons fun_upd_twist)
qed simp

lemma replace_eq_insert:
  "gtree_ok cmp okk t \<Longrightarrow> okk k \<Longrightarrow> g_tree_replace cmp t k v = g_tree_insert cmp t k v"
proof (induction t)
  case (Cons p t)
  obtain k' v' where p: "p = (k', v')" by fastforce
  with Cons.prems have w: "okk k'" by (simp add: ok_Cons)
  show ?case using Cons p cmp_zero [OF Cons.prems(2) w] by (simp add: ok_Cons)
qed simp

lemma remove_filter:
  "gtree_ok cmp okk t \<Longrightarrow> okk k \<Longrightarrow> g_tree_remove cmp t k = filter (\<lambda>p. fst p \<noteq> k) t"
proof (induction t)
  case (Cons p t)
  obtain k' v' where p: "p = (k', v')" by fastforce
  with Cons.prems have w: "okk k'" by (simp add: ok_Cons)
  consider (eq) "cmp k k' = 0" | (less) "cmp k k' < 0" | (more) "0 < cmp k k'" by linarith
  then show ?case
  proof cases
    case eq
    then have kk: "k = k'" using cmp_zero [OF Cons.prems(2) w] by simp
    have "k' \<notin> fst ` set t" by (rule head_notin [OF Cons.prems(1) [unfolded p]])
    then have f: "filter (\<lambda>p. fst p \<noteq> k') t = t" by (rule filter_keys_id)
    have "filter (\<lambda>p. fst p \<noteq> k) ((k', v') # t) = filter (\<lambda>p. fst p \<noteq> k') t"
      using kk by simp
    then show ?thesis unfolding p f by (simp only: g_tree_remove.simps eq if_True simp_thms)
  next
    case less
    then have "k \<notin> fst ` set ((k', v') # t)"
      by (rule less_notin [OF Cons.prems(1) [unfolded p] Cons.prems(2)])
    then have f: "filter (\<lambda>p. fst p \<noteq> k) ((k', v') # t) = (k', v') # t"
      by (rule filter_keys_id)
    show ?thesis unfolding p f using less by simp
  next
    case more
    then have "k \<noteq> k'" using cmp_zero [OF Cons.prems(2) w] by auto
    with more Cons p show ?thesis by (simp add: ok_Cons)
  qed
qed simp

lemma ok_distinct: "gtree_ok cmp okk t \<Longrightarrow> distinct (map fst t)"
proof (induction t)
  case (Cons p t)
  obtain k v where p: "p = (k, v)" by fastforce
  have "k \<notin> fst ` set t" by (rule head_notin [OF Cons.prems(1) [unfolded p]])
  with Cons p show ?case by (simp add: ok_Cons)
qed simp

text \<open>A tree is determined by the map it represents.\<close>

lemma ok_head_least:
  assumes "gtree_ok cmp okk ((k, v) # t)" and "k' \<in> fst ` set ((k, v) # t)"
  shows "k' = k \<or> cmp k k' < 0"
  using assms by (auto simp: ok_Cons)

lemma ok_okk: "gtree_ok cmp okk t \<Longrightarrow> k \<in> fst ` set t \<Longrightarrow> okk k"
  by (auto simp: gtree_ok_def)

lemma ok_unique:
  "gtree_ok cmp okk a \<Longrightarrow> gtree_ok cmp okk b \<Longrightarrow> map_of a = map_of b \<Longrightarrow> a = b"
proof (induction a arbitrary: b)
  case Nil
  then show ?case by (metis list.set_intros(1) map_of.simps(1) map_of_eq_empty_iff)
next
  case (Cons p a)
  obtain k v where p: "p = (k, v)" by fastforce
  from Cons.prems(3) p have "map_of b k = Some v" by (metis fun_upd_same fst_conv map_of.simps(2) snd_conv)
  then have "b \<noteq> []" by auto
  then obtain k' v' b' where b: "b = (k', v') # b'" by (metis list.exhaust surj_pair)
  have keys: "fst ` set ((k, v) # a) = fst ` set ((k', v') # b')"
    using Cons.prems(3) unfolding p b by (metis dom_map_of_conv_image_fst)
  have oka: "gtree_ok cmp okk ((k, v) # a)" and okb: "gtree_ok cmp okk ((k', v') # b')"
    using Cons.prems(1,2) unfolding p b by auto
  have "okk k" "okk k'" using oka okb by (simp_all add: ok_Cons)
  moreover have "k' = k \<or> cmp k k' < 0"
    using ok_head_least [OF oka, of k'] unfolding keys by auto
  moreover have "k = k' \<or> cmp k' k < 0"
    using ok_head_least [OF okb, of k] unfolding keys [symmetric] by auto
  ultimately have kk: "k' = k" using cmp_flip [of k k'] by auto
  have vv: "v' = v" using Cons.prems(3) unfolding p b kk by (metis fun_upd_same map_of.simps(2) fst_conv option.inject snd_conv)
  have "map_of a = map_of b'"
  proof
    fix x
    show "map_of a x = map_of b' x"
    proof (cases "x = k")
      case True
      then show ?thesis
        using head_notin [OF oka] head_notin [OF okb [unfolded kk]] by (metis map_of_eq_None_iff)
    next
      case False
      then show ?thesis using Cons.prems(3) unfolding p b kk by (metis fun_upd_other map_of.simps(2) fst_conv)
    qed
  qed
  then have "a = b'" using Cons.IH oka okb by (simp add: ok_Cons)
  then show ?case using p b kk vv by simp
qed

lemma ok_map_values: "gtree_ok cmp okk (map (\<lambda>(k, v). (k, f k v)) t) \<longleftrightarrow> gtree_ok cmp okk t"
proof -
  have "map fst (map (\<lambda>(k, v). (k, f k v)) t) = map fst t" by (induction t) auto
  then show ?thesis by (simp only: gtree_ok_def)
qed

end

interpretation gint64: gcompare gint64_cmp "\<lambda>_. True"
  by unfold_locales (auto simp: gint64_cmp_def split: if_splits)

subsection \<open>State machines\<close>

text \<open>
  A state machine of the program is a step function on events. When every admissible event
  keeps an invariant, every run of admissible events keeps it; when every step keeps a
  quantity, so does every run.
\<close>

fun run_events :: "('e \<Rightarrow> 's \<Rightarrow> 's) \<Rightarrow> 'e list \<Rightarrow> 's \<Rightarrow> 's" where
  "run_events step [] s = s"
| "run_events step (e # es) s = run_events step es (step e s)"

lemma run_events_append: "run_events step (xs @ ys) s = run_events step ys (run_events step xs s)"
  by (induction xs arbitrary: s) auto

locale event_machine =
  fixes step :: "'e \<Rightarrow> 's \<Rightarrow> 's"
    and ok :: "'e \<Rightarrow> bool"
    and inv :: "'s \<Rightarrow> bool"
  assumes step_inv: "ok e \<Longrightarrow> inv s \<Longrightarrow> inv (step e s)"
begin

lemma run_inv: "\<forall>e \<in> set es. ok e \<Longrightarrow> inv s \<Longrightarrow> inv (run_events step es s)"
  by (induction es arbitrary: s) (auto intro: step_inv)

lemma run_prefix_inv:
  "\<forall>e \<in> set (xs @ ys). ok e \<Longrightarrow> inv s \<Longrightarrow> inv (run_events step xs s)"
  by (rule run_inv) auto

end

text \<open>
  A step relation whose steps keep an invariant, for the state machines where several
  threads or hosts take their steps in any order.
\<close>

locale step_system =
  fixes step :: "'s \<Rightarrow> 's \<Rightarrow> bool"
    and inv :: "'s \<Rightarrow> bool"
  assumes step_keeps: "step s s' \<Longrightarrow> inv s \<Longrightarrow> inv s'"
begin

lemma steps_keep: "step\<^sup>*\<^sup>* s s' \<Longrightarrow> inv s \<Longrightarrow> inv s'"
  by (induction rule: rtranclp_induct) (auto intro: step_keeps)

end

end
