(* ===== verification/Metautils.thy ===== *)
theory Metautils
  imports Prelude "HOL-Library.Multiset"
begin

section \<open>The metautils library: bit tricks, hashed strings, lines, lists\<close>

text \<open>
  Models \<open>metautils_bits.h\<close>, \<open>utils_hashstr.c\<close>, the line codec and the predicates of
  \<open>utils_strings.c\<close> and the list helpers of \<open>utils_containers.c\<close>. The lemmas show that
  the branch-free macros compute minimum, maximum, clamp and conditional, that
  \<open>hashstr_quick_cmp\<close> is a total order on well-formed hashed strings (so it satisfies the
  contract \<open>gcompare\<close> of the trees keyed by it), when the two hash functions agree, what
  the line codec round-trips to, and that splitting, shuffling and grouping a list lose
  and invent nothing.
\<close>

unbundle bit_operations_syntax

subsection \<open>Branch-free arithmetic\<close>

text \<open>A C truth value: the comparison operators yield the \<open>int\<close> 0 or 1.\<close>

definition c_bool :: "bool \<Rightarrow> u32" where
  "c_bool b = (if b then 1 else 0)"

definition CMP :: "'a::linorder \<Rightarrow> 'a \<Rightarrow> int" where
  "CMP a b = of_bool (b < a) - of_bool (a < b)"

definition MACRO_COND :: "u32 \<Rightarrow> u32 \<Rightarrow> u32 \<Rightarrow> u32" where
  "MACRO_COND c a b = b XOR ((a XOR b) AND (- c_bool (c \<noteq> 0)))"

definition MACRO_MAX :: "u32 \<Rightarrow> u32 \<Rightarrow> u32" where
  "MACRO_MAX a b = a XOR ((a XOR b) AND (- c_bool (a < b)))"

definition MACRO_MIN :: "u32 \<Rightarrow> u32 \<Rightarrow> u32" where
  "MACRO_MIN a b = b XOR ((a XOR b) AND (- c_bool (a < b)))"

definition FUNC_SIGN :: "int \<Rightarrow> int" where
  "FUNC_SIGN v = CMP v 0"

definition FUNC_CLAMP :: "u32 \<Rightarrow> u32 \<Rightarrow> u32 \<Rightarrow> u32" where
  "FUNC_CLAMP v lo hi = (let v = MACRO_MIN v hi in MACRO_MAX v lo)"

definition FUNC_MAX :: "u32 \<Rightarrow> u32 \<Rightarrow> u32" where
  "FUNC_MAX v0 v1 = MACRO_MAX v0 v1"

definition FUNC_MIN :: "u32 \<Rightarrow> u32 \<Rightarrow> u32" where
  "FUNC_MIN v0 v1 = MACRO_MIN v0 v1"

definition FUNC_COND :: "u32 \<Rightarrow> u32 \<Rightarrow> u32 \<Rightarrow> u32" where
  "FUNC_COND c v0 v1 = MACRO_COND c v0 v1"

lemma xor_select: "(b::u32) XOR ((a XOR b) AND (- c_bool p)) = (if p then a else b)"
proof (cases p)
  case True
  have "b XOR ((a XOR b) AND (- 1)) = b XOR (a XOR b)" by simp
  also have "\<dots> = a" by (metis xor.assoc xor.commute xor_self_eq xor.right_neutral)
  finally show ?thesis using True by (simp add: c_bool_def)
next
  case False
  then show ?thesis by (simp add: c_bool_def)
qed

lemma MACRO_COND_eq: "MACRO_COND c a b = (if c \<noteq> 0 then a else b)"
  unfolding MACRO_COND_def by (rule xor_select)

lemma MACRO_MIN_eq: "MACRO_MIN a b = min a b"
  unfolding MACRO_MIN_def xor_select by (auto simp: min_def)

lemma MACRO_MAX_eq: "MACRO_MAX a b = max a b"
proof -
  have "MACRO_MAX a b = (if a < b then b else a)"
    using xor_select [of a b "a < b"] by (simp add: MACRO_MAX_def xor.commute)
  then show ?thesis by (auto simp: max_def)
qed

lemmas macro_eqs = MACRO_COND_eq MACRO_MIN_eq MACRO_MAX_eq

subsection \<open>Hashed strings\<close>

record hash_len =
  hl_h :: u32
  hl_l :: u32

text \<open>
  \<open>hashstr_t\<close>: the hash, the length and the bytes that follow the header (the terminating
  NUL left out).
\<close>

record hashstr =
  hl :: hash_len
  s0 :: string

text \<open>The two readings of a byte: through \<open>guint8\<close>, and through the signed \<open>gchar\<close>.\<close>

definition guint8_to_u32 :: "char \<Rightarrow> u32" where
  "guint8_to_u32 c = of_nat (byte_of c)"

definition gchar_to_u32 :: "char \<Rightarrow> u32" where
  "gchar_to_u32 c = of_int (if byte_of c < 128 then int (byte_of c) else int (byte_of c) - 256)"

fun djb_hash_buf3 :: "u32 \<Rightarrow> string \<Rightarrow> u32" where
  "djb_hash_buf3 h [] = h"
| "djb_hash_buf3 h (c # cs) = djb_hash_buf3 ((push_bit 5 h + h) XOR guint8_to_u32 c) cs"

definition djb_hash_buf :: "string \<Rightarrow> u32" where
  "djb_hash_buf b = djb_hash_buf3 5381 b"

fun djb_hash_str_loop :: "hash_len \<Rightarrow> string \<Rightarrow> hash_len" where
  "djb_hash_str_loop h [] = h"
| "djb_hash_str_loop h (c # cs) =
     (if c = NUL then h
      else djb_hash_str_loop
             (h\<lparr>hl_h := (push_bit 5 (hl_h h) + hl_h h) XOR gchar_to_u32 c, hl_l := hl_l h + 1\<rparr>) cs)"

definition djb_hash_str :: "string \<Rightarrow> hash_len" where
  "djb_hash_str b = djb_hash_str_loop \<lparr>hl_h = 5381, hl_l = 0\<rparr> b"

definition hashstr_create :: "string \<Rightarrow> hashstr" where
  "hashstr_create s = (let h = djb_hash_str s in \<lparr>hl = h, s0 = take (unat (hl_l h)) s\<rparr>)"

definition hashstr_create_len :: "string \<Rightarrow> nat \<Rightarrow> hashstr" where
  "hashstr_create_len s l =
     \<lparr>hl = \<lparr>hl_h = djb_hash_buf (take l s), hl_l = of_nat l\<rparr>, s0 = take l s\<rparr>"

definition hashstr_create_from_gstring :: "string \<Rightarrow> hashstr" where
  "hashstr_create_from_gstring gstr = hashstr_create_len gstr (length gstr)"

definition hashstr_str :: "hashstr \<Rightarrow> string" where
  "hashstr_str hs = cstr (s0 hs)"

definition hashstr_len :: "hashstr \<Rightarrow> nat" where
  "hashstr_len hs = unat (hl_l (hl hs))"

definition hashstr_hash :: "hashstr \<Rightarrow> u32" where
  "hashstr_hash hs = hl_h (hl hs)"

definition hashstr_cmp :: "hashstr \<Rightarrow> hashstr \<Rightarrow> int" where
  "hashstr_cmp hs1 hs2 = strcmp (hashstr_str hs1) (hashstr_str hs2)"

definition hashstr_equal :: "hashstr \<Rightarrow> hashstr \<Rightarrow> bool" where
  "hashstr_equal hs1 hs2 \<longleftrightarrow>
     hl_h (hl hs1) = hl_h (hl hs2) \<and> hl_l (hl hs1) = hl_l (hl hs2) \<and> hashstr_cmp hs1 hs2 = 0"

definition hashstr_quick_cmp :: "hashstr \<Rightarrow> hashstr \<Rightarrow> int" where
  "hashstr_quick_cmp hs1 hs2 =
     (let rc = CMP (hl_h (hl hs1)) (hl_h (hl hs2))
      in if rc \<noteq> 0 then rc else hashstr_cmp hs1 hs2)"

definition hashstr_dup :: "hashstr \<Rightarrow> hashstr" where
  "hashstr_dup hs = \<lparr>hl = hl hs, s0 = take (unat (hl_l (hl hs))) (s0 hs)\<rparr>"

text \<open>
  A hashed string of the program: no NUL among its bytes and the length it has (below
  \<open>2 ^ 32\<close>, the range of the header's field). Its hash is whatever the constructor
  computed.
\<close>

definition hashstr_wf :: "hashstr \<Rightarrow> bool" where
  "hashstr_wf hs \<longleftrightarrow>
     NUL \<notin> set (s0 hs) \<and> length (s0 hs) < 2 ^ 32 \<and> hl_l (hl hs) = of_nat (length (s0 hs))"

lemma CMP_simps:
  "CMP a b = 0 \<longleftrightarrow> a = b" "CMP a b < 0 \<longleftrightarrow> a < b" "0 < CMP a b \<longleftrightarrow> b < a"
  by (auto simp: CMP_def)

lemma hashstr_wf_str [simp]: "hashstr_wf hs \<Longrightarrow> hashstr_str hs = s0 hs"
  by (simp add: hashstr_wf_def hashstr_str_def)

lemma hashstr_eqI:
  "hashstr_wf a \<Longrightarrow> hashstr_wf b \<Longrightarrow> hl_h (hl a) = hl_h (hl b) \<Longrightarrow> s0 a = s0 b \<Longrightarrow> a = (b::hashstr)"
  by (simp add: hashstr_wf_def)

lemma quick_cmp_zero:
  assumes "hashstr_wf a" and "hashstr_wf b"
  shows "hashstr_quick_cmp a b = 0 \<longleftrightarrow> a = b"
proof -
  have "hashstr_quick_cmp a b = 0 \<longleftrightarrow> hl_h (hl a) = hl_h (hl b) \<and> s0 a = s0 b"
    using assms by (simp add: hashstr_quick_cmp_def hashstr_cmp_def Let_def CMP_simps)
  then show ?thesis using hashstr_eqI [OF assms] by auto
qed

lemma quick_cmp_neg:
  "hashstr_quick_cmp a b < 0 \<longleftrightarrow>
     hl_h (hl a) < hl_h (hl b) \<or> (hl_h (hl a) = hl_h (hl b) \<and> hashstr_cmp a b < 0)"
  by (auto simp: hashstr_quick_cmp_def Let_def CMP_simps)

lemma quick_cmp_pos:
  "0 < hashstr_quick_cmp a b \<longleftrightarrow>
     hl_h (hl b) < hl_h (hl a) \<or> (hl_h (hl a) = hl_h (hl b) \<and> 0 < hashstr_cmp a b)"
  by (auto simp: hashstr_quick_cmp_def Let_def CMP_simps)

lemma hashstr_cmp_flip: "hashstr_cmp a b < 0 \<longleftrightarrow> 0 < hashstr_cmp b a"
  unfolding hashstr_cmp_def using strcmp_sym [of "hashstr_str a" "hashstr_str b"] by simp

lemma hashstr_cmp_less_trans: "hashstr_cmp a b < 0 \<Longrightarrow> hashstr_cmp b c < 0 \<Longrightarrow> hashstr_cmp a c < 0"
  unfolding hashstr_cmp_def by (rule strcmp_trans)

interpretation hstr: gcompare hashstr_quick_cmp hashstr_wf
proof unfold_locales
  fix a b c :: hashstr
  show "hashstr_wf a \<Longrightarrow> hashstr_wf b \<Longrightarrow> hashstr_quick_cmp a b = 0 \<longleftrightarrow> a = b"
    by (rule quick_cmp_zero)
  show "hashstr_quick_cmp a b < 0 \<longleftrightarrow> 0 < hashstr_quick_cmp b a"
    unfolding quick_cmp_neg quick_cmp_pos hashstr_cmp_flip by auto
  assume "hashstr_quick_cmp a b < 0" and "hashstr_quick_cmp b c < 0"
  then show "hashstr_quick_cmp a c < 0"
    unfolding quick_cmp_neg using hashstr_cmp_less_trans [of a b c] by auto
qed

subsubsection \<open>The constructors\<close>

lemma hash_str_loop_nul_free:
  "NUL \<notin> set s \<Longrightarrow>
   hl_l (djb_hash_str_loop h s) = hl_l h + of_nat (length s)"
  by (induction s arbitrary: h) auto

lemma hash_str_loop_ascii:
  "NUL \<notin> set s \<Longrightarrow> \<forall>c \<in> set s. byte_of c < 128 \<Longrightarrow>
   hl_h (djb_hash_str_loop h s) = djb_hash_buf3 (hl_h h) s"
  by (induction s arbitrary: h) (auto simp: gchar_to_u32_def guint8_to_u32_def)

lemma hashstr_create_nul_free:
  assumes "NUL \<notin> set s" and "length s < 2 ^ 32"
  shows "s0 (hashstr_create s) = s" and "hl_l (hl (hashstr_create s)) = of_nat (length s)"
    and "hl_h (hl (hashstr_create s)) = hl_h (djb_hash_str s)"
proof -
  have l: "hl_l (djb_hash_str s) = of_nat (length s)"
    using assms by (simp add: djb_hash_str_def hash_str_loop_nul_free)
  have "unat (of_nat (length s) :: u32) = length s"
    using assms by (simp add: unat_of_nat)
  with l show "s0 (hashstr_create s) = s" "hl_l (hl (hashstr_create s)) = of_nat (length s)"
    "hl_h (hl (hashstr_create s)) = hl_h (djb_hash_str s)"
    by (simp_all add: hashstr_create_def Let_def)
qed

lemma hashstr_create_wf: "NUL \<notin> set s \<Longrightarrow> length s < 2 ^ 32 \<Longrightarrow> hashstr_wf (hashstr_create s)"
  by (simp add: hashstr_wf_def hashstr_create_nul_free)

lemma hashstr_create_len_wf:
  "NUL \<notin> set s \<Longrightarrow> length s < 2 ^ 32 \<Longrightarrow> hashstr_wf (hashstr_create_from_gstring s)"
  by (simp add: hashstr_wf_def hashstr_create_from_gstring_def hashstr_create_len_def)

lemma hashstr_create_inj:
  assumes "NUL \<notin> set s" "length s < 2 ^ 32" "NUL \<notin> set t" "length t < 2 ^ 32"
  shows "hashstr_quick_cmp (hashstr_create s) (hashstr_create t) = 0 \<longleftrightarrow> s = t"
  using quick_cmp_zero [OF hashstr_create_wf hashstr_create_wf] assms
    hashstr_create_nul_free(1) by metis

lemma hashstr_dup_wf: "hashstr_wf hs \<Longrightarrow> hashstr_dup hs = hs"
  by (simp add: hashstr_wf_def hashstr_dup_def unat_of_nat)

subsection \<open>Lines\<close>

definition LF :: char where
  "LF = CHR 0x0A"

definition g_ascii_isprint :: "char \<Rightarrow> bool" where
  "g_ascii_isprint c \<longleftrightarrow> 32 \<le> byte_of c \<and> byte_of c \<le> 126"

definition g_ascii_isspace :: "char \<Rightarrow> bool" where
  "g_ascii_isspace c \<longleftrightarrow> byte_of c \<in> {32, 9, 10, 12, 13}"

definition strn_isprint :: "string \<Rightarrow> bool" where
  "strn_isprint s \<longleftrightarrow> (\<forall>c \<in> set s. g_ascii_isprint c \<or> g_ascii_isspace c \<or> c = LF)"

text \<open>
  The loop of \<open>metautils_decode_lines\<close>: skip line feeds, then cut at the next one. The
  lines are prepended to a list that becomes the resulting array as it is.
\<close>

function decode_lines_loop :: "string list \<Rightarrow> string \<Rightarrow> string list" where
  "decode_lines_loop lns s =
     (if s = [] then lns
      else let start = dropWhile (\<lambda>c. c = LF) s;
               l = takeWhile (\<lambda>c. c \<noteq> LF) start;
               p = dropWhile (\<lambda>c. c \<noteq> LF) start
           in if p = [] then l # lns
              else decode_lines_loop (if l \<noteq> [] then l # lns else lns) (tl p))"
  by pat_completeness auto
termination
proof (relation "measure (\<lambda>(lns, s). length s)", goal_cases)
  case (2 lns s start l p)
  have "length p \<le> length start" using 2 by (simp add: length_dropWhile_le)
  moreover have "length start \<le> length s" using 2 by (simp add: length_dropWhile_le)
  moreover have "length (tl p) < length p" using 2 by simp
  ultimately show ?case by simp
qed simp

declare decode_lines_loop.simps [simp del]

definition metautils_decode_lines :: "string \<Rightarrow> string list option" where
  "metautils_decode_lines s = (if \<not> strn_isprint s then None else Some (decode_lines_loop [] s))"

fun metautils_encode_lines :: "string list \<Rightarrow> string" where
  "metautils_encode_lines [] = []"
| "metautils_encode_lines (l # ls) = l @ [LF] @ metautils_encode_lines ls"

lemma decode_lines_loop_Nil [simp]: "decode_lines_loop lns [] = lns"
  by (simp add: decode_lines_loop.simps)

lemma decode_lines_loop_line:
  assumes "l \<noteq> []" and "LF \<notin> set l"
  shows "decode_lines_loop lns (l @ LF # s) = decode_lines_loop (l # lns) s"
proof -
  have d: "dropWhile (\<lambda>c. c = LF) (l @ LF # s) = l @ LF # s"
    using assms by (cases l) auto
  have t: "takeWhile (\<lambda>c. c \<noteq> LF) (l @ LF # s) = l"
    using assms(2) by (subst takeWhile_append2) auto
  have r: "dropWhile (\<lambda>c. c \<noteq> LF) (l @ LF # s) = LF # s"
    using assms(2) by (subst dropWhile_append2) auto
  show ?thesis
    using assms by (subst decode_lines_loop.simps) (simp add: Let_def d t r)
qed

lemma decode_encode_loop:
  "\<forall>l \<in> set ls. l \<noteq> [] \<and> LF \<notin> set l \<Longrightarrow>
   decode_lines_loop lns (metautils_encode_lines ls) = rev ls @ lns"
  by (induction ls arbitrary: lns) (simp_all add: decode_lines_loop_line)

lemma encode_lines_isprint:
  "\<forall>l \<in> set ls. strn_isprint l \<Longrightarrow> strn_isprint (metautils_encode_lines ls)"
  by (induction ls) (auto simp: strn_isprint_def)

subsection \<open>Singly-linked lists\<close>

text \<open>
  \<open>gslist_split\<close>. The data pointers may be NULL (skipped); \<open>max = 0\<close> divides by zero at
  the first element, the value \<open>None\<close> of the model. The counter starts at 1 and is
  incremented before the test.
\<close>

fun gslist_split_loop ::
  "nat \<Rightarrow> nat \<Rightarrow> 'a list \<Rightarrow> 'a list list \<Rightarrow> 'a option list \<Rightarrow> ('a list \<times> 'a list list) option" where
  "gslist_split_loop mx i sublist ret [] = Some (sublist, ret)"
| "gslist_split_loop mx i sublist ret (None # cursor) = gslist_split_loop mx i sublist ret cursor"
| "gslist_split_loop mx i sublist ret (Some d # cursor) =
     (if mx = 0 then None
      else if (i + 1) mod mx = 0
      then gslist_split_loop mx (i + 1) [] ((d # sublist) # ret) cursor
      else gslist_split_loop mx (i + 1) (d # sublist) ret cursor)"

definition gslist_split :: "'a option list \<Rightarrow> nat \<Rightarrow> 'a list list option" where
  "gslist_split xs mx =
     (case gslist_split_loop mx 1 [] [] xs of
        None \<Rightarrow> None
      | Some (sublist, ret) \<Rightarrow> Some (if sublist \<noteq> [] then sublist # ret else ret))"

text \<open>The elements of a list whose data pointer is not NULL.\<close>

definition non_null :: "'a option list \<Rightarrow> 'a list" where
  "non_null xs = map the (filter (\<lambda>x. x \<noteq> None) xs)"

lemma non_null_simps [simp]:
  "non_null [] = []" "non_null (None # xs) = non_null xs" "non_null (Some x # xs) = x # non_null xs"
  by (simp_all add: non_null_def)

lemma gslist_split_loop_total:
  "0 < mx \<Longrightarrow> \<exists>sub ret'. gslist_split_loop mx i sublist ret xs = Some (sub, ret')"
  by (induction mx i sublist ret xs rule: gslist_split_loop.induct) auto

lemma gslist_split_loop_mset:
  "gslist_split_loop mx i sublist ret xs = Some (sub, ret') \<Longrightarrow>
   mset (concat (sub # ret')) = mset (concat (sublist # ret)) + mset (non_null xs)"
  by (induction mx i sublist ret xs rule: gslist_split_loop.induct) (auto split: if_splits)

text \<open>The pending sublist never reaches \<open>max\<close> elements: its length is below \<open>i mod max + 1\<close>.\<close>

lemma gslist_split_loop_bound:
  "gslist_split_loop mx i sublist ret xs = Some (sub, ret') \<Longrightarrow>
   length sublist \<le> i mod mx \<Longrightarrow> \<forall>l \<in> set ret. l \<noteq> [] \<and> length l \<le> mx \<Longrightarrow>
   length sub \<le> mx \<and> (\<forall>l \<in> set ret'. l \<noteq> [] \<and> length l \<le> mx) \<or> mx = 0"
proof (induction mx i sublist ret xs rule: gslist_split_loop.induct)
  case (1 mx i sublist ret)
  then show ?case
    by (metis Pair_inject gslist_split_loop.simps(1) le_less_trans less_imp_le_nat mod_less_divisor
        neq0_conv option.inject)
next
  case (2 mx i sublist ret cursor)
  then show ?case by simp
next
  case (3 mx i sublist ret d cursor)
  show ?case
  proof (cases "mx = 0")
    case False
    then have lt: "i mod mx < mx" by simp
    show ?thesis
    proof (cases "(i + 1) mod mx = 0")
      case True
      with False 3(3) have "gslist_split_loop mx (i + 1) [] ((d # sublist) # ret) cursor = Some (sub, ret')"
        by simp
      moreover have "length (d # sublist) \<le> mx" using 3(4) lt by simp
      ultimately show ?thesis using 3(1) [OF False True] 3(5) by simp
    next
      case no: False
      with False 3(3) have "gslist_split_loop mx (i + 1) (d # sublist) ret cursor = Some (sub, ret')"
        by simp
      moreover have "length (d # sublist) \<le> (i + 1) mod mx"
        using 3(4) no by (simp add: mod_Suc split: if_splits)
      ultimately show ?thesis using 3(2) [OF False no] 3(5) by blast
    qed
  qed simp
qed

text \<open>
  \<open>metautils_gslist_shuffle\<close>: the list is dealt into two, each half is shuffled, and the
  halves are merged by drawing \<open>rand () % 2\<close>. The random numbers are a parameter: the
  \<open>k\<close>-th call of \<open>rand\<close> returns \<open>rnd k\<close>, and the index of the next call is threaded.
\<close>

fun gslist_split_in_two :: "'a list \<Rightarrow> 'a list \<Rightarrow> 'a list \<Rightarrow> 'a list \<times> 'a list" where
  "gslist_split_in_two l1 l2 [] = (l1, l2)"
| "gslist_split_in_two l1 l2 [x] = (x # l1, l2)"
| "gslist_split_in_two l1 l2 (x # y # src) = gslist_split_in_two (x # l1) (y # l2) src"

fun gslist_merge_random ::
  "(nat \<Rightarrow> nat) \<Rightarrow> nat \<Rightarrow> 'a list \<Rightarrow> 'a list \<Rightarrow> 'a list \<Rightarrow> 'a list \<times> nat" where
  "gslist_merge_random rnd k result [] [] = (result, k)"
| "gslist_merge_random rnd k result (x # l1) [] = gslist_merge_random rnd k (x # result) l1 []"
| "gslist_merge_random rnd k result [] (y # l2) = gslist_merge_random rnd k (y # result) [] l2"
| "gslist_merge_random rnd k result (x # l1) (y # l2) =
     (if rnd k mod 2 \<noteq> 0 then gslist_merge_random rnd (k + 1) (x # result) l1 (y # l2)
      else gslist_merge_random rnd (k + 1) (y # result) (x # l1) l2)"

lemma split_in_two_length:
  "gslist_split_in_two l1 l2 src = (r1, r2) \<Longrightarrow>
   length r1 = length l1 + (length src + 1) div 2 \<and> length r2 = length l2 + length src div 2"
  by (induction l1 l2 src rule: gslist_split_in_two.induct) auto

lemma split_in_two_mset:
  "gslist_split_in_two l1 l2 src = (r1, r2) \<Longrightarrow> mset r1 + mset r2 = mset l1 + mset l2 + mset src"
  by (induction l1 l2 src rule: gslist_split_in_two.induct) auto

lemma merge_random_mset:
  "mset (fst (gslist_merge_random rnd k result l1 l2)) = mset result + mset l1 + mset l2"
  by (induction rnd k result l1 l2 rule: gslist_merge_random.induct) auto

function metautils_gslist_shuffle :: "(nat \<Rightarrow> nat) \<Rightarrow> nat \<Rightarrow> 'a list \<Rightarrow> 'a list \<times> nat" where
  "metautils_gslist_shuffle rnd k src =
     (case gslist_split_in_two [] [] src of (l1, l2) \<Rightarrow>
        (case (if 2 \<le> length l1 then metautils_gslist_shuffle rnd k l1 else (l1, k)) of (m1, k1) \<Rightarrow>
           (case (if 2 \<le> length l2 then metautils_gslist_shuffle rnd k1 l2 else (l2, k1)) of (m2, k2) \<Rightarrow>
              gslist_merge_random rnd k2 [] m1 m2)))"
  by pat_completeness auto
termination
proof (relation "measure (\<lambda>(rnd, k, src). length src)", goal_cases)
  case (2 rnd k src l1 l2)
  then show ?case using split_in_two_length [of "[]" "[]" src l1 l2] by auto
next
  case (3 rnd k src l1 l2 m1 k1)
  then show ?case using split_in_two_length [of "[]" "[]" src l1 l2] by auto
qed simp

declare metautils_gslist_shuffle.simps [simp del]

section \<open>Properties\<close>

text \<open>
  \<open>gslist_split\<close> cuts a list into non-empty sublists of at most \<open>max\<close> elements, and
  together they hold exactly the non-NULL elements of the list, each as often as the list.
\<close>

theorem gslist_split_correct:
  assumes "0 < mx"
  shows "\<exists>r. gslist_split xs mx = Some r \<and> mset (concat r) = mset (non_null xs) \<and>
             (\<forall>l \<in> set r. l \<noteq> [] \<and> length l \<le> mx)"
proof -
  obtain sub ret where g: "gslist_split_loop mx 1 [] [] xs = Some (sub, ret)"
    using gslist_split_loop_total [OF assms] by blast
  have m: "mset (concat (sub # ret)) = mset (non_null xs)"
    using gslist_split_loop_mset [OF g] by simp
  have "length sub \<le> mx \<and> (\<forall>l \<in> set ret. l \<noteq> [] \<and> length l \<le> mx)"
    using gslist_split_loop_bound [OF g] assms by simp
  with g m show ?thesis by (cases "sub = []") (auto simp: gslist_split_def)
qed

theorem gslist_split_correct_witness:
  "\<exists>r. gslist_split [Some (1::nat), None, Some 2, Some 3] 2 = Some r \<and> mset (concat r) = {#1, 2, 3#}"
  using gslist_split_correct [of 2 "[Some (1::nat), None, Some 2, Some 3]"] by auto

text \<open>
  \<open>metautils_gslist_shuffle\<close> returns a permutation of its argument, whatever the random
  numbers drawn.
\<close>

theorem gslist_shuffle_permutes: "mset (fst (metautils_gslist_shuffle rnd k src)) = mset src"
proof (induction rnd k src rule: metautils_gslist_shuffle.induct)
  case (1 rnd k src)
  obtain l1 l2 where l: "gslist_split_in_two [] [] src = (l1, l2)" by fastforce
  obtain m1 k1 where m1: "(if 2 \<le> length l1 then metautils_gslist_shuffle rnd k l1 else (l1, k)) = (m1, k1)"
    by fastforce
  obtain m2 k2 where m2: "(if 2 \<le> length l2 then metautils_gslist_shuffle rnd k1 l2 else (l2, k1)) = (m2, k2)"
    by fastforce
  have "mset m1 = mset l1" using 1(1) [OF l [symmetric]] m1
    by (cases "2 \<le> length l1") auto
  moreover have "mset m2 = mset l2" using 1(2) [OF l [symmetric] m1 [symmetric]] m2
    by (cases "2 \<le> length l2") auto
  moreover have "metautils_gslist_shuffle rnd k src = gslist_merge_random rnd k2 [] m1 m2"
    using l m1 m2 by (subst metautils_gslist_shuffle.simps) simp
  ultimately show ?case
    using merge_random_mset [of rnd k2 "[]" m1 m2] split_in_two_mset [OF l] by simp
qed

text \<open>
  the line codec. Decoding the encoding of non-empty printable lines that hold no line
  feed gives these lines back in the reverse order.
\<close>

theorem decode_encode_lines:
  assumes "\<forall>l \<in> set ls. l \<noteq> [] \<and> LF \<notin> set l \<and> strn_isprint l"
  shows "metautils_decode_lines (metautils_encode_lines ls) = Some (rev ls)"
  using decode_encode_loop [of ls "[]"] encode_lines_isprint [of ls] assms
  by (simp add: metautils_decode_lines_def)

theorem decode_encode_lines_witness:
  "metautils_decode_lines (metautils_encode_lines [''ab'', ''c'']) = Some [''c'', ''ab'']"
  using decode_encode_lines [of "[''ab'', ''c'']"]
  by (simp add: LF_def strn_isprint_def g_ascii_isprint_def g_ascii_isspace_def byte_of_def)

text \<open>
  the two ways to build a hashed string agree on ASCII text. Above, the signed \<open>gchar\<close>
  is extended in one and not in the other (the byte \<open>0xC3\<close> is enough), so the two keys of one
  string differ and a tree keyed by one does not find the other.
\<close>

theorem hashstr_constructors_agree:
  "(NUL \<notin> set s \<and> (\<forall>c \<in> set s. byte_of c < 128) \<and> length s < 2 ^ 32 \<longrightarrow>
      hashstr_create s = hashstr_create_from_gstring s) \<and>
   hashstr_quick_cmp (hashstr_create [CHR 0xC3]) (hashstr_create_from_gstring [CHR 0xC3]) \<noteq> 0"
proof -
  have "hl_h (hl (hashstr_create [CHR 0xC3])) \<noteq> hl_h (hl (hashstr_create_from_gstring [CHR 0xC3]))"
    by (simp add: hashstr_create_def hashstr_create_from_gstring_def hashstr_create_len_def djb_hash_str_def
        djb_hash_buf_def gchar_to_u32_def guint8_to_u32_def byte_of_def NUL_def Let_def)
  then show ?thesis
    using hashstr_create_nul_free [of s] hash_str_loop_ascii [of s "\<lparr>hl_h = 5381, hl_l = 0\<rparr>"]
    by (auto simp: hashstr_create_from_gstring_def hashstr_create_len_def djb_hash_buf_def djb_hash_str_def
        hashstr_quick_cmp_def Let_def CMP_simps intro!: hashstr.equality hash_len.equality)
qed

theorem hashstr_constructors_agree_witness:
  "hashstr_create ''table'' = hashstr_create_from_gstring ''table''"
  using hashstr_constructors_agree [of "''table''"] by (simp add: NUL_def byte_of_def)

text \<open>
  The branch-free macros compute what their names say on every 32-bit value: \<open>FUNC_CLAMP\<close>
  returns the value of the interval nearest to its argument, \<open>FUNC_MAX\<close>, \<open>FUNC_MIN\<close> and
  \<open>FUNC_COND\<close> the maximum, the minimum and the selected argument.
\<close>

theorem branch_free_correct:
  "(lo \<le> hi \<longrightarrow> lo \<le> FUNC_CLAMP v lo hi \<and> FUNC_CLAMP v lo hi \<le> hi \<and>
      (lo \<le> v \<and> v \<le> hi \<longrightarrow> FUNC_CLAMP v lo hi = v)) \<and>
   FUNC_MAX v w = max v w \<and> FUNC_MIN v w = min v w \<and> FUNC_COND c v w = (if c \<noteq> 0 then v else w)"
  by (simp add: FUNC_CLAMP_def FUNC_MAX_def FUNC_MIN_def FUNC_COND_def macro_eqs Let_def)

theorem branch_free_correct_witness:
  "FUNC_CLAMP 5 7 9 \<le> 9 \<and> 7 \<le> FUNC_CLAMP 5 7 9 \<and> FUNC_CLAMP 8 7 9 = 8"
  using branch_free_correct [of 7 9 5 0 0] branch_free_correct [of 7 9 8 0 0]
  by (simp add: word_le_nat_alt)

end
