(* ===== verification/Version.thy ===== *)
theory Version
  imports Metautils
begin

section \<open>Versions of replicated bases\<close>

text \<open>
  Models \<open>sqliterepo/version.c\<close>. A version is a \<open>GTree\<close> from table names (hashed strings)
  to a counter and a date. Versions are extracted from the \<open>version:\<close> keys of the
  \<open>admin\<close> table, sent to the peers (the BER codec is generated code: a parameter here),
  predicted from a set of changes, and compared. \<open>version_validate_diff\<close> decides what the
  election and the replication do with a peer: nothing, send it a dump, restore from it, or
  refuse concurrent changes.
\<close>

record object_version =
  version :: int
  vwhen :: int

type_synonym versions = "(hashstr, object_version) gtree"

abbreviation vt_lookup :: "versions \<Rightarrow> hashstr \<Rightarrow> object_version option" where
  "vt_lookup \<equiv> g_tree_lookup hashstr_quick_cmp"

abbreviation vt_ok :: "versions \<Rightarrow> bool" where
  "vt_ok \<equiv> gtree_ok hashstr_quick_cmp hashstr_wf"

text \<open>The error codes of \<open>metautils_errors.h\<close> that the comparison raises.\<close>

definition CODE_PIPETO :: gerror where "CODE_PIPETO = 470"

definition CODE_PIPEFROM :: gerror where "CODE_PIPEFROM = 471"

definition CODE_CONCURRENT :: gerror where "CODE_CONCURRENT = 472"

lemmas code_defs = CODE_PIPETO_def CODE_PIPEFROM_def CODE_CONCURRENT_def

subsection \<open>Access\<close>

text \<open>
  \<open>version_get\<close> returns the entry of a key and the tree; with \<open>init\<close>, a missing entry is
  created with the counter 1 (and the date 0 of \<open>g_malloc0\<close>).
\<close>

definition version_get :: "bool \<Rightarrow> versions \<Rightarrow> hashstr \<Rightarrow> object_version option \<times> versions" where
  "version_get init t k =
     (case vt_lookup t k of
        Some ov \<Rightarrow> (Some ov, t)
      | None \<Rightarrow>
          if init then let ov = \<lparr>version = 1, vwhen = 0\<rparr>
                       in (Some ov, g_tree_replace hashstr_quick_cmp t (hashstr_dup k) ov)
          else (None, t))"

text \<open>
  The entry is returned by reference: writing through it updates the tree. This is what \<open>runner_init\<close>,
  \<open>runner_diff\<close> and the loop of \<open>version_extract_effective_diff\<close> do, each with its own assignments \<open>f\<close>.
\<close>

definition version_put :: "versions \<Rightarrow> hashstr \<Rightarrow> (object_version \<Rightarrow> object_version) \<Rightarrow> versions" where
  "version_put t k f =
     (case version_get True t k of
        (Some ov, t') \<Rightarrow> g_tree_insert hashstr_quick_cmp t' k (f ov)
      | (None, t') \<Rightarrow> t')"

text \<open>The key \<open>version_getslen\<close> builds: \<open>%.*s\<close> stops at the length or at a NUL.\<close>

definition version_getslen_key :: "string \<Rightarrow> nat \<Rightarrow> hashstr" where
  "version_getslen_key ks ks_len = hashstr_create_from_gstring (cstr (take ks_len ks))"

definition version_empty :: versions where
  "version_empty = []"

subsection \<open>Extraction from the admin table\<close>

definition hook_extract :: "string \<times> string \<Rightarrow> versions \<Rightarrow> versions" where
  "hook_extract kv v =
     (case kv of (k, data) \<Rightarrow>
        if \<not> has_prefix k ''version:'' then v
        else let buf = cstr data in
             if CHR '':'' \<notin> set buf then v
             else let ov = \<lparr>version = atoi (takeWhile (\<lambda>c. c \<noteq> CHR '':'') buf),
                            vwhen = atoi (tl (dropWhile (\<lambda>c. c \<noteq> CHR '':'') buf))\<rparr>
                  in g_tree_insert hashstr_quick_cmp v (hashstr_create (drop 8 k)) ov)"

definition version_extract_from_admin_tree :: "(string, string) gtree \<Rightarrow> versions" where
  "version_extract_from_admin_tree t = fold hook_extract t version_empty"

subsection \<open>Dump and increment\<close>

definition hook_dump :: "hashstr \<times> object_version \<Rightarrow> string \<Rightarrow> string" where
  "hook_dump kv gstr =
     (case kv of (k, ov) \<Rightarrow>
        if hashstr_len k = 0 \<or> hashstr_str k = [] then gstr
        else (if gstr \<noteq> [] then gstr @ '','' else gstr)
             @ ''('' @ take (hashstr_len k) (hashstr_str k) @ '',''
             @ int_digits (version ov) @ '','' @ int_digits (vwhen ov) @ '')'')"

definition version_dump :: "versions \<Rightarrow> string" where
  "version_dump t = fold hook_dump t []"

definition version_increment_all :: "int \<Rightarrow> versions \<Rightarrow> versions" where
  "version_increment_all now t =
     map (\<lambda>(k, ov). (k, ov\<lparr>version := version ov + 1, vwhen := now\<rparr>)) t"

subsection \<open>Encoding\<close>

text \<open>
  A \<open>TableVersion\<close> of the ASN.1 schema: name, version, date. \<open>der\<close> and \<open>ber\<close> stand for
  \<open>der_encode\<close> and \<open>ber_decode\<close> on \<open>BaseVersion\<close>, code generated from the schema.
\<close>

type_synonym table_version = "string \<times> int \<times> int"

definition version_to_list :: "versions \<Rightarrow> table_version list" where
  "version_to_list t =
     map (\<lambda>(k, ov). (take (hashstr_len k) (s0 k), version ov, vwhen ov))
       (filter (\<lambda>(k, ov). hashstr_len k > 0) t)"

definition version_encode :: "(table_version list \<Rightarrow> string option) \<Rightarrow> versions \<Rightarrow> string option" where
  "version_encode der t = der (version_to_list t)"

definition decode_entry :: "table_version \<Rightarrow> versions \<Rightarrow> versions" where
  "decode_entry tv t =
     (case tv of (name, ver, wh) \<Rightarrow>
        if name = [] then t
        else version_put t (version_getslen_key name (length name))
               (\<lambda>ov. ov\<lparr>version := ver, vwhen := wh\<rparr>))"

definition version_decode :: "(string \<Rightarrow> table_version list option) \<Rightarrow> string \<Rightarrow> versions option" where
  "version_decode ber raw =
     (case ber raw of None \<Rightarrow> None | Some bv \<Rightarrow> Some (fold decode_entry bv version_empty))"

subsection \<open>The version a set of changes leads to\<close>

text \<open>
  The table names of a \<open>TableSequence\<close> are the only part of the changes that counts. The
  test that leaves out the \<open>admin\<close> table compares one byte less than the name has.
\<close>

definition is_admin_table :: "string \<Rightarrow> bool" where
  "is_admin_table name \<longleftrightarrow>
     length name = 10 \<and> take (length name - 1) name = take (length name - 1) ''main.admin''"

definition effective_diff_entry :: "string \<Rightarrow> versions \<Rightarrow> versions" where
  "effective_diff_entry name t =
     (if is_admin_table name then t
      else version_put t (version_getslen_key name (length name)) (\<lambda>ov. ov\<lparr>version := 1\<rparr>))"

definition version_extract_effective_diff :: "string list \<Rightarrow> versions" where
  "version_extract_effective_diff seq = fold effective_diff_entry seq []"

definition apply_runner_init :: "hashstr \<times> object_version \<Rightarrow> versions \<Rightarrow> versions" where
  "apply_runner_init kv result =
     (case kv of (k, v) \<Rightarrow> version_put result k (\<lambda>ov. ov\<lparr>vwhen := vwhen v, version := version v\<rparr>))"

definition apply_runner_diff :: "hashstr \<times> object_version \<Rightarrow> versions \<Rightarrow> versions" where
  "apply_runner_diff kv result =
     (case kv of (k, v) \<Rightarrow>
        version_put result k (\<lambda>ov. ov\<lparr>vwhen := vwhen v, version := version ov + version v\<rparr>))"

definition version_apply_diff :: "versions \<Rightarrow> versions \<Rightarrow> versions" where
  "version_apply_diff src diff = fold apply_runner_diff diff (fold apply_runner_init src [])"

definition version_extract_expected :: "versions \<Rightarrow> string list \<Rightarrow> versions" where
  "version_extract_expected current changes =
     (let effective_diff = version_extract_effective_diff changes
      in version_apply_diff current effective_diff)"

subsection \<open>Comparison\<close>

definition runner_schema :: "versions \<Rightarrow> hashstr \<times> object_version \<Rightarrow> bool \<Rightarrow> bool" where
  "runner_schema u kv schema_change = (case vt_lookup u (fst kv) of None \<Rightarrow> True | Some _ \<Rightarrow> schema_change)"

definition runner_diff :: "versions \<Rightarrow> hashstr \<times> object_version \<Rightarrow> int \<times> int \<Rightarrow> int \<times> int" where
  "runner_diff u kv deltas =
     (case deltas of (delta_max, delta_min) \<Rightarrow>
        case vt_lookup u (fst kv) of
          None \<Rightarrow> (delta_max, delta_min)
        | Some ov \<Rightarrow>
            let d = version (snd kv) - version ov in
            if d < 0 then (delta_max, if d < delta_min then min d delta_min else delta_min)
            else if d > 0 then (if d > delta_max then max d delta_max else delta_max, delta_min)
            else (delta_max, delta_min))"

text \<open>The error, if any, and the value stored through \<open>worst\<close>.\<close>

definition version_validate_diff :: "versions \<Rightarrow> versions \<Rightarrow> gerror option \<times> int" where
  "version_validate_diff current expected =
     (let schema_change = fold (runner_schema current) expected
                            (fold (runner_schema expected) current False);
          (delta_max, delta_min) = fold (runner_diff expected) current (0, 0)
      in if delta_max \<noteq> 0 \<and> delta_min \<noteq> 0 then (Some CODE_CONCURRENT, 0)
         else if delta_min < 0 then
           (if schema_change \<or> delta_min < -1 then Some CODE_PIPEFROM else None, delta_min)
         else if delta_max > 0 then
           (if schema_change \<or> delta_max > 1 then Some CODE_PIPETO else None, delta_max)
         else (None, 0))"

section \<open>Lemmas\<close>

subsection \<open>Writing an entry\<close>

definition entry_or_new :: "object_version option \<Rightarrow> object_version" where
  "entry_or_new x = (case x of None \<Rightarrow> \<lparr>version = 1, vwhen = 0\<rparr> | Some ov \<Rightarrow> ov)"

lemma version_put_ok_map:
  assumes "vt_ok t" and "hashstr_wf k"
  shows "vt_ok (version_put t k f) \<and>
         map_of (version_put t k f) = (map_of t)(k \<mapsto> f (entry_or_new (map_of t k)))"
proof (cases "map_of t k")
  case None
  let ?o = "\<lparr>version = 1, vwhen = 0\<rparr>"
  have l: "vt_lookup t k = None" using None hstr.lookup_map_of [OF assms] by simp
  have r: "g_tree_replace hashstr_quick_cmp t (hashstr_dup k) ?o = g_tree_insert hashstr_quick_cmp t k ?o"
    using assms hashstr_dup_wf hstr.replace_eq_insert by simp
  have ok: "vt_ok (g_tree_insert hashstr_quick_cmp t k ?o)"
    by (rule hstr.ok_insert [OF assms])
  show ?thesis
    using hstr.ok_insert [OF ok assms(2)] hstr.map_of_insert [OF ok assms(2)]
      hstr.map_of_insert [OF assms] l r None
    by (simp add: version_put_def version_get_def Let_def entry_or_new_def)
next
  case (Some ov)
  have l: "vt_lookup t k = Some ov" using Some hstr.lookup_map_of [OF assms] by simp
  show ?thesis
    using hstr.ok_insert [OF assms] hstr.map_of_insert [OF assms] l Some
    by (simp add: version_put_def version_get_def entry_or_new_def)
qed

lemmas version_put_ok = version_put_ok_map [THEN conjunct1]
lemmas map_of_version_put = version_put_ok_map [THEN conjunct2]

subsection \<open>The two traversals of the comparison\<close>

lemma fold_runner_schema:
  "fold (runner_schema u) xs b \<longleftrightarrow> b \<or> (\<exists>k \<in> fst ` set xs. vt_lookup u k = None)"
  by (induction xs arbitrary: b) (auto simp: runner_schema_def split: option.splits)

text \<open>The differences of the tables both sides have.\<close>

definition deltas :: "versions \<Rightarrow> versions \<Rightarrow> int set" where
  "deltas a b = {version v - version w | k v w. map_of a k = Some v \<and> map_of b k = Some w}"

definition list_deltas :: "versions \<Rightarrow> versions \<Rightarrow> int list" where
  "list_deltas u xs =
     map (\<lambda>(k, v). version v - version (the (vt_lookup u k)))
       (filter (\<lambda>(k, v). vt_lookup u k \<noteq> None) xs)"

lemma fold_runner_diff:
  "0 \<le> M \<Longrightarrow> m \<le> 0 \<Longrightarrow>
   fold (runner_diff u) xs (M, m) = (fold max (list_deltas u xs) M, fold min (list_deltas u xs) m)"
proof (induction xs arbitrary: M m)
  case Nil
  then show ?case by (simp add: list_deltas_def)
next
  case (Cons p xs)
  obtain k v where p: "p = (k, v)" by fastforce
  show ?case
  proof (cases "vt_lookup u k")
    case None
    then have "list_deltas u (p # xs) = list_deltas u xs" "runner_diff u p (M, m) = (M, m)"
      by (simp_all add: list_deltas_def runner_diff_def p)
    with Cons show ?thesis by simp
  next
    case (Some w)
    define d where "d = version v - version w"
    have l: "list_deltas u (p # xs) = d # list_deltas u xs"
      using Some by (simp add: list_deltas_def p d_def)
    have "runner_diff u p (M, m) = (max d M, min d m)"
      using Some Cons.prems by (auto simp: runner_diff_def p d_def Let_def)
    with Cons.IH [of "max d M" "min d m"] Cons.prems l show ?thesis by simp
  qed
qed

lemma fold_max_set: "fold max xs (a::int) = Max (insert a (set xs))"
  by (metis Max.set_eq_fold list.set(2))

lemma fold_min_set: "fold min xs (a::int) = Min (insert a (set xs))"
  by (metis Min.set_eq_fold list.set(2))

lemma set_list_deltas:
  assumes "vt_ok a" and "vt_ok b"
  shows "set (list_deltas b a) = deltas a b"
proof -
  have wf: "\<And>k v. (k, v) \<in> set a \<Longrightarrow> hashstr_wf k"
    using assms(1) by (auto simp: gtree_ok_def)
  have m: "\<And>k v. map_of a k = Some v \<longleftrightarrow> (k, v) \<in> set a"
    using hstr.ok_distinct [OF assms(1)] by (metis map_of_SomeD map_of_is_SomeI)
  have l: "\<And>k v. (k, v) \<in> set a \<Longrightarrow> vt_lookup b k = map_of b k"
    using hstr.lookup_map_of [OF assms(2)] wf by blast
  show ?thesis
  proof (intro set_eqI iffI)
    fix d assume "d \<in> set (list_deltas b a)"
    then obtain k v where kv: "(k, v) \<in> set a" "vt_lookup b k \<noteq> None"
      "d = version v - version (the (vt_lookup b k))"
      by (auto simp: list_deltas_def)
    with l obtain w where "map_of b k = Some w" "d = version v - version w" by fastforce
    with kv m show "d \<in> deltas a b" unfolding deltas_def by blast
  next
    fix d assume "d \<in> deltas a b"
    then obtain k v w where "map_of a k = Some v" "map_of b k = Some w" "d = version v - version w"
      unfolding deltas_def by blast
    then have "(k, v) \<in> set a" "vt_lookup b k = Some w" "d = version v - version w"
      using m l by auto
    then show "d \<in> set (list_deltas b a)"
      unfolding list_deltas_def by (force simp: image_iff)
  qed
qed

lemma finite_deltas: "vt_ok a \<Longrightarrow> vt_ok b \<Longrightarrow> finite (deltas a b)"
  using set_list_deltas [of a b] by (metis List.finite_set)

lemma deltas_flip: "deltas b a = uminus ` deltas a b"
  unfolding deltas_def by (auto simp: image_iff) (metis minus_diff_eq)+

lemma schema_iff:
  assumes "vt_ok a" and "vt_ok b"
  shows "fold (runner_schema a) b (fold (runner_schema b) a False) \<longleftrightarrow>
         dom (map_of a) \<noteq> dom (map_of b)"
proof -
  have "\<And>k. k \<in> fst ` set a \<Longrightarrow> vt_lookup b k = map_of b k"
    using assms by (intro hstr.lookup_map_of) (auto simp: gtree_ok_def)
  moreover have "\<And>k. k \<in> fst ` set b \<Longrightarrow> vt_lookup a k = map_of a k"
    using assms by (intro hstr.lookup_map_of) (auto simp: gtree_ok_def)
  moreover have "dom (map_of a) = fst ` set a" "dom (map_of b) = fst ` set b"
    by (simp_all add: dom_map_of_conv_image_fst)
  ultimately show ?thesis
    unfolding fold_runner_schema by (auto simp: map_of_eq_None_iff)
qed

text \<open>
  The comparison in closed form: the largest advance and the largest delay over the common
  tables, and whether the two sides have the same tables.
\<close>

lemma validate_diff_eq:
  assumes "vt_ok a" and "vt_ok b"
  shows "version_validate_diff a b =
    (let sc = (dom (map_of a) \<noteq> dom (map_of b));
         mx = Max (insert 0 (deltas a b)); mn = Min (insert 0 (deltas a b))
     in if mx \<noteq> 0 \<and> mn \<noteq> 0 then (Some CODE_CONCURRENT, 0)
        else if mn < 0 then (if sc \<or> mn < -1 then Some CODE_PIPEFROM else None, mn)
        else if mx > 0 then (if sc \<or> mx > 1 then Some CODE_PIPETO else None, mx)
        else (None, 0))"
proof -
  have "fold (runner_diff b) a (0, 0) = (Max (insert 0 (deltas a b)), Min (insert 0 (deltas a b)))"
    by (simp add: fold_runner_diff fold_max_set fold_min_set set_list_deltas [OF assms])
  then show ?thesis
    unfolding version_validate_diff_def schema_iff [OF assms] Let_def by simp
qed

subsection \<open>Predicting the next version\<close>

lemma fold_version_put:
  assumes "distinct (map fst xs)" and "\<forall>k \<in> fst ` set xs. hashstr_wf k" and "vt_ok t"
  shows "vt_ok (fold (\<lambda>(k, v) t. version_put t k (F v)) xs t) \<and>
         map_of (fold (\<lambda>(k, v) t. version_put t k (F v)) xs t) =
           (\<lambda>k. case map_of xs k of None \<Rightarrow> map_of t k
                | Some v \<Rightarrow> Some (F v (entry_or_new (map_of t k))))"
  using assms
proof (induction xs arbitrary: t)
  case Nil
  then show ?case by simp
next
  case (Cons p xs)
  obtain k v where p: "p = (k, v)" by fastforce
  let ?t = "version_put t k (F v)"
  have wf: "hashstr_wf k" using Cons.prems p by simp
  have ok: "vt_ok ?t" and m: "map_of ?t = (map_of t)(k \<mapsto> F v (entry_or_new (map_of t k)))"
    using version_put_ok_map [OF Cons.prems(3) wf] by auto
  have "map_of xs k = None" using Cons.prems(1) p by (simp add: map_of_eq_None_iff)
  then show ?case
    using Cons.IH [OF _ _ ok] Cons.prems p m by (auto split: option.splits)
qed

lemma fold_apply_runner_init:
  "fold apply_runner_init xs t =
   fold (\<lambda>(k, v) t. version_put t k (\<lambda>ov. ov\<lparr>vwhen := vwhen v, version := version v\<rparr>)) xs t"
  by (rule fold_cong) (auto simp: apply_runner_init_def)

lemma fold_apply_runner_diff:
  "fold apply_runner_diff xs t =
   fold (\<lambda>(k, v) t. version_put t k
           (\<lambda>ov. ov\<lparr>vwhen := vwhen v, version := version ov + version v\<rparr>)) xs t"
  by (rule fold_cong) (auto simp: apply_runner_diff_def)

lemma apply_init_map:
  assumes "vt_ok src"
  shows "vt_ok (fold apply_runner_init src []) \<and> map_of (fold apply_runner_init src []) = map_of src"
proof -
  have d: "distinct (map fst src)" using hstr.ok_distinct [OF assms] .
  have w: "\<forall>k \<in> fst ` set src. hashstr_wf k" using assms by (auto simp: gtree_ok_def)
  show ?thesis
    unfolding fold_apply_runner_init
    using fold_version_put [OF d w hstr.ok_Nil,
        where F = "\<lambda>v ov. ov\<lparr>vwhen := vwhen v, version := version v\<rparr>"]
    by (simp add: fun_eq_iff split: option.splits)
qed

lemma version_apply_diff_map:
  assumes "vt_ok src" and "vt_ok diff"
  shows "vt_ok (version_apply_diff src diff) \<and>
         map_of (version_apply_diff src diff) =
           (\<lambda>k. case map_of diff k of None \<Rightarrow> map_of src k
                | Some v \<Rightarrow> Some \<lparr>version = version (entry_or_new (map_of src k)) + version v,
                                  vwhen = vwhen v\<rparr>)"
proof -
  have d: "distinct (map fst diff)" using hstr.ok_distinct [OF assms(2)] .
  have w: "\<forall>k \<in> fst ` set diff. hashstr_wf k" using assms(2) by (auto simp: gtree_ok_def)
  note i = apply_init_map [OF assms(1)]
  have "vt_ok (version_apply_diff src diff) \<and>
        map_of (version_apply_diff src diff) =
          (\<lambda>k. case map_of diff k of None \<Rightarrow> map_of src k
               | Some v \<Rightarrow> Some ((entry_or_new (map_of src k))
                             \<lparr>vwhen := vwhen v,
                              version := version (entry_or_new (map_of src k)) + version v\<rparr>))"
    unfolding version_apply_diff_def fold_apply_runner_diff
    using fold_version_put [OF d w conjunct1 [OF i],
        where F = "\<lambda>v ov. ov\<lparr>vwhen := vwhen v, version := version ov + version v\<rparr>"]
    by (simp only: conjunct2 [OF i] simp_thms)
  then show ?thesis by (auto simp: fun_eq_iff split: option.splits)
qed

text \<open>The keys of the tables a set of changes counts for.\<close>

definition changed_keys :: "string list \<Rightarrow> hashstr set" where
  "changed_keys seq =
     (\<lambda>n. version_getslen_key n (length n)) ` {n \<in> set seq. \<not> is_admin_table n}"

lemma getslen_key_wf: "length n < 2 ^ 32 \<Longrightarrow> hashstr_wf (version_getslen_key n (length n))"
proof -
  assume "length n < 2 ^ 32"
  moreover have "length (cstr n) \<le> length n"
    unfolding cstr_def by (rule length_takeWhile_le)
  ultimately show ?thesis
    unfolding version_getslen_key_def
    by (intro hashstr_create_len_wf) (auto simp: cstr_no_nul)
qed

lemma effective_diff_fold:
  assumes "\<forall>n \<in> set seq. length n < 2 ^ 32" and "vt_ok t"
    and "\<forall>k v. map_of t k = Some v \<longrightarrow> v = \<lparr>version = 1, vwhen = 0\<rparr>"
  shows "vt_ok (fold effective_diff_entry seq t) \<and>
         map_of (fold effective_diff_entry seq t) =
           (\<lambda>k. if k \<in> changed_keys seq then Some \<lparr>version = 1, vwhen = 0\<rparr> else map_of t k)"
  using assms
proof (induction seq arbitrary: t)
  case Nil
  then show ?case by (simp add: changed_keys_def)
next
  case (Cons n seq)
  show ?case
  proof (cases "is_admin_table n")
    case True
    then have "changed_keys (n # seq) = changed_keys seq"
      by (auto simp: changed_keys_def)
    with True Cons show ?thesis by (simp add: effective_diff_entry_def)
  next
    case False
    let ?k = "version_getslen_key n (length n)"
    let ?t = "version_put t ?k (\<lambda>ov. ov\<lparr>version := 1\<rparr>)"
    have wf: "hashstr_wf ?k" using Cons.prems(1) by (intro getslen_key_wf) simp
    have one: "(entry_or_new (map_of t ?k))\<lparr>version := 1\<rparr> = \<lparr>version = 1, vwhen = 0\<rparr>"
    proof (cases "map_of t ?k")
      case (Some x)
      then have "x = \<lparr>version = 1, vwhen = 0\<rparr>" using Cons.prems(3) by blast
      with Some show ?thesis by (simp add: entry_or_new_def)
    qed (simp add: entry_or_new_def)
    have ok: "vt_ok ?t" and m: "map_of ?t = (map_of t)(?k \<mapsto> \<lparr>version = 1, vwhen = 0\<rparr>)"
      using version_put_ok_map [OF Cons.prems(2) wf] one by auto
    have ck: "changed_keys (n # seq) = insert ?k (changed_keys seq)"
      using False by (auto simp: changed_keys_def)
    have "\<forall>k v. map_of ?t k = Some v \<longrightarrow> v = \<lparr>version = 1, vwhen = 0\<rparr>"
      using Cons.prems(3) m by auto
    then show ?thesis
      using Cons.IH [OF _ ok] Cons.prems(1) False m ck
      by (auto simp: effective_diff_entry_def fun_eq_iff)
  qed
qed

lemma version_extract_expected_map:
  assumes "vt_ok cur" and "\<forall>n \<in> set changes. length n < 2 ^ 32"
  shows "vt_ok (version_extract_expected cur changes) \<and>
         map_of (version_extract_expected cur changes) =
           (\<lambda>k. if k \<in> changed_keys changes
                then Some \<lparr>version = version (entry_or_new (map_of cur k)) + 1, vwhen = 0\<rparr>
                else map_of cur k)"
proof -
  have e: "vt_ok (version_extract_effective_diff changes) \<and>
      map_of (version_extract_effective_diff changes) =
        (\<lambda>k. if k \<in> changed_keys changes then Some \<lparr>version = 1, vwhen = 0\<rparr> else None)"
    using effective_diff_fold [OF assms(2) hstr.ok_Nil]
    by (simp add: version_extract_effective_diff_def fun_eq_iff)
  show ?thesis
    unfolding version_extract_expected_def Let_def
    using version_apply_diff_map [OF assms(1) conjunct1 [OF e]] e by auto
qed

subsection \<open>Decoding what was encoded\<close>

text \<open>
  A key of the wire: the name is not empty, holds ASCII bytes, and the key is what
  \<open>hashstr_create\<close> makes of it.
\<close>

definition wire_key :: "hashstr \<Rightarrow> bool" where
  "wire_key k \<longleftrightarrow>
     hashstr_wf k \<and> s0 k \<noteq> [] \<and> (\<forall>c \<in> set (s0 k). byte_of c < 128) \<and> k = hashstr_create (s0 k)"

lemma wire_keyD:
  assumes "wire_key k"
  shows "s0 k \<noteq> []" "NUL \<notin> set (s0 k)" "length (s0 k) < 2 ^ 32"
    "\<forall>c \<in> set (s0 k). byte_of c < 128" "hashstr_create (s0 k) = k" "hashstr_wf k"
  using assms unfolding wire_key_def hashstr_wf_def by metis+

lemma wire_key_len: "wire_key k \<Longrightarrow> hashstr_len k = length (s0 k)"
  using wire_keyD(6) [of k] by (simp add: hashstr_wf_def hashstr_len_def unat_of_nat)

lemma wire_key_getslen: "wire_key k \<Longrightarrow> version_getslen_key (s0 k) (length (s0 k)) = k"
proof -
  assume w: "wire_key k"
  note n = wire_keyD(2,3) [OF w]
  have "hl_h (hl (hashstr_create (s0 k))) = djb_hash_buf3 5381 (s0 k)"
    unfolding hashstr_create_nul_free(3) [OF n] djb_hash_str_def
    by (simp add: hash_str_loop_ascii [OF n(1) wire_keyD(4) [OF w]])
  then have h: "hl_h (hl k) = djb_hash_buf (s0 k)"
    by (simp only: wire_keyD(5) [OF w] djb_hash_buf_def)
  have "hashstr_wf (version_getslen_key (s0 k) (length (s0 k)))" using n by (intro getslen_key_wf)
  moreover have "s0 (version_getslen_key (s0 k) (length (s0 k))) = s0 k"
    "hl_h (hl (version_getslen_key (s0 k) (length (s0 k)))) = djb_hash_buf (s0 k)"
    using n by (simp_all add: version_getslen_key_def hashstr_create_from_gstring_def
        hashstr_create_len_def)
  ultimately show ?thesis using h wire_keyD(6) [OF w] by (intro hashstr_eqI) simp_all
qed

lemma decode_entry_wire:
  "wire_key k \<Longrightarrow>
   decode_entry (take (hashstr_len k) (s0 k), version ov, vwhen ov) t =
   version_put t k (\<lambda>old. old\<lparr>version := version (ov :: object_version), vwhen := vwhen ov\<rparr>)"
  using wire_key_getslen [of k] wire_key_len [of k] wire_keyD(1) [of k] by (simp add: decode_entry_def)

lemma fold_decode_entry:
  "\<forall>k \<in> fst ` set xs. wire_key k \<Longrightarrow>
   fold decode_entry (version_to_list xs) t =
   fold (\<lambda>(k, ov) t. version_put t k (\<lambda>old. old\<lparr>version := version ov, vwhen := vwhen ov\<rparr>)) xs t"
proof (induction xs arbitrary: t)
  case Nil
  then show ?case by (simp add: version_to_list_def)
next
  case (Cons p xs)
  obtain k ov where p: "p = (k, ov)" by fastforce
  have w: "wire_key k" using Cons.prems p by simp
  then have "hashstr_len k > 0" using wire_key_len [of k] wire_keyD(1) by simp
  then have "version_to_list (p # xs) =
      (take (hashstr_len k) (s0 k), version ov, vwhen ov) # version_to_list xs"
    by (simp add: version_to_list_def p)
  then show ?case using Cons decode_entry_wire [OF w] p by simp
qed

lemma decode_list_inverse:
  assumes "vt_ok t" and "\<forall>k \<in> fst ` set t. wire_key k"
  shows "fold decode_entry (version_to_list t) version_empty = t"
proof -
  have d: "distinct (map fst t)" using hstr.ok_distinct [OF assms(1)] .
  have w: "\<forall>k \<in> fst ` set t. hashstr_wf k" using assms(1) by (auto simp: gtree_ok_def)
  let ?r = "fold decode_entry (version_to_list t) version_empty"
  have "vt_ok ?r \<and> map_of ?r = map_of t"
    unfolding fold_decode_entry [OF assms(2)] version_empty_def
    using fold_version_put [OF d w hstr.ok_Nil,
        where F = "\<lambda>ov old. old\<lparr>version := version ov, vwhen := vwhen ov\<rparr>"]
    by (simp add: fun_eq_iff split: option.splits)
  then show ?thesis using hstr.ok_unique assms(1) by blast
qed

section \<open>Properties\<close>

text \<open>The answer seen from the other side: send and restore are exchanged.\<close>

definition swap_pipe :: "gerror \<Rightarrow> gerror" where
  "swap_pipe c = (if c = CODE_PIPETO then CODE_PIPEFROM else if c = CODE_PIPEFROM then CODE_PIPETO else c)"

lemma Max_uminus: "finite D \<Longrightarrow> Max (insert 0 (uminus ` D)) = - Min (insert (0::int) D)"
proof -
  assume f: "finite D"
  have "insert 0 (uminus ` D) = uminus ` insert (0::int) D" by simp
  then show ?thesis
    using minus_Min_eq_Max [of "insert 0 D"] f by simp
qed

lemma Min_uminus: "finite D \<Longrightarrow> Min (insert 0 (uminus ` D)) = - Max (insert (0::int) D)"
proof -
  assume f: "finite D"
  have "insert 0 (uminus ` D) = uminus ` insert (0::int) D" by simp
  then show ?thesis
    using minus_Max_eq_Min [of "insert 0 D"] f by simp
qed

text \<open>
  comparing two versions from either side gives mirrored answers. When one replica is
  told to restore from the other, the other is told to send its copy, concurrent changes are
  concurrent for both, agreement is mutual, and the worst difference changes its sign.
\<close>

theorem validate_diff_antisym:
  assumes "vt_ok a" and "vt_ok b"
  shows "version_validate_diff b a =
    (map_option swap_pipe (fst (version_validate_diff a b)), - snd (version_validate_diff a b))"
proof -
  have f: "finite (deltas a b)" by (rule finite_deltas [OF assms])
  let ?mx = "Max (insert 0 (deltas a b))" and ?mn = "Min (insert 0 (deltas a b))"
  have mx: "Max (insert 0 (deltas b a)) = - ?mn" and mn: "Min (insert 0 (deltas b a)) = - ?mx"
    unfolding deltas_flip [of b a] using Max_uminus [OF f] Min_uminus [OF f] by simp_all
  have "0 \<le> ?mx" "?mn \<le> 0" using f by simp_all
  then show ?thesis
    unfolding validate_diff_eq [OF assms] validate_diff_eq [OF assms(2,1)] Let_def mx mn
    by (auto simp: swap_pipe_def code_defs)
qed

theorem validate_diff_antisym_witness:
  "vt_ok [(hashstr_create ''t'', \<lparr>version = 1, vwhen = 0\<rparr>)] \<and>
   vt_ok [(hashstr_create ''t'', \<lparr>version = 3, vwhen = 0\<rparr>)] \<and>
   version_validate_diff [(hashstr_create ''t'', \<lparr>version = 3, vwhen = 0\<rparr>)]
     [(hashstr_create ''t'', \<lparr>version = 1, vwhen = 0\<rparr>)] = (Some CODE_PIPETO, 2)"
proof -
  have wf: "hashstr_wf (hashstr_create ''t'')"
    by (rule hashstr_create_wf) (simp_all add: NUL_def)
  then have ok: "\<And>v. vt_ok [(hashstr_create ''t'', v)]" by (simp add: hstr.ok_Cons hstr.ok_Nil)
  have z: "hashstr_quick_cmp (hashstr_create ''t'') (hashstr_create ''t'') = 0"
    using quick_cmp_zero [OF wf wf] by simp
  have "version_validate_diff [(hashstr_create ''t'', \<lparr>version = 1, vwhen = 0\<rparr>)]
      [(hashstr_create ''t'', \<lparr>version = 3, vwhen = 0\<rparr>)] = (Some CODE_PIPEFROM, -2)"
    by (simp add: version_validate_diff_def runner_schema_def runner_diff_def z)
  then show ?thesis
    using validate_diff_antisym [OF ok [of "\<lparr>version = 1, vwhen = 0\<rparr>"] ok [of "\<lparr>version = 3, vwhen = 0\<rparr>"]] ok
    by (simp add: swap_pipe_def code_defs)
qed

lemma Max_insert0: "finite D \<Longrightarrow> (Max (insert (0::int) D) \<noteq> 0 \<longleftrightarrow> (\<exists>d \<in> D. 0 < d)) \<and>
    (c \<ge> 0 \<longrightarrow> (c < Max (insert 0 D) \<longleftrightarrow> (\<exists>d \<in> D. c < d)))"
proof -
  assume f: "finite D"
  have g: "\<And>c. c \<ge> 0 \<Longrightarrow> c < Max (insert 0 D) \<longleftrightarrow> (\<exists>d \<in> D. c < d)"
    using f by (subst Max_gr_iff) auto
  have "0 \<le> Max (insert 0 D)" using f by simp
  then have "Max (insert 0 D) \<noteq> 0 \<longleftrightarrow> 0 < Max (insert 0 D)" by auto
  with g [of 0] g show ?thesis by simp
qed

lemma Min_insert0: "finite D \<Longrightarrow> (Min (insert (0::int) D) \<noteq> 0 \<longleftrightarrow> (\<exists>d \<in> D. d < 0)) \<and>
    (c \<le> 0 \<longrightarrow> (Min (insert 0 D) < c \<longleftrightarrow> (\<exists>d \<in> D. d < c)))"
proof -
  assume f: "finite D"
  have g: "\<And>c. c \<le> 0 \<Longrightarrow> Min (insert 0 D) < c \<longleftrightarrow> (\<exists>d \<in> D. d < c)"
    using f by (subst Min_less_iff) auto
  have "Min (insert 0 D) \<le> 0" using f by simp
  then have "Min (insert 0 D) \<noteq> 0 \<longleftrightarrow> Min (insert 0 D) < 0" by auto
  with g [of 0] g show ?thesis by simp
qed

lemma validate_diff_cases:
  assumes "vt_ok a" and "vt_ok b"
  shows "fst (version_validate_diff a b) = Some CODE_CONCURRENT \<longleftrightarrow>
           (\<exists>d \<in> deltas a b. 0 < d) \<and> (\<exists>d \<in> deltas a b. d < 0)"
    and "fst (version_validate_diff a b) = Some CODE_PIPEFROM \<longleftrightarrow>
           (\<exists>d \<in> deltas a b. d < 0) \<and> \<not> (\<exists>d \<in> deltas a b. 0 < d) \<and>
           (dom (map_of a) \<noteq> dom (map_of b) \<or> (\<exists>d \<in> deltas a b. d < -1))"
    and "fst (version_validate_diff a b) = Some CODE_PIPETO \<longleftrightarrow>
           (\<exists>d \<in> deltas a b. 0 < d) \<and> \<not> (\<exists>d \<in> deltas a b. d < 0) \<and>
           (dom (map_of a) \<noteq> dom (map_of b) \<or> (\<exists>d \<in> deltas a b. 1 < d))"
    and "version_validate_diff a b = (None, 0) \<longleftrightarrow> (\<forall>d \<in> deltas a b. d = 0)"
proof -
  let ?D = "deltas a b"
  have f: "finite ?D" by (rule finite_deltas [OF assms])
  let ?mx = "Max (insert 0 ?D)" and ?mn = "Min (insert 0 ?D)"
  have mx: "?mx \<noteq> 0 \<longleftrightarrow> (\<exists>d \<in> ?D. 0 < d)" "0 < ?mx \<longleftrightarrow> (\<exists>d \<in> ?D. 0 < d)" "1 < ?mx \<longleftrightarrow> (\<exists>d \<in> ?D. 1 < d)"
    using Max_insert0 [OF f, of 0] Max_insert0 [OF f, of 1] by auto
  have mn: "?mn \<noteq> 0 \<longleftrightarrow> (\<exists>d \<in> ?D. d < 0)" "?mn < 0 \<longleftrightarrow> (\<exists>d \<in> ?D. d < 0)" "?mn < -1 \<longleftrightarrow> (\<exists>d \<in> ?D. d < -1)"
    using Min_insert0 [OF f, of 0] Min_insert0 [OF f, of "-1"] by auto
  have z: "(\<forall>d \<in> ?D. d = 0) \<longleftrightarrow> \<not> (\<exists>d \<in> ?D. 0 < d) \<and> \<not> (\<exists>d \<in> ?D. d < 0)"
    by (metis less_irrefl linorder_neqE)
  note eq = validate_diff_eq [OF assms, unfolded Let_def]
  show "fst (version_validate_diff a b) = Some CODE_CONCURRENT \<longleftrightarrow>
           (\<exists>d \<in> ?D. 0 < d) \<and> (\<exists>d \<in> ?D. d < 0)"
    unfolding eq mx(1) mn(1) by (auto simp: code_defs)
  show "fst (version_validate_diff a b) = Some CODE_PIPEFROM \<longleftrightarrow>
           (\<exists>d \<in> ?D. d < 0) \<and> \<not> (\<exists>d \<in> ?D. 0 < d) \<and>
           (dom (map_of a) \<noteq> dom (map_of b) \<or> (\<exists>d \<in> ?D. d < -1))"
    unfolding eq mx(1) mn mx(2) by (simp add: code_defs)
  show "fst (version_validate_diff a b) = Some CODE_PIPETO \<longleftrightarrow>
           (\<exists>d \<in> ?D. 0 < d) \<and> \<not> (\<exists>d \<in> ?D. d < 0) \<and>
           (dom (map_of a) \<noteq> dom (map_of b) \<or> (\<exists>d \<in> ?D. 1 < d))"
    unfolding eq mx mn(1,2) by (simp add: code_defs)
  show "version_validate_diff a b = (None, 0) \<longleftrightarrow> (\<forall>d \<in> ?D. d = 0)"
  proof -
    have "version_validate_diff a b = (None, 0) \<longleftrightarrow> \<not> 0 < ?mx \<and> \<not> ?mn < 0"
      unfolding eq using mx(1,2) mn(1,2) by (auto split: if_splits)
    then show ?thesis unfolding mx(2) mn(2) z .
  qed
qed


text \<open>One table named \<open>t\<close>, for the concrete instances.\<close>

definition one_table :: "int \<Rightarrow> versions" where
  "one_table n = [(hashstr_create ''t'', \<lparr>version = n, vwhen = 0\<rparr>)]"

lemma key_t_wf: "hashstr_wf (hashstr_create ''t'')"
  by (rule hashstr_create_wf) (simp_all add: NUL_def)

lemma one_table_ok: "vt_ok (one_table n)"
  using key_t_wf by (simp add: one_table_def hstr.ok_Cons hstr.ok_Nil)

lemma key_t_self: "hashstr_quick_cmp (hashstr_create ''t'') (hashstr_create ''t'') = 0"
  using quick_cmp_zero [OF key_t_wf key_t_wf] by simp

lemma validate_one_table:
  "version_validate_diff (one_table m) (one_table n) =
     (if m - n < -1 then Some CODE_PIPEFROM else if 1 < m - n then Some CODE_PIPETO else None, m - n)"
  by (auto simp: one_table_def version_validate_diff_def runner_schema_def runner_diff_def key_t_self
      Let_def)


text \<open>
  C25: the check a replica runs after it applied a transaction of its master
  (\<open>version_validate_diff (postvers, version_extract_expected (oldvers, seq))\<close>), over the tables of
  the replica after the transaction. The check passes with no difference exactly when, of
  these tables, each one the transaction changed has its counter raised by one (by one over the
  initial 1 for a table that was not there) and each other one the replica had before has its old
  counter. The check says nothing of a table missing on either side: a new table that the transaction
  did not change is accepted with any counter, and a replica accepted stays accepted
  when any of its tables are lost, those the transaction changed included.
\<close>

theorem replica_accepts_iff:
  assumes "vt_ok old" and "vt_ok post" and "\<forall>n \<in> set changes. length n < 2 ^ 32"
  shows "(version_validate_diff post (version_extract_expected old changes) = (None, 0) \<longleftrightarrow>
      (\<forall>k v. map_of post k = Some v \<longrightarrow>
         (if k \<in> changed_keys changes then version v = version (entry_or_new (map_of old k)) + 1
          else \<forall>w. map_of old k = Some w \<longrightarrow> version v = version w))) \<and>
    (version_validate_diff post (version_extract_expected old changes) = (None, 0) \<longrightarrow>
      (\<forall>P. version_validate_diff (filter P post) (version_extract_expected old changes) = (None, 0)))"
proof -
  let ?e = "version_extract_expected old changes"
  have ok: "vt_ok ?e" and m: "map_of ?e = (\<lambda>k. if k \<in> changed_keys changes
      then Some \<lparr>version = version (entry_or_new (map_of old k)) + 1, vwhen = 0\<rparr> else map_of old k)"
    using version_extract_expected_map [OF assms(1,3)] by auto
  have acc: "version_validate_diff t ?e = (None, 0) \<longleftrightarrow>
      (\<forall>k v w. map_of t k = Some v \<longrightarrow> map_of ?e k = Some w \<longrightarrow> version v = version w)" if "vt_ok t" for t
    unfolding validate_diff_cases(4) [OF that ok] deltas_def by force
  have iff: "version_validate_diff post ?e = (None, 0) \<longleftrightarrow> (\<forall>k v. map_of post k = Some v \<longrightarrow>
       (if k \<in> changed_keys changes then version v = version (entry_or_new (map_of old k)) + 1
        else \<forall>w. map_of old k = Some w \<longrightarrow> version v = version w))"
    unfolding acc [OF assms(2)] m by auto
  have "version_validate_diff (filter P post) ?e = (None, 0)" if h: "version_validate_diff post ?e = (None, 0)" for P
  proof -
    have "map_of post k = Some v" if "map_of (filter P post) k = Some v" for k v
      using map_of_SomeD [OF that] hstr.ok_distinct [OF assms(2)] by simp
    then show ?thesis using h unfolding acc [OF assms(2)] acc [OF gtree_ok_filter [OF assms(2)]] by blast
  qed
  then show ?thesis using iff by blast
qed

lemma key_t_wire: "wire_key (hashstr_create ''t'')" and key_t_str: "s0 (hashstr_create ''t'') = ''t''"
proof -
  show s: "s0 (hashstr_create ''t'') = ''t''"
    by (rule hashstr_create_nul_free(1)) (simp_all add: NUL_def)
  show "wire_key (hashstr_create ''t'')"
    using key_t_wf s by (simp add: wire_key_def byte_of_def)
qed

lemma key_t_getslen: "version_getslen_key ''t'' (Suc 0) = hashstr_create ''t''"
  using wire_key_getslen [OF key_t_wire] key_t_str by simp

theorem replica_accepts_iff_witness:
  "vt_ok (one_table 4) \<and> vt_ok (one_table 5) \<and>
   version_validate_diff (one_table 5) (version_extract_expected (one_table 4) [''t'']) = (None, 0) \<and>
   version_validate_diff [] (version_extract_expected (one_table 4) [''t'']) = (None, 0)"
proof -
  have "changed_keys [''t''] = {hashstr_create ''t''}"
    using key_t_getslen by (force simp: changed_keys_def is_admin_table_def)
  then have acc: "version_validate_diff (one_table 5) (version_extract_expected (one_table 4) [''t'']) = (None, 0)"
    using replica_accepts_iff [OF one_table_ok [of 4] one_table_ok [of 5], of "[''t'']"]
    by (simp add: one_table_def entry_or_new_def)
  moreover have "\<forall>n \<in> set [''t'']. length n < 2 ^ 32" by simp
  ultimately have "version_validate_diff (filter (\<lambda>_. False) (one_table 5)) (version_extract_expected (one_table 4) [''t'']) = (None, 0)"
    using replica_accepts_iff [OF one_table_ok [of 4] one_table_ok [of 5], of "[''t'']"] by blast
  then show ?thesis using one_table_ok acc by simp
qed

text \<open>
  C26: a version survives the wire. Whenever the BER codec inverts the DER codec, decoding the
  encoding of a version whose table names are ASCII gives the same version.
\<close>

theorem version_decode_encode:
  assumes codec: "\<And>l bs. der l = Some bs \<Longrightarrow> ber bs = Some l"
    and "vt_ok t" and "\<forall>k \<in> fst ` set t. wire_key k" and "version_encode der t = Some raw"
  shows "version_decode ber raw = Some t"
  using codec [OF assms(4) [unfolded version_encode_def]] decode_list_inverse [OF assms(2,3)]
  by (simp add: version_decode_def)

theorem version_decode_encode_witness:
  "(let der = (\<lambda>l. if l = [(''t'', 7, 0)] then Some ''x'' else None);
        ber = (\<lambda>bs. if bs = ''x'' then Some [(''t'', 7, 0)] else None)
    in version_encode der (one_table 7) = Some ''x'' \<and>
       version_decode ber ''x'' = Some (one_table 7))"
proof -
  define der :: "table_version list \<Rightarrow> string option"
    where "der l = (if l = [(''t'', 7, 0)] then Some ''x'' else None)" for l
  define ber :: "string \<Rightarrow> table_version list option"
    where "ber bs = (if bs = ''x'' then Some [(''t'', 7, 0)] else None)" for bs
  have "version_to_list (one_table 7) = [(''t'', 7, 0)]"
    using wire_key_len [OF key_t_wire] key_t_str by (simp add: version_to_list_def one_table_def)
  then have e: "version_encode der (one_table 7) = Some ''x''"
    by (simp add: version_encode_def der_def)
  have c: "\<And>l bs. der l = Some bs \<Longrightarrow> ber bs = Some l"
    by (auto simp: der_def ber_def split: if_splits)
  have "\<forall>k \<in> fst ` set (one_table 7). wire_key k" using key_t_wire by (simp add: one_table_def)
  with version_decode_encode [of der ber, OF c one_table_ok _ e] e
  have "version_encode der (one_table 7) = Some ''x'' \<and> version_decode ber ''x'' = Some (one_table 7)"
    by blast
  then show ?thesis unfolding Let_def der_def [abs_def] ber_def [abs_def] .
qed

end
