(* ===== verification/Synchro.thy ===== *)
theory Synchro
  imports Metautils
begin

section \<open>The ZooKeeper front-end\<close>

text \<open>
  Models \<open>sqliterepo/synchro.c\<close> and \<open>sqliterepo/hash.c\<close>: where the node of an election
  lives in the ZooKeeper tree, and which request every operation hands to the ZooKeeper
  client. The client library itself (\<open>zoo_acreate\<close> and the others) is not part of the
  sources: an operation is modelled by the request it makes, and the component that makes it
  takes the return code from a parameter. The SHA-256 of GLib is the parameter
  \<open>sha256_hex\<close> of \<open>sqliterepo_hash_name\<close>.
\<close>

record sqlx_sync =
  zk_prefix :: string
  zk_url :: string
  zh :: bool  \<comment> \<open>the connection is there\<close>
  hash_width :: nat
  hash_depth :: nat

definition sqlx_sync_create :: "string \<Rightarrow> sqlx_sync" where
  "sqlx_sync_create url =
     \<lparr>zk_prefix = ''/NOTSET'', zk_url = url, zh = False, hash_width = 0, hash_depth = 0\<rparr>"

definition sqlx_sync_set_prefix :: "sqlx_sync \<Rightarrow> string \<Rightarrow> sqlx_sync" where
  "sqlx_sync_set_prefix ss prefix = ss\<lparr>zk_prefix := prefix\<rparr>"

definition CLAMP :: "nat \<Rightarrow> nat \<Rightarrow> nat \<Rightarrow> nat" where
  "CLAMP x low high = (if x > high then high else if x < low then low else x)"

definition sqlx_sync_set_hash :: "sqlx_sync \<Rightarrow> nat \<Rightarrow> nat \<Rightarrow> sqlx_sync" where
  "sqlx_sync_set_hash ss w d = ss\<lparr>hash_width := CLAMP w 1 3, hash_depth := min d 2\<rparr>"

text \<open>\<open>init_ok\<close> tells whether \<open>zookeeper_init\<close> returned a handle.\<close>

definition sync_open :: "bool \<Rightarrow> sqlx_sync \<Rightarrow> gerror option \<times> sqlx_sync" where
  "sync_open init_ok ss =
     (if zh ss then (Some 500, ss)
      else if \<not> init_ok then (Some 500, ss\<lparr>zh := False\<rparr>)
      else (None, ss\<lparr>zh := True\<rparr>))"

definition sync_close :: "sqlx_sync \<Rightarrow> sqlx_sync" where
  "sync_close ss = (if zh ss then ss\<lparr>zh := False\<rparr> else ss)"

definition SEP :: string where
  "SEP = ''/''"

definition realpath :: "sqlx_sync \<Rightarrow> string \<Rightarrow> string" where
  "realpath ss path =
     (if hash_depth ss = 0 then zk_prefix ss @ SEP @ path
      else if hash_depth ss = 1 then
        let w = CLAMP (hash_width ss) 1 3
        in zk_prefix ss @ SEP @ take w path @ SEP @ path
      else
        let w = CLAMP (hash_width ss) 1 2
        in zk_prefix ss @ SEP @ take w path @ SEP @ take w (drop w path) @ SEP @ path)"

definition realdirname :: "sqlx_sync \<Rightarrow> string \<Rightarrow> string" where
  "realdirname ss path =
     (if hash_depth ss = 0 then zk_prefix ss
      else if hash_depth ss = 1 then
        let w = CLAMP (hash_width ss) 1 3
        in zk_prefix ss @ SEP @ take w path
      else
        let w = CLAMP (hash_width ss) 1 2
        in zk_prefix ss @ SEP @ take w path @ SEP @ take w (drop w path))"

text \<open>
  The requests the ZooKeeper client receives: the path, and the value for a creation (always
  ephemeral and sequential in the program). Watchers and completions are the handlers of
  the caller.
\<close>

datatype zk_req =
    ZkCreate string string
  | ZkDelete string
  | ZkExists string
  | ZkGet string
  | ZkChildren string

definition sync_acreate :: "sqlx_sync \<Rightarrow> string \<Rightarrow> string \<Rightarrow> zk_req" where
  "sync_acreate ss path v = ZkCreate (realpath ss path) v"

definition sync_adelete :: "sqlx_sync \<Rightarrow> string \<Rightarrow> zk_req" where
  "sync_adelete ss path = ZkDelete (realpath ss path)"

definition sync_awexists :: "sqlx_sync \<Rightarrow> string \<Rightarrow> zk_req" where
  "sync_awexists ss path = ZkExists (realpath ss path)"

definition sync_awget :: "sqlx_sync \<Rightarrow> string \<Rightarrow> zk_req" where
  "sync_awget ss path = ZkGet (realpath ss path)"

definition sync_awget_children :: "sqlx_sync \<Rightarrow> string \<Rightarrow> zk_req" where
  "sync_awget_children ss path = ZkChildren (realpath ss path)"

definition sync_awget_siblings :: "sqlx_sync \<Rightarrow> string \<Rightarrow> zk_req" where
  "sync_awget_siblings ss path = ZkChildren (realdirname ss path)"

text \<open>
  The key of a base: the hexadecimal SHA-256 of the name, a NUL and the type, in upper case.
  \<open>hashstr_upper\<close> hashes the string again.
\<close>

definition g_ascii_toupper :: "char \<Rightarrow> char" where
  "g_ascii_toupper c = (if 97 \<le> byte_of c \<and> byte_of c \<le> 122 then char_of (byte_of c - 32) else c)"

definition hashstr_upper :: "hashstr \<Rightarrow> hashstr" where
  "hashstr_upper hs = (let s = map g_ascii_toupper (s0 hs) in \<lparr>hl = djb_hash_str s, s0 = s\<rparr>)"

definition sqliterepo_hash_name :: "(string \<Rightarrow> string) \<Rightarrow> string \<Rightarrow> string \<Rightarrow> hashstr" where
  "sqliterepo_hash_name sha256_hex name type =
     hashstr_upper (hashstr_create (sha256_hex (cstr name @ [NUL] @ cstr type)))"

lemma realpath_dirname: "realpath ss path = realdirname ss path @ SEP @ path"
  by (simp add: realpath_def realdirname_def Let_def)

lemma CLAMP_bounds: "lo \<le> hi \<Longrightarrow> lo \<le> CLAMP x lo hi \<and> CLAMP x lo hi \<le> hi"
  by (simp add: CLAMP_def)

lemma realdirname_prefix:
  assumes "4 \<le> length k"
  shows "realdirname ss (k @ s) = realdirname ss k"
proof -
  have "CLAMP (hash_width ss) 1 3 \<le> 3" "CLAMP (hash_width ss) 1 2 \<le> 2"
    by (simp_all add: CLAMP_bounds)
  with assms show ?thesis by (simp add: realdirname_def Let_def)
qed

text \<open>
  all the candidates of one base are siblings. For every hash width and depth, the
  directory a member lists is the parent of the node it creates, and it depends on the
  first four bytes of the key alone: whatever sequence number ZooKeeper appends, every
  member of the election lists the same directory.
\<close>

theorem siblings_share_directory:
  assumes "4 \<le> length k"
  shows "sync_awget_siblings ss (k @ s) = ZkChildren (realdirname ss k) \<and>
         sync_awget_siblings ss (k @ s') = ZkChildren (realdirname ss k) \<and>
         sync_acreate ss (k @ s) v = ZkCreate (realdirname ss k @ ''/'' @ k @ s) v"
  using realdirname_prefix [OF assms]
  by (simp add: sync_awget_siblings_def sync_acreate_def realpath_dirname SEP_def)

theorem siblings_share_directory_witness:
  "sync_awget_siblings (sqlx_sync_set_hash (sqlx_sync_create ''zk'') 2 2) ''ABCDEF-0000000001'' =
     ZkChildren ''/NOTSET/AB/CD'' \<and>
   sync_acreate (sqlx_sync_set_hash (sqlx_sync_create ''zk'') 2 2) ''ABCDEF-'' ''me'' =
     ZkCreate ''/NOTSET/AB/CD/ABCDEF-'' ''me''"
  using siblings_share_directory [of "''ABCDEF''"
      "sqlx_sync_set_hash (sqlx_sync_create ''zk'') 2 2" "''-0000000001''" "''-0000000002''" "''me''"]
    siblings_share_directory [of "''ABCDEF''"
      "sqlx_sync_set_hash (sqlx_sync_create ''zk'') 2 2" "''-''" "''-''" "''me''"]
  by (simp add: realdirname_def sqlx_sync_set_hash_def sqlx_sync_create_def CLAMP_def SEP_def)

end
