(* ===== verification/Election_Model.thy ===== *)
theory Election_Model
  imports Version Synchro
begin

section \<open>The election state machine\<close>

text \<open>
  Models \<open>sqliterepo/election.c\<close> up to \<open>transition_error\<close>: the election member, the
  requests it makes to ZooKeeper and to its peers, the completions and watchers through
  which the answers come back, and the transition function. \<open>estate\<close> is a member with the
  fields of its manager, the number of external calls made so far and the list of the
  actions taken. What the outside answers is the environment \<open>env\<close>: for the \<open>n\<close>-th call, the
  clock, the return code of ZooKeeper, the peers and the local version of the base.
  Every function of the source is a function from \<open>estate\<close> to \<open>estate\<close>. The locks do not
  appear: every handler runs under the manager's mutex, so a run of the program is a
  sequence of handlers.
\<close>

subsection \<open>Types\<close>

datatype election_step =
    STEP_NONE | STEP_CANDREQ | STEP_CANDOK | STEP_LEAVING | STEP_PRELOST | STEP_PRELEAD
  | STEP_LOST | STEP_LEADER | STEP_FAILED

fun step_code :: "election_step \<Rightarrow> int" where
  "step_code STEP_NONE = 0x00"
| "step_code STEP_CANDREQ = 0x01"
| "step_code STEP_CANDOK = 0x02"
| "step_code STEP_LEAVING = 0x03"
| "step_code STEP_PRELOST = 0x04"
| "step_code STEP_PRELEAD = 0x05"
| "step_code STEP_LOST = 0x10"
| "step_code STEP_LEADER = 0x11"
| "step_code STEP_FAILED = 0x12"

definition STATUS_FINAL :: "election_step \<Rightarrow> bool" where
  "STATUS_FINAL e \<longleftrightarrow> step_code e AND 0x10 \<noteq> 0"

datatype event_type =
    EVT_NONE | EVT_DISCONNECTED | EVT_EXITING
  | EVT_GETVERS_OK | EVT_GETVERS_OUTDATED | EVT_GETVERS_CONCURRENT | EVT_GETVERS_ERROR
  | EVT_USE_RES | EVT_CREATE_OK | EVT_CREATE_KO | EVT_NODE_LEFT
  | EVT_MASTER_KO | EVT_MASTER_EMPTY | EVT_MASTER_OK | EVT_MASTER_CHANGE
  | EVT_RESYNC_REQ | EVT_RESYNC_DONE | EVT_LIST_OK | EVT_LIST_KO | EVT_LEAVE_OK | EVT_LEAVE_KO

text \<open>An event with the argument \<open>evt_arg\<close> points to, where the handlers read it.\<close>

datatype event =
    E_NONE | E_DISCONNECTED | E_EXITING
  | E_GETVERS_OK u32 | E_GETVERS_OUTDATED u32 | E_GETVERS_CONCURRENT u32 | E_GETVERS_ERROR u32
  | E_USE_RES u32 | E_CREATE_OK int | E_CREATE_KO | E_NODE_LEFT
  | E_MASTER_KO | E_MASTER_EMPTY | E_MASTER_OK string | E_MASTER_CHANGE
  | E_RESYNC_REQ | E_RESYNC_DONE u32 | E_LIST_OK "int list" | E_LIST_KO | E_LEAVE_OK | E_LEAVE_KO

fun evt_type :: "event \<Rightarrow> event_type" where
  "evt_type E_NONE = EVT_NONE"
| "evt_type E_DISCONNECTED = EVT_DISCONNECTED"
| "evt_type E_EXITING = EVT_EXITING"
| "evt_type (E_GETVERS_OK _) = EVT_GETVERS_OK"
| "evt_type (E_GETVERS_OUTDATED _) = EVT_GETVERS_OUTDATED"
| "evt_type (E_GETVERS_CONCURRENT _) = EVT_GETVERS_CONCURRENT"
| "evt_type (E_GETVERS_ERROR _) = EVT_GETVERS_ERROR"
| "evt_type (E_USE_RES _) = EVT_USE_RES"
| "evt_type (E_CREATE_OK _) = EVT_CREATE_OK"
| "evt_type E_CREATE_KO = EVT_CREATE_KO"
| "evt_type E_NODE_LEFT = EVT_NODE_LEFT"
| "evt_type E_MASTER_KO = EVT_MASTER_KO"
| "evt_type E_MASTER_EMPTY = EVT_MASTER_EMPTY"
| "evt_type (E_MASTER_OK _) = EVT_MASTER_OK"
| "evt_type E_MASTER_CHANGE = EVT_MASTER_CHANGE"
| "evt_type E_RESYNC_REQ = EVT_RESYNC_REQ"
| "evt_type (E_RESYNC_DONE _) = EVT_RESYNC_DONE"
| "evt_type (E_LIST_OK _) = EVT_LIST_OK"
| "evt_type E_LIST_KO = EVT_LIST_KO"
| "evt_type E_LEAVE_OK = EVT_LEAVE_OK"
| "evt_type E_LEAVE_KO = EVT_LEAVE_KO"

record logged_event =
  lg_event :: event_type
  lg_pre :: election_step
  lg_post :: election_step

definition EVENTLOG_SIZE :: nat where
  "EVENTLOG_SIZE = 16"

definition COND_COUNT :: u32 where
  "COND_COUNT = 4096"

text \<open>
  The manager: the fields the members read, the ZooKeeper front-end, and the request counter.
  The tree of members is the business of the manager's own operations. Delays are seconds.
\<close>

record election_manager =
  sync :: sqlx_sync
  delay_max_wait :: int
  delay_write_lock :: int
  delay_restart_failed :: int
  delay_max_idle :: int
  delay_ping_pending :: int
  delay_ping_final :: int
  delay_ping_failed :: int
  exiting :: bool
  next_id :: u32

record election_member =
  key :: hashstr
  name :: string
  ntype :: string
  last_status :: gtimeval
  myid :: int
  master_url :: "string option"
  master_id :: int
  elog :: "logged_event list"
  log_index :: u32
  refcount :: u32
  last_USE :: int
  reqid_USE :: u32
  reqid_PIPEFROM :: u32
  reqid_GETVERS :: u32
  concurrent_GETVERS :: u16
  errors_GETVERS :: u16
  pending_GETVERS :: u16
  sent_GETVERS :: u16
  pending_USE :: u16
  step :: election_step
  requested_USE :: bool
  requested_PIPEFROM :: bool
  pending_PIPEFROM :: bool

text \<open>What a member does to the outside: requests, and the wake-up of a waiting thread.\<close>

datatype action =
    Zk zk_req int
  | SendUSE string u32
  | SendPIPEFROM string "string option" u32
  | SendGETVERS string u32
  | Signal u32
  | FlushPeers string string

record estate =
  em :: election_member
  mg :: election_manager
  tick :: nat
  out :: "action list"

record env =
  env_now :: "nat \<Rightarrow> gtimeval"
  env_time :: "nat \<Rightarrow> int"
  env_zk :: "nat \<Rightarrow> zk_req \<Rightarrow> int"
  env_peers :: "nat \<Rightarrow> string \<Rightarrow> string \<Rightarrow> bool \<Rightarrow> gerror + string list option"
  env_version :: "nat \<Rightarrow> string \<Rightarrow> string \<Rightarrow> gerror + versions option"
  env_url :: string

text \<open>The return codes of the ZooKeeper client (\<open>zookeeper.h\<close>) the code tests.\<close>

definition ZOK :: int where "ZOK = 0"

definition ZSYSTEMERROR :: int where "ZSYSTEMERROR = -1"

definition ZAPIERROR :: int where "ZAPIERROR = -100"

definition ZNONODE :: int where "ZNONODE = -101"

lemmas zk_codes = ZOK_def ZSYSTEMERROR_def ZAPIERROR_def ZNONODE_def

subsection \<open>External calls\<close>

definition upd :: "(election_member \<Rightarrow> election_member) \<Rightarrow> estate \<Rightarrow> estate" where
  "upd f st = st\<lparr>em := f (em st)\<rparr>"

definition emit :: "action \<Rightarrow> estate \<Rightarrow> estate" where
  "emit a st = st\<lparr>out := out st @ [a]\<rparr>"

definition tock :: "estate \<Rightarrow> estate" where
  "tock st = st\<lparr>tick := tick st + 1\<rparr>"

definition g_get_current_time :: "env \<Rightarrow> estate \<Rightarrow> gtimeval \<times> estate" where
  "g_get_current_time E st = (env_now E (tick st), tock st)"

definition time0 :: "env \<Rightarrow> estate \<Rightarrow> int \<times> estate" where
  "time0 E st = (env_time E (tick st), tock st)"

definition zk_call :: "env \<Rightarrow> zk_req \<Rightarrow> estate \<Rightarrow> int \<times> estate" where
  "zk_call E r st = (let rc = env_zk E (tick st) r in (rc, emit (Zk r rc) (tock st)))"

text \<open>The callbacks of the replication configuration.\<close>

definition sqlx_config_get_local_url :: "env \<Rightarrow> string" where
  "sqlx_config_get_local_url E = env_url E"

definition sqlx_config_get_peers2 ::
  "env \<Rightarrow> string \<Rightarrow> string \<Rightarrow> bool \<Rightarrow> nat \<Rightarrow> gerror + string list option" where
  "sqlx_config_get_peers2 E n t nocache k = env_peers E k n t nocache"

definition sqlx_config_has_peers2 :: "env \<Rightarrow> string \<Rightarrow> string \<Rightarrow> bool \<Rightarrow> nat \<Rightarrow> gerror + bool" where
  "sqlx_config_has_peers2 E n t nocache k =
     (case sqlx_config_get_peers2 E n t nocache k of
        Inl err \<Rightarrow> Inl err
      | Inr peers \<Rightarrow> Inr (peers \<noteq> None \<and> peers \<noteq> Some []))"

subsection \<open>Member handling\<close>

text \<open>The candidates of a listing: the numbers after the last dash, in increasing order.\<close>

definition nodev_to_int64v :: "string list \<Rightarrow> string \<Rightarrow> int list" where
  "nodev_to_int64v sv prefix =
     sort (map strtoll (List.map_filter (\<lambda>s. if has_prefix s prefix then after_last (CHR ''-'') s else None) sv))"

definition gtv_init_ago :: "env \<Rightarrow> int \<Rightarrow> estate \<Rightarrow> gtimeval \<times> estate" where
  "gtv_init_ago E delay st =
     (let d = delay * -1000000; (ago, st) = g_get_current_time E st in (ago + d, st))"

definition manager_next_reqid :: "estate \<Rightarrow> u32 \<times> estate" where
  "manager_next_reqid st =
     (let n = next_id (mg st) + 1 in (n, st\<lparr>mg := (mg st)\<lparr>next_id := n\<rparr>\<rparr>))"

definition member_has_action :: "election_member \<Rightarrow> bool" where
  "member_has_action m \<longleftrightarrow> pending_GETVERS m \<noteq> 0 \<or> pending_PIPEFROM m \<or> requested_PIPEFROM m"

definition member_get_peers :: "env \<Rightarrow> bool \<Rightarrow> estate \<Rightarrow> (gerror + string list option) \<times> estate" where
  "member_get_peers E nocache st =
     (sqlx_config_get_peers2 E (name (em st)) (ntype (em st)) nocache (tick st), tock st)"

definition member_decache_peers :: "env \<Rightarrow> estate \<Rightarrow> estate" where
  "member_decache_peers E st =
     (let (_, st) = member_get_peers E True st in emit (FlushPeers (name (em st)) (ntype (em st))) st)"

definition member_ref :: "estate \<Rightarrow> estate" where
  "member_ref = upd (\<lambda>m. m\<lparr>refcount := refcount m + 1\<rparr>)"

definition member_unref :: "estate \<Rightarrow> estate" where
  "member_unref = upd (\<lambda>m. m\<lparr>refcount := refcount m - 1\<rparr>)"

definition member_get_cond :: "election_member \<Rightarrow> u32" where
  "member_get_cond m = hashstr_hash (key m) mod COND_COUNT"

definition member_signal :: "estate \<Rightarrow> estate" where
  "member_signal st = emit (Signal (member_get_cond (em st))) st"

definition member_set_master_url :: "string option \<Rightarrow> estate \<Rightarrow> estate" where
  "member_set_master_url u = upd (\<lambda>m. m\<lparr>master_url := u\<rparr>)"

definition member_reset_master :: "estate \<Rightarrow> estate" where
  "member_reset_master st = member_set_master_url None (upd (\<lambda>m. m\<lparr>master_id := -1\<rparr>) st)"

definition member_reset_pending :: "estate \<Rightarrow> estate" where
  "member_reset_pending =
     upd (\<lambda>m. m\<lparr>sent_GETVERS := 0, concurrent_GETVERS := 0, errors_GETVERS := 0,
                 reqid_GETVERS := 0, reqid_PIPEFROM := 0, pending_GETVERS := 0,
                 pending_PIPEFROM := False\<rparr>)"

definition member_reset :: "estate \<Rightarrow> estate" where
  "member_reset st = upd (\<lambda>m. m\<lparr>myid := -1\<rparr>) (member_reset_pending (member_reset_master st))"

definition member_set_id :: "int \<Rightarrow> estate \<Rightarrow> estate" where
  "member_set_id i = upd (\<lambda>m. m\<lparr>myid := i\<rparr>)"

definition member_touch :: "env \<Rightarrow> estate \<Rightarrow> estate" where
  "member_touch E st = (let (now, st) = g_get_current_time E st in upd (\<lambda>m. m\<lparr>last_status := now\<rparr>) st)"

definition member_set_status :: "env \<Rightarrow> election_step \<Rightarrow> estate \<Rightarrow> estate" where
  "member_set_status E s st =
     (let st = upd (\<lambda>m. m\<lparr>step := s\<rparr>) (member_touch E st)
      in if STATUS_FINAL s then member_signal st
         else if s = STEP_NONE then member_signal st
         else st)"

definition member_set_master_id :: "int \<Rightarrow> estate \<Rightarrow> estate" where
  "member_set_master_id i st =
     (let st = (if i \<noteq> master_id (em st) then member_set_master_url None st else st)
      in upd (\<lambda>m. m\<lparr>master_id := i\<rparr>) st)"

text \<open>The ring of the last events. The index is incremented at each entry and wraps.\<close>

definition member_log_event :: "election_step \<Rightarrow> event_type \<Rightarrow> estate \<Rightarrow> estate" where
  "member_log_event pre evt =
     upd (\<lambda>m. m\<lparr>elog := (elog m)[unat (log_index m) mod EVENTLOG_SIZE :=
                               \<lparr>lg_event = evt, lg_pre = pre, lg_post = step m\<rparr>],
                 log_index := log_index m + 1\<rparr>)"

text \<open>
  \<open>member_dump_log\<close>, the part on the ring: at most sixteen entries backwards from the last
  one, up to the first one that goes from \<open>NONE\<close> to \<open>NONE\<close>.
\<close>

definition dump_log_at :: "election_member \<Rightarrow> nat \<Rightarrow> logged_event" where
  "dump_log_at m i = elog m ! (unat (log_index m - 1 - of_nat i) mod EVENTLOG_SIZE)"

definition member_dump_log :: "election_member \<Rightarrow> logged_event list" where
  "member_dump_log m =
     takeWhile (\<lambda>e. \<not> (step_code (lg_pre e) = 0 \<and> step_code (lg_post e) = 0))
       (map (dump_log_at m) [0..<EVENTLOG_SIZE])"

definition no_event :: logged_event where
  "no_event = \<lparr>lg_event = EVT_NONE, lg_pre = STEP_NONE, lg_post = STEP_NONE\<rparr>"

definition member_create :: "gtimeval \<Rightarrow> string \<Rightarrow> string \<Rightarrow> hashstr \<Rightarrow> election_member" where
  "member_create now n t k =
     \<lparr>key = hashstr_dup k, name = n, ntype = t, last_status = now, myid = -1,
      master_url = None, master_id = -1, elog = replicate EVENTLOG_SIZE no_event,
      log_index = 0, refcount = 0, last_USE = 0, reqid_USE = 0, reqid_PIPEFROM = 0,
      reqid_GETVERS = 0, concurrent_GETVERS = 0, errors_GETVERS = 0, pending_GETVERS = 0,
      sent_GETVERS = 0, pending_USE = 0, step = STEP_NONE, requested_USE = False,
      requested_PIPEFROM = False, pending_PIPEFROM = False\<rparr>"

definition member_fullpath :: "election_member \<Rightarrow> string" where
  "member_fullpath m =
     (if myid m \<ge> 0 then hashstr_str (key m) @ ''-'' @ pad10 (myid m)
      else hashstr_str (key m) @ ''-'')"

definition member_masterpath :: "election_member \<Rightarrow> string option" where
  "member_masterpath m =
     (if master_id m < 0 then None else Some (hashstr_str (key m) @ ''-'' @ pad10 (master_id m)))"

definition member_group_master :: "election_member \<Rightarrow> int list \<Rightarrow> bool" where
  "member_group_master m i64v = (if myid m < 0 then False else i64v ! 0 = myid m)"

definition member_in_group :: "election_member \<Rightarrow> int list \<Rightarrow> bool" where
  "member_in_group m i64v = (if myid m < 0 then False else list_ex (\<lambda>i64. i64 = myid m) i64v)"

definition member_pending_for_too_long :: "env \<Rightarrow> estate \<Rightarrow> bool \<times> estate" where
  "member_pending_for_too_long E st =
     (case step (em st) of
        STEP_NONE \<Rightarrow> (False, st)
      | STEP_LEAVING \<Rightarrow> (False, st)
      | STEP_LEADER \<Rightarrow> (False, st)
      | STEP_LOST \<Rightarrow> (False, st)
      | STEP_FAILED \<Rightarrow> (False, st)
      | _ \<Rightarrow> let (ago, st) = gtv_init_ago E (delay_max_idle (mg st)) st
            in (gtv_bigger ago (last_status (em st)), st))"

definition member_failed_for_too_long :: "env \<Rightarrow> estate \<Rightarrow> bool \<times> estate" where
  "member_failed_for_too_long E st =
     (if step (em st) \<noteq> STEP_FAILED then (False, st)
      else let (ago, st) = gtv_init_ago E (delay_restart_failed (mg st)) st
           in (gtv_bigger ago (last_status (em st)), st))"

subsection \<open>Requests to ZooKeeper\<close>

definition step_StartElection_start :: "env \<Rightarrow> estate \<Rightarrow> int \<times> estate" where
  "step_StartElection_start E st =
     (let myurl = sqlx_config_get_local_url E;
          path = member_fullpath (em st);
          (zrc, st) = zk_call E (sync_acreate (sync (mg st)) path myurl) st
      in (zrc, if zrc = ZOK then member_ref st else st))"

definition step_AskMaster_start :: "env \<Rightarrow> estate \<Rightarrow> int \<times> estate" where
  "step_AskMaster_start E st =
     (case member_masterpath (em st) of
        None \<Rightarrow> (ZNONODE, st)
      | Some path \<Rightarrow>
          let (zrc, st) = zk_call E (sync_awget (sync (mg st)) path) st
          in (zrc, if zrc = ZOK then member_ref (member_ref st) else st))"

definition step_WatchNode_start :: "env \<Rightarrow> estate \<Rightarrow> int \<times> estate" where
  "step_WatchNode_start E st =
     (let path = member_fullpath (em st);
          (zrc, st) = zk_call E (sync_awexists (sync (mg st)) path) st
      in (zrc, if zrc = ZOK then member_ref (member_ref st) else st))"

definition step_ListGroup_start :: "env \<Rightarrow> estate \<Rightarrow> int \<times> estate" where
  "step_ListGroup_start E st =
     (let path = member_fullpath (em st);
          (zrc, st) = zk_call E (sync_awget_siblings (sync (mg st)) path) st
      in (zrc, if zrc = ZOK then member_ref st else st))"

definition step_LeaveElection_start :: "env \<Rightarrow> estate \<Rightarrow> int \<times> estate" where
  "step_LeaveElection_start E st =
     (let path = member_fullpath (em st);
          (zrc, st) = zk_call E (sync_adelete (sync (mg st)) path) st
      in (zrc, if zrc = ZOK then member_ref st else st))"

subsection \<open>Requests to the peers\<close>

text \<open>\<open>g_strv_length\<close>: zero for a NULL array.\<close>

definition g_strv_length :: "string list option \<Rightarrow> nat" where
  "g_strv_length v = (case v of None \<Rightarrow> 0 | Some l \<Rightarrow> length l)"

definition strv :: "string list option \<Rightarrow> string list" where
  "strv v = (case v of None \<Rightarrow> [] | Some l \<Rightarrow> l)"

definition send_USE :: "string \<Rightarrow> estate \<Rightarrow> estate" where
  "send_USE p st = (let st = member_ref st in emit (SendUSE p (reqid_USE (em st))) st)"

definition defer_USE :: "env \<Rightarrow> int \<Rightarrow> estate \<Rightarrow> bool \<times> estate" where
  "defer_USE E now st =
     (case member_get_peers E False st of
        (Inl err, st) \<Rightarrow> (False, st)
      | (Inr peers, st) \<Rightarrow>
          let pending = (if peers = None \<or> peers = Some [] then 0
                         else if pending_USE (em st) \<noteq> 0 then 0
                         else g_strv_length peers)
          in if pending = 0 then (True, st)
             else
               let (t, st) = (if now \<noteq> 0 then (now, st) else time0 E st);
                   st = upd (\<lambda>m. m\<lparr>last_USE := t, pending_USE := of_nat pending\<rparr>) st;
                   (r, st) = manager_next_reqid st;
                   st = upd (\<lambda>m. m\<lparr>reqid_USE := r\<rparr>) st
               in (True, fold send_USE (strv peers) st))"

definition defer_PIPEFROM :: "env \<Rightarrow> estate \<Rightarrow> estate" where
  "defer_PIPEFROM E st =
     (let source = master_url (em st);
          target = sqlx_config_get_local_url E
      in if pending_PIPEFROM (em st) then st
         else
           let (r, st) = manager_next_reqid st;
               st = upd (\<lambda>m. m\<lparr>reqid_PIPEFROM := r, requested_PIPEFROM := False,
                               pending_PIPEFROM := True\<rparr>) st;
               st = member_ref st
           in emit (SendPIPEFROM target source r) st)"

definition send_GETVERS :: "string \<Rightarrow> estate \<Rightarrow> estate" where
  "send_GETVERS p st = (let st = member_ref st in emit (SendGETVERS p (reqid_GETVERS (em st))) st)"

definition defer_GETVERS :: "env \<Rightarrow> estate \<Rightarrow> estate" where
  "defer_GETVERS E st =
     (case member_get_peers E False st of
        (Inl err, st) \<Rightarrow> st
      | (Inr peers, st) \<Rightarrow>
          let pending = g_strv_length peers;
              st = upd (\<lambda>m. m\<lparr>sent_GETVERS := of_nat pending, pending_GETVERS := of_nat pending\<rparr>) st;
              (r, st) = manager_next_reqid st;
              st = upd (\<lambda>m. m\<lparr>reqid_GETVERS := r\<rparr>) st
          in fold send_GETVERS (strv peers) st)"

subsection \<open>Steps\<close>

definition member_RESYNC_if_not_pending :: "estate \<Rightarrow> estate" where
  "member_RESYNC_if_not_pending st =
     (if \<not> pending_PIPEFROM (em st) then upd (\<lambda>m. m\<lparr>requested_PIPEFROM := True\<rparr>) st else st)"

definition become_leaver :: "env \<Rightarrow> estate \<Rightarrow> estate" where
  "become_leaver E st =
     (let st = member_reset_master st;
          st = member_reset_pending st;
          st = member_set_status E STEP_LEAVING st;
          (zrc, st) = step_LeaveElection_start E st
      in if zrc \<noteq> ZOK then member_set_status E STEP_FAILED st else st)"

definition become_candidate :: "env \<Rightarrow> estate \<Rightarrow> estate" where
  "become_candidate E st =
     (let st = member_reset_master st;
          st = member_set_status E STEP_CANDOK st;
          (zrc, st) = step_ListGroup_start E st
      in if ZOK \<noteq> zrc then member_set_status E STEP_FAILED st else st)"

definition manage_deleted :: "env \<Rightarrow> estate \<Rightarrow> estate" where
  "manage_deleted E st = become_leaver E st"

definition restart_election :: "env \<Rightarrow> estate \<Rightarrow> estate" where
  "restart_election E st =
     (if myid (em st) > 0 then become_leaver E st
      else
        let st = member_reset st
        in if exiting (mg st) then member_set_status E STEP_NONE st
           else
             let st = upd (\<lambda>m. m\<lparr>requested_USE := False\<rparr>) st;
                 st = member_set_status E STEP_CANDREQ st;
                 (ok, st) = defer_USE E 0 st
             in if \<not> ok then member_set_status E STEP_FAILED st
                else
                  let (zrc, st) = step_StartElection_start E st
                  in if ZOK \<noteq> zrc then member_set_status E STEP_FAILED st else st)"

definition manage_list :: "env \<Rightarrow> int list \<Rightarrow> estate \<Rightarrow> estate" where
  "manage_list E i64v st =
     (let st = member_set_status E STEP_CANDOK st
      in if \<not> member_in_group (em st) i64v then restart_election E st
         else if member_group_master (em st) i64v then
           let st = member_set_master_id (myid (em st)) st;
               st = member_set_status E STEP_PRELEAD st
           in defer_GETVERS E st
         else
           let st = member_set_master_id (i64v ! 0) st;
               st = member_set_status E STEP_PRELOST st;
               (zrc, st) = step_AskMaster_start E st
           in if zrc \<noteq> ZOK then become_leaver E st else defer_GETVERS E st)"

definition member_concerned_by_GETVERS :: "u32 \<Rightarrow> estate \<Rightarrow> bool \<times> estate" where
  "member_concerned_by_GETVERS reqid st =
     (if reqid \<noteq> reqid_GETVERS (em st) then (False, st)
      else if pending_GETVERS (em st) > 0 then
        let st = upd (\<lambda>m. m\<lparr>pending_GETVERS := pending_GETVERS m - 1\<rparr>) st
        in (True, if pending_GETVERS (em st) = 0 then upd (\<lambda>m. m\<lparr>reqid_GETVERS := 0\<rparr>) st else st)
      else (True, st))"

definition member_finish_PRELOST :: "env \<Rightarrow> estate \<Rightarrow> estate" where
  "member_finish_PRELOST E st =
     (if member_has_action (em st) then st
      else
        let errors = unat (errors_GETVERS (em st));
            concurrent = unat (concurrent_GETVERS (em st));
            st = upd (\<lambda>m. m\<lparr>errors_GETVERS := 0, concurrent_GETVERS := 0\<rparr>) st
        in if errors > 1 then become_leaver E st
           else if concurrent > 1 then member_RESYNC_if_not_pending st
           else if master_url (em st) \<noteq> None then member_set_status E STEP_LOST st
           else st)"

definition member_finish_PRELEAD :: "env \<Rightarrow> estate \<Rightarrow> estate" where
  "member_finish_PRELEAD E st =
     (if member_has_action (em st) then st
      else
        let errors = unat (errors_GETVERS (em st));
            concurrent = unat (concurrent_GETVERS (em st));
            st = upd (\<lambda>m. m\<lparr>errors_GETVERS := 0, concurrent_GETVERS := 0\<rparr>) st
        in if errors > 1 then become_leaver E st
           else if concurrent > 1 then become_leaver E st
           else member_set_status E STEP_LEADER st)"

definition member_ping_delay :: "estate \<Rightarrow> int" where
  "member_ping_delay st =
     (case step (em st) of
        STEP_CANDREQ \<Rightarrow> delay_ping_pending (mg st)
      | STEP_CANDOK \<Rightarrow> delay_ping_pending (mg st)
      | STEP_PRELOST \<Rightarrow> delay_ping_pending (mg st)
      | STEP_PRELEAD \<Rightarrow> delay_ping_pending (mg st)
      | STEP_FAILED \<Rightarrow> delay_ping_failed (mg st)
      | _ \<Rightarrow> delay_ping_final (mg st))"

definition member_ping :: "env \<Rightarrow> estate \<Rightarrow> estate" where
  "member_ping E st =
     (let (now, st) = time0 E st;
          delay = member_ping_delay st
      in if last_USE (em st) = 0 \<or> last_USE (em st) + delay < now \<or> last_USE (em st) > now
         then let (ok, st) = defer_USE E now st in if \<not> ok then become_leaver E st else st
         else st)"

subsection \<open>Transitions\<close>

text \<open>
  The first switch of \<open>_transition\<close>: what an event does in every step. The flag tells
  whether the function returns there.
\<close>

definition transition_common :: "env \<Rightarrow> event \<Rightarrow> estate \<Rightarrow> bool \<times> estate" where
  "transition_common E evt st =
     (case evt of
        E_DISCONNECTED \<Rightarrow> (True, member_set_status E STEP_FAILED (member_reset st))
      | E_USE_RES reqid \<Rightarrow>
          (False,
           let st = (if reqid = reqid_USE (em st) \<and> pending_USE (em st) > 0
                     then upd (\<lambda>m. m\<lparr>pending_USE := pending_USE m - 1\<rparr>) st else st)
           in if pending_USE (em st) = 0 then upd (\<lambda>m. m\<lparr>reqid_USE := 0\<rparr>) st else st)
      | E_RESYNC_DONE reqid \<Rightarrow>
          (False,
           if reqid = reqid_PIPEFROM (em st)
           then upd (\<lambda>m. m\<lparr>pending_PIPEFROM := False, reqid_PIPEFROM := 0\<rparr>) st else st)
      | _ \<Rightarrow> (False, st))"

text \<open>The second switch, one function per step.\<close>

definition in_NONE :: "env \<Rightarrow> event \<Rightarrow> estate \<Rightarrow> estate" where
  "in_NONE E evt st = (if evt = E_NONE \<or> evt = E_RESYNC_REQ then restart_election E st else st)"

definition in_CANDREQ :: "env \<Rightarrow> event \<Rightarrow> estate \<Rightarrow> estate" where
  "in_CANDREQ E evt st =
     (case evt of
        E_RESYNC_REQ \<Rightarrow> member_RESYNC_if_not_pending st
      | E_EXITING \<Rightarrow> become_leaver E st
      | E_CREATE_OK i \<Rightarrow>
          let st = member_set_id i st;
              (zrc, st) = step_WatchNode_start E st
          in if ZOK \<noteq> zrc then member_set_status E STEP_FAILED st else become_candidate E st
      | E_CREATE_KO \<Rightarrow> member_set_status E STEP_FAILED st
      | _ \<Rightarrow> st)"

definition in_CANDOK :: "env \<Rightarrow> event \<Rightarrow> estate \<Rightarrow> estate" where
  "in_CANDOK E evt st =
     (case evt of
        E_NONE \<Rightarrow> member_ping E st
      | E_RESYNC_REQ \<Rightarrow> member_RESYNC_if_not_pending st
      | E_EXITING \<Rightarrow> become_leaver E st
      | E_LIST_OK i64v \<Rightarrow> manage_list E i64v st
      | E_LIST_KO \<Rightarrow> become_candidate E st
      | E_NODE_LEFT \<Rightarrow> become_candidate E st
      | _ \<Rightarrow> st)"

text \<open>A stale member asks for the versions again and restarts its delay.\<close>

definition restart_GETVERS_if_stale :: "env \<Rightarrow> estate \<Rightarrow> estate" where
  "restart_GETVERS_if_stale E st =
     (let (stale, st) = member_pending_for_too_long E st
      in if stale then member_touch E (defer_GETVERS E st) else member_ping E st)"

definition in_PRELOST :: "env \<Rightarrow> event \<Rightarrow> estate \<Rightarrow> estate" where
  "in_PRELOST E evt st =
     (case evt of
        E_NONE \<Rightarrow> restart_GETVERS_if_stale E st
      | E_RESYNC_REQ \<Rightarrow> member_RESYNC_if_not_pending st
      | E_DISCONNECTED \<Rightarrow> st
      | E_USE_RES _ \<Rightarrow> st
      | E_CREATE_OK _ \<Rightarrow> become_candidate E st
      | E_CREATE_KO \<Rightarrow> become_candidate E st
      | E_LEAVE_OK \<Rightarrow> become_candidate E st
      | E_LEAVE_KO \<Rightarrow> become_candidate E st
      | E_LIST_OK _ \<Rightarrow> become_candidate E st
      | E_LIST_KO \<Rightarrow> become_candidate E st
      | E_NODE_LEFT \<Rightarrow> become_candidate E st
      | E_MASTER_KO \<Rightarrow> become_candidate E st
      | E_MASTER_EMPTY \<Rightarrow> become_candidate E st
      | E_MASTER_CHANGE \<Rightarrow> become_candidate E st
      | E_EXITING \<Rightarrow> become_leaver E st
      | E_MASTER_OK url \<Rightarrow> member_finish_PRELOST E (member_set_master_url (Some url) st)
      | E_GETVERS_OK r \<Rightarrow>
          let (c, st) = member_concerned_by_GETVERS r st
          in if c then member_finish_PRELOST E st else st
      | E_GETVERS_OUTDATED r \<Rightarrow>
          let (c, st) = member_concerned_by_GETVERS r st
          in if c then member_RESYNC_if_not_pending st else st
      | E_GETVERS_CONCURRENT r \<Rightarrow>
          let (c, st) = member_concerned_by_GETVERS r st
          in if c then member_finish_PRELOST E
               (upd (\<lambda>m. m\<lparr>concurrent_GETVERS := concurrent_GETVERS m + 1\<rparr>) st) else st
      | E_GETVERS_ERROR r \<Rightarrow>
          let (c, st) = member_concerned_by_GETVERS r st
          in if c then member_finish_PRELOST E
               (upd (\<lambda>m. m\<lparr>errors_GETVERS := errors_GETVERS m + 1\<rparr>) st) else st
      | E_RESYNC_DONE _ \<Rightarrow>
          if \<not> member_has_action (em st) \<and> master_url (em st) \<noteq> None
          then member_set_status E STEP_LOST st else st)"

definition in_PRELEAD :: "env \<Rightarrow> event \<Rightarrow> estate \<Rightarrow> estate" where
  "in_PRELEAD E evt st =
     (case evt of
        E_NONE \<Rightarrow> restart_GETVERS_if_stale E st
      | E_RESYNC_REQ \<Rightarrow> become_leaver E st
      | E_EXITING \<Rightarrow> become_leaver E st
      | E_DISCONNECTED \<Rightarrow> st
      | E_USE_RES _ \<Rightarrow> st
      | E_CREATE_OK _ \<Rightarrow> become_candidate E st
      | E_CREATE_KO \<Rightarrow> become_candidate E st
      | E_NODE_LEFT \<Rightarrow> become_candidate E st
      | E_MASTER_OK _ \<Rightarrow> become_candidate E st
      | E_MASTER_KO \<Rightarrow> become_candidate E st
      | E_LIST_OK _ \<Rightarrow> become_candidate E st
      | E_LIST_KO \<Rightarrow> become_candidate E st
      | E_LEAVE_OK \<Rightarrow> become_candidate E st
      | E_LEAVE_KO \<Rightarrow> become_candidate E st
      | E_MASTER_EMPTY \<Rightarrow> become_candidate E st
      | E_MASTER_CHANGE \<Rightarrow> become_candidate E st
      | E_RESYNC_DONE _ \<Rightarrow> become_candidate E st
      | E_GETVERS_OUTDATED r \<Rightarrow>
          let (c, st) = member_concerned_by_GETVERS r st
          in if c then become_leaver E st else st
      | E_GETVERS_OK r \<Rightarrow>
          let (c, st) = member_concerned_by_GETVERS r st
          in if c then member_finish_PRELEAD E st else st
      | E_GETVERS_CONCURRENT r \<Rightarrow>
          let (c, st) = member_concerned_by_GETVERS r st
          in if c then member_finish_PRELEAD E
               (upd (\<lambda>m. m\<lparr>concurrent_GETVERS := concurrent_GETVERS m + 1\<rparr>) st) else st
      | E_GETVERS_ERROR r \<Rightarrow>
          let (c, st) = member_concerned_by_GETVERS r st
          in if c then member_finish_PRELEAD E
               (upd (\<lambda>m. m\<lparr>errors_GETVERS := errors_GETVERS m + 1\<rparr>) st) else st)"

definition in_LEAVING :: "env \<Rightarrow> event \<Rightarrow> estate \<Rightarrow> estate" where
  "in_LEAVING E evt st =
     (case evt of
        E_NONE \<Rightarrow> if \<not> exiting (mg st) then upd (\<lambda>m. m\<lparr>requested_USE := True\<rparr>) st else st
      | E_RESYNC_REQ \<Rightarrow> member_RESYNC_if_not_pending st
      | E_LEAVE_OK \<Rightarrow> member_set_status E STEP_NONE (member_reset st)
      | E_LEAVE_KO \<Rightarrow> become_leaver E st
      | _ \<Rightarrow> st)"

definition in_LOST :: "env \<Rightarrow> event \<Rightarrow> estate \<Rightarrow> estate" where
  "in_LOST E evt st =
     (case evt of
        E_NONE \<Rightarrow> member_ping E st
      | E_EXITING \<Rightarrow> become_leaver E st
      | E_NODE_LEFT \<Rightarrow> manage_deleted E st
      | E_MASTER_KO \<Rightarrow> become_candidate E st
      | E_MASTER_EMPTY \<Rightarrow> become_candidate E st
      | E_MASTER_CHANGE \<Rightarrow> become_candidate E st
      | E_RESYNC_REQ \<Rightarrow>
          member_set_status E STEP_PRELOST (upd (\<lambda>m. m\<lparr>requested_PIPEFROM := True\<rparr>) st)
      | _ \<Rightarrow> st)"

definition in_LEADER :: "env \<Rightarrow> event \<Rightarrow> estate \<Rightarrow> estate" where
  "in_LEADER E evt st =
     (case evt of
        E_NONE \<Rightarrow> member_ping E st
      | E_RESYNC_REQ \<Rightarrow> become_leaver E st
      | E_EXITING \<Rightarrow> become_leaver E st
      | E_NODE_LEFT \<Rightarrow> manage_deleted E st
      | _ \<Rightarrow> st)"

definition in_FAILED :: "env \<Rightarrow> event \<Rightarrow> estate \<Rightarrow> estate" where
  "in_FAILED E evt st =
     (case evt of
        E_NONE \<Rightarrow>
          let (late, st) = member_failed_for_too_long E st
          in if late then restart_election E st else member_ping E st
      | E_RESYNC_REQ \<Rightarrow> restart_election E (member_RESYNC_if_not_pending st)
      | E_CREATE_KO \<Rightarrow> member_set_status E STEP_FAILED (member_reset st)
      | E_NODE_LEFT \<Rightarrow> member_set_status E STEP_FAILED (member_reset st)
      | _ \<Rightarrow> st)"

definition transition_step :: "env \<Rightarrow> event \<Rightarrow> estate \<Rightarrow> estate" where
  "transition_step E evt st =
     (let (return, st) = transition_common E evt st
      in if return then st
         else case step (em st) of
                STEP_NONE \<Rightarrow> in_NONE E evt st
              | STEP_CANDREQ \<Rightarrow> in_CANDREQ E evt st
              | STEP_CANDOK \<Rightarrow> in_CANDOK E evt st
              | STEP_PRELOST \<Rightarrow> in_PRELOST E evt st
              | STEP_PRELEAD \<Rightarrow> in_PRELEAD E evt st
              | STEP_LEAVING \<Rightarrow> in_LEAVING E evt st
              | STEP_LOST \<Rightarrow> in_LOST E evt st
              | STEP_LEADER \<Rightarrow> in_LEADER E evt st
              | STEP_FAILED \<Rightarrow> in_FAILED E evt st)"

definition transition :: "env \<Rightarrow> event \<Rightarrow> estate \<Rightarrow> estate" where
  "transition E evt st =
     (let pre = step (em st);
          st = transition_step E evt st;
          post = step (em st);
          st = (if evt \<noteq> E_NONE \<or> pre \<noteq> post then member_log_event pre (evt_type evt) st else st);
          st = (if requested_PIPEFROM (em st) \<and> master_url (em st) \<noteq> None
                then defer_PIPEFROM E st else st)
      in if requested_USE (em st) \<and> step (em st) = STEP_NONE then restart_election E st else st)"

text \<open>\<open>None\<close> is the failed assertion of \<open>transition_error\<close>, which ends the process.\<close>

definition transition_error :: "env \<Rightarrow> event \<Rightarrow> int \<Rightarrow> estate \<Rightarrow> estate option" where
  "transition_error E evt zrc st =
     (if zrc < ZAPIERROR then Some (transition E evt st)
      else if zrc < ZSYSTEMERROR then Some (transition E E_DISCONNECTED st)
      else None)"

definition member_kickoff :: "env \<Rightarrow> estate \<Rightarrow> estate" where
  "member_kickoff E st = transition E E_NONE st"

subsection \<open>Completions and watchers\<close>

text \<open>The data of a node is NULL or a byte string (\<open>v\<close> and \<open>vlen\<close>).\<close>

definition step_AskMaster_completion :: "env \<Rightarrow> int \<Rightarrow> string option \<Rightarrow> estate \<Rightarrow> estate option" where
  "step_AskMaster_completion E zrc v st =
     (let master = (case v of None \<Rightarrow> None
                    | Some b \<Rightarrow> if b \<noteq> [] \<and> b ! 0 \<noteq> NUL then Some (cstr b) else None);
          st' = (if zrc \<noteq> ZOK then transition_error E E_MASTER_KO zrc st
                 else Some (case master of
                              None \<Rightarrow> transition E E_MASTER_EMPTY st
                            | Some u \<Rightarrow> transition E (E_MASTER_OK u) st))
      in map_option member_unref st')"

definition step_ListGroup_completion :: "env \<Rightarrow> int \<Rightarrow> string list \<Rightarrow> estate \<Rightarrow> estate option" where
  "step_ListGroup_completion E zrc sv st =
     (let st' = (if zrc \<noteq> ZOK then transition_error E E_LIST_KO zrc st
                 else Some (transition E (E_LIST_OK (nodev_to_int64v sv (hashstr_str (key (em st))))) st))
      in map_option member_unref st')"

definition step_LeaveElection_completion :: "env \<Rightarrow> int \<Rightarrow> estate \<Rightarrow> estate option" where
  "step_LeaveElection_completion E zrc st =
     (let st' = (if zrc \<noteq> ZOK then
                   if zrc = ZNONODE then Some (transition E E_LEAVE_OK st)
                   else transition_error E E_LEAVE_KO zrc st
                 else Some (transition E E_LEAVE_OK st))
      in map_option member_unref st')"

definition step_WatchNode_completion :: "env \<Rightarrow> int \<Rightarrow> estate \<Rightarrow> estate option" where
  "step_WatchNode_completion E zrc st =
     (let st' = (if zrc \<noteq> ZOK then
                   if zrc = ZNONODE then Some (transition E E_NODE_LEFT st)
                   else transition_error E E_NONE zrc st
                 else Some st)
      in map_option member_unref st')"

text \<open>A path without a dash would be a NULL pointer plus one: the process ends.\<close>

definition step_StartElection_completion :: "env \<Rightarrow> int \<Rightarrow> string option \<Rightarrow> estate \<Rightarrow> estate option" where
  "step_StartElection_completion E zrc path st =
     (let st' = (if zrc \<noteq> ZOK then transition_error E E_CREATE_KO zrc st
                 else case path of
                        None \<Rightarrow> Some (transition E E_CREATE_KO st)
                      | Some p \<Rightarrow>
                          map_option (\<lambda>s. transition E (E_CREATE_OK (strtoll s)) st)
                            (after_last (CHR ''-'') p))
      in map_option member_unref st')"

definition step_WatchMaster_change :: "env \<Rightarrow> estate \<Rightarrow> estate" where
  "step_WatchMaster_change E st =
     (if exiting (mg st) then st else member_unref (transition E E_MASTER_CHANGE st))"

definition step_WatchNode_change :: "env \<Rightarrow> estate \<Rightarrow> estate" where
  "step_WatchNode_change E st =
     (if exiting (mg st) then st else member_unref (transition E E_NODE_LEFT st))"

subsection \<open>Replies of the peers\<close>

text \<open>\<open>reqid\<close> is the number the request carried.\<close>

definition on_end_USE :: "env \<Rightarrow> u32 \<Rightarrow> estate \<Rightarrow> estate" where
  "on_end_USE E reqid st = transition E (E_USE_RES reqid) st"

definition on_end_PIPEFROM :: "env \<Rightarrow> estate \<Rightarrow> estate" where
  "on_end_PIPEFROM E st = member_unref (transition E (E_RESYNC_DONE (reqid_PIPEFROM (em st))) st)"

definition CODE_CONTAINER_NOTFOUND :: gerror where
  "CODE_CONTAINER_NOTFOUND = 431"

text \<open>
  \<open>on_reply_GETVERS\<close>: the version decoded from the last body received; a body that does
  not decode stops the reading (the flag).
\<close>

definition on_reply_GETVERS ::
  "(string \<Rightarrow> table_version list option) \<Rightarrow> string option \<Rightarrow> versions option \<Rightarrow> bool \<times> versions option" where
  "on_reply_GETVERS ber body udata_version =
     (case body of
        None \<Rightarrow> (True, udata_version)
      | Some b \<Rightarrow>
          (case version_decode ber b of
             None \<Rightarrow> (False, udata_version)
           | Some v \<Rightarrow> (True, Some v)))"

text \<open>
  \<open>on_end_GETVERS\<close>, the error it comes to: the error of the request, a version that is
  missing, or the difference with the local version, where a late remote is no error.
\<close>

definition getvers_error ::
  "gerror option \<Rightarrow> versions option \<Rightarrow> (gerror + versions option) \<Rightarrow> gerror option" where
  "getvers_error client_error vremote vlocal =
     (case client_error of
        Some e \<Rightarrow> Some e
      | None \<Rightarrow>
          (case vremote of
             None \<Rightarrow> Some 500
           | Some remote \<Rightarrow>
               (case vlocal of
                  Inl e \<Rightarrow> Some e
                | Inr None \<Rightarrow> Some 500
                | Inr (Some local) \<Rightarrow>
                    (case version_validate_diff local remote of
                       (Some e, worst) \<Rightarrow> if e = CODE_PIPETO then None else Some e
                     | (None, worst) \<Rightarrow> if worst < 0 then Some CODE_PIPEFROM else None))))"

definition on_end_GETVERS :: "env \<Rightarrow> u32 \<Rightarrow> gerror option \<Rightarrow> versions option \<Rightarrow> estate \<Rightarrow> estate" where
  "on_end_GETVERS E reqid client_error vremote st =
     (let (vlocal, st) =
            (if client_error = None \<and> vremote \<noteq> None
             then (env_version E (tick st) (name (em st)) (ntype (em st)), tock st)
             else (Inr None, st))
      in case getvers_error client_error vremote vlocal of
           None \<Rightarrow> transition E (E_GETVERS_OK reqid) st
         | Some e \<Rightarrow>
             if e = CODE_PIPEFROM then transition E (E_GETVERS_OUTDATED reqid) st
             else if e = CODE_CONCURRENT then transition E (E_GETVERS_CONCURRENT reqid) st
             else
               let st = (if e = CODE_CONTAINER_NOTFOUND then member_decache_peers E st else st)
               in transition E (E_GETVERS_ERROR reqid) st)"

end
