(* ===== verification/Election_Invariants.thy ===== *)
theory Election_Invariants
  imports Election_Model
begin

section \<open>The invariant of an election member\<close>

text \<open>
  What every handler of \<open>Election_Model\<close> keeps: the relation between the step of a member,
  its sequence number and its knowledge of the master, and the size of its event log. The
  handlers are described by their effect on the \<open>core\<close> of a member (the step, the two
  numbers and the URL of the master); everything else they touch is bookkeeping. The
  transition function is then an instance of \<open>event_machine\<close>, which carries the invariant to
  every run.
\<close>

subsection \<open>Frames\<close>

definition core :: "election_member \<Rightarrow> election_step \<times> int \<times> int \<times> string option" where
  "core m = (step m, myid m, master_id m, master_url m)"

lemma core_update [simp]:
  "core (m\<lparr>last_status := v0\<rparr>) = core m"
  "core (m\<lparr>elog := v1\<rparr>) = core m"
  "core (m\<lparr>log_index := v2\<rparr>) = core m"
  "core (m\<lparr>refcount := v3\<rparr>) = core m"
  "core (m\<lparr>last_USE := v4\<rparr>) = core m"
  "core (m\<lparr>reqid_USE := v5\<rparr>) = core m"
  "core (m\<lparr>reqid_PIPEFROM := v6\<rparr>) = core m"
  "core (m\<lparr>reqid_GETVERS := v7\<rparr>) = core m"
  "core (m\<lparr>concurrent_GETVERS := v8\<rparr>) = core m"
  "core (m\<lparr>errors_GETVERS := v9\<rparr>) = core m"
  "core (m\<lparr>pending_GETVERS := v10\<rparr>) = core m"
  "core (m\<lparr>sent_GETVERS := v11\<rparr>) = core m"
  "core (m\<lparr>pending_USE := v12\<rparr>) = core m"
  "core (m\<lparr>requested_USE := v13\<rparr>) = core m"
  "core (m\<lparr>requested_PIPEFROM := v14\<rparr>) = core m"
  "core (m\<lparr>pending_PIPEFROM := v15\<rparr>) = core m"
  by (simp_all add: core_def)

text \<open>What no handler changes: the identity of the member, and the manager but its counter.\<close>

definition ident :: "estate \<Rightarrow> hashstr \<times> string \<times> string \<times> election_manager" where
  "ident st = (key (em st), name (em st), ntype (em st), (mg st)\<lparr>next_id := 0\<rparr>)"

lemma ident_mg: "ident st' = ident st \<Longrightarrow> exiting (mg st') = exiting (mg st) \<and> sync (mg st') = sync (mg st)"
proof -
  assume "ident st' = ident st"
  then have "(mg st')\<lparr>next_id := 0\<rparr> = (mg st)\<lparr>next_id := 0\<rparr>" by (simp add: ident_def)
  then show ?thesis
    by (metis election_manager.select_convs(1,9) election_manager.surjective election_manager.update_convs(10))
qed

lemma estate_simps [simp]:
  "em (upd f st) = f (em st)" "mg (upd f st) = mg st" "tick (upd f st) = tick st" "out (upd f st) = out st"
  "em (emit a st) = em st" "mg (emit a st) = mg st" "tick (emit a st) = tick st"
  "out (emit a st) = out st @ [a]"
  "em (tock st) = em st" "mg (tock st) = mg st" "tick (tock st) = tick st + 1" "out (tock st) = out st"
  by (simp_all add: upd_def emit_def tock_def)

lemma STATUS_FINAL_iff [simp]: "STATUS_FINAL s \<longleftrightarrow> s \<in> {STEP_LOST, STEP_LEADER, STEP_FAILED}"
  by (cases s) (simp_all add: STATUS_FINAL_def)

lemma set_status_em: "em (member_set_status E s st) = (em st)\<lparr>last_status := env_now E (tick st), step := s\<rparr>"
  by (simp add: member_set_status_def member_touch_def g_get_current_time_def member_signal_def Let_def)

lemma set_status_mg [simp]: "mg (member_set_status E s st) = mg st"
  by (simp add: member_set_status_def member_touch_def g_get_current_time_def member_signal_def Let_def)

lemma touch_em: "em (member_touch E st) = (em st)\<lparr>last_status := env_now E (tick st)\<rparr>"
  by (simp add: member_touch_def g_get_current_time_def)

lemma touch_mg [simp]: "mg (member_touch E st) = mg st"
  by (simp add: member_touch_def g_get_current_time_def)

lemma next_reqid_simps [simp]:
  "em (snd (manager_next_reqid st)) = em st"
  "fst (manager_next_reqid st) = next_id (mg st) + 1"
  "mg (snd (manager_next_reqid st)) = (mg st)\<lparr>next_id := next_id (mg st) + 1\<rparr>"
  by (simp_all add: manager_next_reqid_def Let_def)

lemma fold_send_USE:
  "em (fold send_USE ps st) = (em st)\<lparr>refcount := refcount (em st) + of_nat (length ps)\<rparr>"
  "mg (fold send_USE ps st) = mg st"
  by (induction ps arbitrary: st) (simp_all add: send_USE_def member_ref_def Let_def ac_simps)

lemma fold_send_GETVERS:
  "em (fold send_GETVERS ps st) = (em st)\<lparr>refcount := refcount (em st) + of_nat (length ps)\<rparr>"
  "mg (fold send_GETVERS ps st) = mg st"
  by (induction ps arbitrary: st) (simp_all add: send_GETVERS_def member_ref_def Let_def ac_simps)

text \<open>The requests only count references, number themselves and note that they are pending.\<close>

lemma zk_call_simps [simp]:
  "em (snd (zk_call E r st)) = em st" "mg (snd (zk_call E r st)) = mg st"
  "fst (zk_call E r st) = env_zk E (tick st) r"
  by (simp_all add: zk_call_def Let_def)

lemmas start_defs = step_StartElection_start_def step_AskMaster_start_def step_WatchNode_start_def
  step_ListGroup_start_def step_LeaveElection_start_def

lemma start_core [simp]:
  "core (em (snd (step_StartElection_start E st))) = core (em st)"
  "core (em (snd (step_AskMaster_start E st))) = core (em st)"
  "core (em (snd (step_WatchNode_start E st))) = core (em st)"
  "core (em (snd (step_ListGroup_start E st))) = core (em st)"
  "core (em (snd (step_LeaveElection_start E st))) = core (em st)"
  by (simp_all add: start_defs core_def zk_call_def member_ref_def Let_def split: option.split)

lemma start_elog [simp]:
  "elog (em (snd (step_StartElection_start E st))) = elog (em st)"
  "elog (em (snd (step_AskMaster_start E st))) = elog (em st)"
  "elog (em (snd (step_WatchNode_start E st))) = elog (em st)"
  "elog (em (snd (step_ListGroup_start E st))) = elog (em st)"
  "elog (em (snd (step_LeaveElection_start E st))) = elog (em st)"
  by (simp_all add: start_defs zk_call_def member_ref_def Let_def split: option.split)

lemma start_ident [simp]:
  "ident (snd (step_StartElection_start E st)) = ident st"
  "ident (snd (step_AskMaster_start E st)) = ident st"
  "ident (snd (step_WatchNode_start E st)) = ident st"
  "ident (snd (step_ListGroup_start E st)) = ident st"
  "ident (snd (step_LeaveElection_start E st)) = ident st"
  by (simp_all add: start_defs ident_def zk_call_def member_ref_def Let_def split: option.split)

lemma start_mg [simp]:
  "mg (snd (step_StartElection_start E st)) = mg st"
  "mg (snd (step_AskMaster_start E st)) = mg st"
  "mg (snd (step_WatchNode_start E st)) = mg st"
  "mg (snd (step_ListGroup_start E st)) = mg st"
  "mg (snd (step_LeaveElection_start E st)) = mg st"
  by (simp_all add: start_defs zk_call_def member_ref_def Let_def split: option.split)

lemma defer_frame [simp]:
  "core (em (snd (defer_USE E now st))) = core (em st)"
  "core (em (defer_PIPEFROM E st)) = core (em st)"
  "core (em (defer_GETVERS E st)) = core (em st)"
  "elog (em (snd (defer_USE E now st))) = elog (em st)"
  "elog (em (defer_PIPEFROM E st)) = elog (em st)"
  "elog (em (defer_GETVERS E st)) = elog (em st)"
  "ident (snd (defer_USE E now st)) = ident st"
  "ident (defer_PIPEFROM E st) = ident st"
  "ident (defer_GETVERS E st) = ident st"
  by (simp_all add: defer_USE_def defer_PIPEFROM_def defer_GETVERS_def member_get_peers_def core_def
      ident_def time0_def fold_send_USE fold_send_GETVERS member_ref_def manager_next_reqid_def Let_def
      split: sum.split prod.split)

subsection \<open>The effect of the steps\<close>

lemma reset_core [simp]:
  "core (em (member_reset_master st)) = (step (em st), myid (em st), -1, None)"
  "core (em (member_reset_pending st)) = core (em st)"
  "core (em (member_reset st)) = (step (em st), -1, -1, None)"
  "core (em (member_RESYNC_if_not_pending st)) = core (em st)"
  "core (em (member_set_status E s st)) = (s, snd (core (em st)))"
  "core (em (member_set_master_url u st)) = (step (em st), myid (em st), master_id (em st), u)"
  by (simp_all add: member_reset_def member_reset_pending_def member_reset_master_def core_def
      member_set_master_url_def member_RESYNC_if_not_pending_def set_status_em)

lemma reset_elog [simp]:
  "elog (em (member_reset_master st)) = elog (em st)"
  "elog (em (member_reset_pending st)) = elog (em st)"
  "elog (em (member_reset st)) = elog (em st)"
  "elog (em (member_RESYNC_if_not_pending st)) = elog (em st)"
  "elog (em (member_set_status E s st)) = elog (em st)"
  "elog (em (member_set_master_url u st)) = elog (em st)"
  by (simp_all add: member_reset_def member_reset_pending_def member_reset_master_def
      member_set_master_url_def member_RESYNC_if_not_pending_def set_status_em)

lemma reset_ident [simp]:
  "ident (member_reset_master st) = ident st"
  "ident (member_reset_pending st) = ident st"
  "ident (member_reset st) = ident st"
  "ident (member_RESYNC_if_not_pending st) = ident st"
  "ident (member_set_status E s st) = ident st"
  "ident (member_set_master_url u st) = ident st"
  by (simp_all add: member_reset_def member_reset_pending_def member_reset_master_def ident_def
      member_set_master_url_def member_RESYNC_if_not_pending_def set_status_em)

lemma reset_mg [simp]:
  "mg (member_reset_master st) = mg st" "mg (member_reset_pending st) = mg st"
  "mg (member_reset st) = mg st" "mg (member_RESYNC_if_not_pending st) = mg st"
  "mg (member_set_master_url u st) = mg st"
  by (simp_all add: member_reset_def member_reset_pending_def member_reset_master_def
      member_set_master_url_def member_RESYNC_if_not_pending_def)

lemma core_eqD:
  "core m = (s, i, mi, u) \<Longrightarrow> step m = s \<and> myid m = i \<and> master_id m = mi \<and> master_url m = u"
  by (simp add: core_def)

lemma become_leaver_core:
  "\<exists>s \<in> {STEP_LEAVING, STEP_FAILED}. core (em (become_leaver E st)) = (s, myid (em st), -1, None)"
proof -
  have m: "myid (em (member_reset_master st)) = myid (em st)"
    by (simp add: member_reset_master_def member_set_master_url_def)
  show ?thesis
    unfolding become_leaver_def Let_def by (simp add: case_prod_unfold m)
qed

lemma become_leaver_frame [simp]:
  "elog (em (become_leaver E st)) = elog (em st)" "ident (become_leaver E st) = ident st"
  by (simp_all add: become_leaver_def Let_def case_prod_unfold)

lemma become_candidate_core:
  "\<exists>s \<in> {STEP_CANDOK, STEP_FAILED}. core (em (become_candidate E st)) = (s, myid (em st), -1, None)"
  unfolding become_candidate_def Let_def by (simp add: case_prod_unfold)

lemma become_candidate_frame [simp]:
  "elog (em (become_candidate E st)) = elog (em st)" "ident (become_candidate E st) = ident st"
  by (simp_all add: become_candidate_def Let_def case_prod_unfold)

lemma restart_election_core:
  "(\<exists>s \<in> {STEP_LEAVING, STEP_FAILED}. 0 < myid (em st) \<and>
       core (em (restart_election E st)) = (s, myid (em st), -1, None)) \<or>
   (\<exists>s \<in> {STEP_NONE, STEP_CANDREQ, STEP_FAILED}. myid (em st) \<le> 0 \<and>
       core (em (restart_election E st)) = (s, -1, -1, None))"
proof (cases "0 < myid (em st)")
  case True
  then show ?thesis using become_leaver_core [of E st] by (auto simp: restart_election_def)
next
  case False
  then show ?thesis
    unfolding restart_election_def Let_def by (simp add: case_prod_unfold)
qed

lemma restart_election_frame [simp]:
  "elog (em (restart_election E st)) = elog (em st)" "ident (restart_election E st) = ident st"
proof -
  show "elog (em (restart_election E st)) = elog (em st)"
    unfolding restart_election_def Let_def by (simp add: case_prod_unfold)
  have "ident (upd (\<lambda>m. m\<lparr>requested_USE := False\<rparr>) (member_reset st)) = ident st"
    using reset_ident(3) [of st] by (simp add: ident_def)
  then show "ident (restart_election E st) = ident st"
    unfolding restart_election_def Let_def by (simp add: case_prod_unfold)
qed

lemma set_master_id_core [simp]:
  "core (em (member_set_master_id i st)) =
     (step (em st), myid (em st), i, if i \<noteq> master_id (em st) then None else master_url (em st))"
  by (simp add: member_set_master_id_def member_set_master_url_def core_def Let_def)

lemma set_master_id_frame [simp]:
  "elog (em (member_set_master_id i st)) = elog (em st)" "ident (member_set_master_id i st) = ident st"
  "mg (member_set_master_id i st) = mg st"
  by (simp_all add: member_set_master_id_def member_set_master_url_def ident_def Let_def)

lemma concerned_frame [simp]:
  "core (em (snd (member_concerned_by_GETVERS r st))) = core (em st)"
  "elog (em (snd (member_concerned_by_GETVERS r st))) = elog (em st)"
  "ident (snd (member_concerned_by_GETVERS r st)) = ident st"
  by (simp_all add: member_concerned_by_GETVERS_def core_def ident_def Let_def)

lemma ping_core:
  "core (em (member_ping E st)) = core (em st) \<or>
   (\<exists>s \<in> {STEP_LEAVING, STEP_FAILED}. core (em (member_ping E st)) = (s, myid (em st), -1, None))"
proof -
  have "\<And>now. myid (em (snd (defer_USE E now (tock st)))) = myid (em st)"
    using defer_frame(1) [of E _ "tock st"] by (metis core_eqD core_def estate_simps(9))
  then show ?thesis
    using become_leaver_core [of E "snd (defer_USE E (env_time E (tick st)) (tock st))"]
    by (auto simp: member_ping_def time0_def Let_def case_prod_unfold)
qed

lemma ping_frame [simp]:
  "elog (em (member_ping E st)) = elog (em st)" "ident (member_ping E st) = ident st"
proof -
  have "ident (tock st) = ident st" by (simp add: ident_def)
  then show "elog (em (member_ping E st)) = elog (em st)" "ident (member_ping E st) = ident st"
    by (simp_all add: member_ping_def time0_def Let_def case_prod_unfold)
qed

subsection \<open>The invariant\<close>

definition core_inv :: "election_step \<times> int \<times> int \<times> string option \<Rightarrow> bool" where
  "core_inv c =
     (case c of (s, i, mi, u) \<Rightarrow>
        -1 \<le> i \<and>
        (case s of
           STEP_NONE \<Rightarrow> i = -1 \<and> mi = -1 \<and> u = None
         | STEP_CANDREQ \<Rightarrow> i = -1 \<and> mi = -1 \<and> u = None
         | STEP_CANDOK \<Rightarrow> 0 \<le> i \<and> mi = -1 \<and> u = None
         | STEP_LEAVING \<Rightarrow> mi = -1 \<and> u = None
         | STEP_FAILED \<Rightarrow> mi = -1 \<and> u = None
         | STEP_PRELEAD \<Rightarrow> 0 \<le> i \<and> mi = i \<and> u = None
         | STEP_LEADER \<Rightarrow> 0 \<le> i \<and> mi = i \<and> u = None
         | STEP_PRELOST \<Rightarrow> 0 \<le> mi \<and> mi < i
         | STEP_LOST \<Rightarrow> 0 \<le> mi \<and> mi < i \<and> u \<noteq> None))"

definition member_inv :: "election_member \<Rightarrow> bool" where
  "member_inv m \<longleftrightarrow> core_inv (core m) \<and> length (elog m) = EVENTLOG_SIZE"

text \<open>The arguments the completions give to the two events that carry sequence numbers.\<close>

definition event_ok :: "event \<Rightarrow> bool" where
  "event_ok evt =
     (case evt of
        E_CREATE_OK i \<Rightarrow> 0 \<le> i
      | E_LIST_OK l \<Rightarrow> sorted l \<and> (\<forall>i \<in> set l. 0 \<le> i)
      | _ \<Rightarrow> True)"

text \<open>The outcomes that keep the invariant, whatever comes before.\<close>

lemma core_inv_outcomes:
  "-1 \<le> i \<Longrightarrow> s \<in> {STEP_LEAVING, STEP_FAILED} \<Longrightarrow> core_inv (s, i, -1, None)"
  "0 \<le> i \<Longrightarrow> s \<in> {STEP_CANDOK, STEP_FAILED} \<Longrightarrow> core_inv (s, i, -1, None)"
  "s \<in> {STEP_NONE, STEP_CANDREQ, STEP_FAILED} \<Longrightarrow> core_inv (s, -1, -1, None)"
  by (auto simp: core_inv_def)

lemma core_inv_myid: "core_inv (core m) \<Longrightarrow> -1 \<le> myid m"
  by (simp add: core_inv_def core_def)

lemma leaver_inv: "core_inv (core (em st)) \<Longrightarrow> core_inv (core (em (become_leaver E st)))"
  using become_leaver_core [of E st] core_inv_outcomes(1) core_inv_myid by metis

lemma candidate_inv: "0 \<le> myid (em st) \<Longrightarrow> core_inv (core (em (become_candidate E st)))"
  using become_candidate_core [of E st] core_inv_outcomes(2) by metis

lemma restart_inv: "core_inv (core (em st)) \<Longrightarrow> core_inv (core (em (restart_election E st)))"
  using restart_election_core [of st E] core_inv_outcomes(1,3) core_inv_myid by metis

lemma ping_inv: "core_inv (core (em st)) \<Longrightarrow> core_inv (core (em (member_ping E st)))"
  using ping_core [of E st] core_inv_outcomes(1) core_inv_myid by metis

lemma reset_failed_inv: "core_inv (core (em (member_set_status E STEP_FAILED (member_reset st))))"
  by (simp add: core_inv_def)

lemma reset_none_inv: "core_inv (core (em (member_set_status E STEP_NONE (member_reset st))))"
  by (simp add: core_inv_def)

lemma core_myid: "core m = core m' \<Longrightarrow> myid m = myid m'"
  and core_step: "core m = core m' \<Longrightarrow> step m = step m'"
  by (simp_all add: core_def)

lemma stale_core:
  "core (em (restart_GETVERS_if_stale E st)) = core (em st) \<or>
   (\<exists>s \<in> {STEP_LEAVING, STEP_FAILED}. core (em (restart_GETVERS_if_stale E st)) = (s, myid (em st), -1, None))"
proof -
  have p: "em (snd (member_pending_for_too_long E st)) = em st"
    by (simp add: member_pending_for_too_long_def gtv_init_ago_def g_get_current_time_def Let_def
        split: election_step.split)
  show ?thesis
    using ping_core [of E "snd (member_pending_for_too_long E st)"]
    by (auto simp: restart_GETVERS_if_stale_def Let_def case_prod_unfold touch_em p)
qed

lemma stale_frame [simp]:
  "elog (em (restart_GETVERS_if_stale E st)) = elog (em st)"
  "ident (restart_GETVERS_if_stale E st) = ident st"
proof -
  let ?p = "snd (member_pending_for_too_long E st)"
  have p: "em ?p = em st" "mg ?p = mg st"
    by (simp_all add: member_pending_for_too_long_def gtv_init_ago_def g_get_current_time_def Let_def
        split: election_step.split)
  then have i: "ident ?p = ident st" by (simp add: ident_def)
  have t: "\<And>s. ident (member_touch E s) = ident s" "\<And>s. elog (em (member_touch E s)) = elog (em s)"
    by (simp_all add: ident_def touch_em)
  show "elog (em (restart_GETVERS_if_stale E st)) = elog (em st)"
    "ident (restart_GETVERS_if_stale E st) = ident st"
    by (simp_all add: restart_GETVERS_if_stale_def Let_def case_prod_unfold p i t)
qed

lemma stale_inv: "core_inv (core (em st)) \<Longrightarrow> core_inv (core (em (restart_GETVERS_if_stale E st)))"
  using stale_core [of E st] core_inv_outcomes(1) core_inv_myid by metis

subsection \<open>Every event keeps it\<close>

lemma set_status_core_inv:
  "core_inv (s, snd (core (em st))) \<Longrightarrow> core_inv (core (em (member_set_status E s st)))"
  by simp

lemma finish_PRELOST_inv:
  assumes "core_inv (core (em st))" and "step (em st) = STEP_PRELOST"
  shows "core_inv (core (em (member_finish_PRELOST E st)))"
proof -
  let ?u = "upd (\<lambda>m. m\<lparr>errors_GETVERS := 0, concurrent_GETVERS := 0\<rparr>) st"
  have u: "core_inv (core (em ?u))" using assms by simp
  have "master_url (em ?u) \<noteq> None \<Longrightarrow> core_inv (core (em (member_set_status E STEP_LOST ?u)))"
    using assms by (auto simp: core_inv_def core_def set_status_em)
  then show ?thesis
    using assms(1) u leaver_inv [OF u, of E] reset_core(4) [of ?u]
    unfolding member_finish_PRELOST_def Let_def by (simp del: estate_simps)
qed

lemma finish_PRELOST_frame [simp]:
  "elog (em (member_finish_PRELOST E st)) = elog (em st)" "ident (member_finish_PRELOST E st) = ident st"
proof -
  have "ident (upd (\<lambda>m. m\<lparr>errors_GETVERS := 0, concurrent_GETVERS := 0\<rparr>) st) = ident st"
    by (simp add: ident_def)
  then show "elog (em (member_finish_PRELOST E st)) = elog (em st)"
    "ident (member_finish_PRELOST E st) = ident st"
    by (simp_all add: member_finish_PRELOST_def Let_def)
qed

lemma finish_PRELEAD_inv:
  assumes "core_inv (core (em st))" and "step (em st) = STEP_PRELEAD"
  shows "core_inv (core (em (member_finish_PRELEAD E st)))"
proof -
  let ?u = "upd (\<lambda>m. m\<lparr>errors_GETVERS := 0, concurrent_GETVERS := 0\<rparr>) st"
  have u: "core_inv (core (em ?u))" using assms by simp
  have "core_inv (core (em (member_set_status E STEP_LEADER ?u)))"
    using assms by (auto simp: core_inv_def core_def set_status_em)
  then show ?thesis
    using assms(1) u leaver_inv [OF u, of E]
    unfolding member_finish_PRELEAD_def Let_def by (simp del: estate_simps)
qed

lemma finish_PRELEAD_frame [simp]:
  "elog (em (member_finish_PRELEAD E st)) = elog (em st)" "ident (member_finish_PRELEAD E st) = ident st"
proof -
  have "ident (upd (\<lambda>m. m\<lparr>errors_GETVERS := 0, concurrent_GETVERS := 0\<rparr>) st) = ident st"
    by (simp add: ident_def)
  then show "elog (em (member_finish_PRELEAD E st)) = elog (em st)"
    "ident (member_finish_PRELEAD E st) = ident st"
    by (simp_all add: member_finish_PRELEAD_def Let_def)
qed

lemma manage_list_inv:
  assumes inv: "core_inv (core (em st))" and s: "step (em st) = STEP_CANDOK"
    and l: "sorted i64v" "\<forall>i \<in> set i64v. 0 \<le> i"
  shows "core_inv (core (em (manage_list E i64v st)))"
proof -
  let ?c = "member_set_status E STEP_CANDOK st"
  have c: "core (em ?c) = core (em st)" using s by (simp add: core_def set_status_em)
  have i: "0 \<le> myid (em st)" "master_id (em st) = -1" "master_url (em st) = None"
    using inv s by (auto simp: core_inv_def core_def)
  have m: "myid (em ?c) = myid (em st)" "master_id (em ?c) = -1"
    using c i by (simp_all add: core_def)
  show ?thesis
  proof (cases "member_in_group (em ?c) i64v")
    case False
    then show ?thesis
      using restart_inv [of ?c E] c inv by (simp add: manage_list_def Let_def)
  next
    case True
    then have "myid (em st) \<in> set i64v"
      using m by (auto simp: member_in_group_def list_ex_iff split: if_splits)
    then obtain x xs where x: "i64v = x # xs" by (cases i64v) auto
    have x0: "0 \<le> x" "x \<le> myid (em st)" using l x \<open>myid (em st) \<in> set i64v\<close> by auto
    show ?thesis
    proof (cases "member_group_master (em ?c) i64v")
      case lead: True
      have "core (em (member_set_status E STEP_PRELEAD (member_set_master_id (myid (em st)) ?c))) =
          (STEP_PRELEAD, myid (em st), myid (em st), None)"
        using m i by simp
      then show ?thesis
        using True lead m i by (simp add: manage_list_def Let_def core_inv_def)
    next
      case no: False
      let ?p = "member_set_status E STEP_PRELOST (member_set_master_id x ?c)"
      have p: "core (em ?p) = (STEP_PRELOST, myid (em st), x, None)"
        using m x0 by simp
      have "x \<noteq> myid (em st)" using no m i x by (simp add: member_group_master_def)
      then have pi: "core_inv (core (em ?p))" using p x0 by (simp add: core_inv_def)
      have "core (em (snd (step_AskMaster_start E ?p))) = core (em ?p)" by simp
      then show ?thesis
        using True no x pi leaver_inv [of "snd (step_AskMaster_start E ?p)" E]
        by (simp add: manage_list_def Let_def case_prod_unfold del: reset_core)
    qed
  qed
qed

lemma manage_list_frame [simp]:
  "elog (em (manage_list E l st)) = elog (em st)" "ident (manage_list E l st) = ident st"
  by (simp_all add: manage_list_def Let_def case_prod_unfold)

lemma common_core:
  "fst (transition_common E evt st) \<longleftrightarrow> evt = E_DISCONNECTED"
  "evt \<noteq> E_DISCONNECTED \<Longrightarrow> core (em (snd (transition_common E evt st))) = core (em st)"
  "elog (em (snd (transition_common E evt st))) = elog (em st)"
  "ident (snd (transition_common E evt st)) = ident st"
  by (cases evt; simp add: transition_common_def ident_def Let_def;
      use reset_ident(3) [of st] in \<open>simp add: ident_def set_status_em\<close>)+

lemma in_NONE_inv: "core_inv (core (em st)) \<Longrightarrow> core_inv (core (em (in_NONE E evt st)))"
  by (simp add: in_NONE_def restart_inv)

lemma in_CANDREQ_inv:
  assumes inv: "core_inv (core (em st))" and s: "step (em st) = STEP_CANDREQ" and ok: "event_ok evt"
  shows "core_inv (core (em (in_CANDREQ E evt st)))"
proof -
  have f: "core_inv (core (em (member_set_status E STEP_FAILED st)))"
    using inv s by (auto simp: core_inv_def core_def set_status_em)
  show ?thesis
  proof (cases evt)
    case (E_CREATE_OK i)
    let ?w = "step_WatchNode_start E (member_set_id i st)"
    have i: "0 \<le> i" using ok E_CREATE_OK by (simp add: event_ok_def)
    have "core (em (member_set_id i st)) = (STEP_CANDREQ, i, -1, None)"
      using inv s by (simp add: member_set_id_def core_def core_inv_def)
    then have w: "core (em (snd ?w)) = (STEP_CANDREQ, i, -1, None)" by simp
    have "core_inv (core (em (member_set_status E STEP_FAILED (snd ?w))))"
      unfolding reset_core(5) w using i by (simp add: core_inv_def)
    moreover have "core_inv (core (em (become_candidate E (snd ?w))))"
      using i w by (intro candidate_inv) (simp add: core_def)
    ultimately show ?thesis
      unfolding in_CANDREQ_def E_CREATE_OK Let_def by (simp add: case_prod_unfold del: reset_core)
  qed (use inv f leaver_inv [OF inv] in \<open>simp_all add: in_CANDREQ_def del: reset_core(5)\<close>)
qed

lemma in_CANDOK_inv:
  assumes inv: "core_inv (core (em st))" and s: "step (em st) = STEP_CANDOK" and ok: "event_ok evt"
  shows "core_inv (core (em (in_CANDOK E evt st)))"
proof -
  have "0 \<le> myid (em st)" using inv s by (simp add: core_inv_def core_def)
  then show ?thesis
    using inv leaver_inv [OF inv] ping_inv [OF inv] candidate_inv manage_list_inv [OF inv s] ok
    by (cases evt) (simp_all add: in_CANDOK_def event_ok_def)
qed

lemma concerned_upd_inv:
  assumes "core_inv (core (em st))" and "step (em st) = s"
  shows "core_inv (core (em (snd (member_concerned_by_GETVERS r st))))"
    and "step (em (snd (member_concerned_by_GETVERS r st))) = s"
    and "myid (em (snd (member_concerned_by_GETVERS r st))) = myid (em st)"
  using assms core_step core_myid concerned_frame(1) by (metis, metis, metis)

lemma in_PRELOST_inv:
  assumes inv: "core_inv (core (em st))" and s: "step (em st) = STEP_PRELOST"
  shows "core_inv (core (em (in_PRELOST E evt st)))"
proof -
  have i: "0 \<le> myid (em st)" using inv s by (simp add: core_inv_def core_def)
  note c = concerned_upd_inv [OF inv s]
  have url: "\<And>u. core_inv (core (em (member_set_master_url (Some u) st)))"
    "\<And>u. step (em (member_set_master_url (Some u) st)) = STEP_PRELOST"
    using inv s by (simp_all add: core_inv_def core_def member_set_master_url_def)
  have lost: "master_url (em st) \<noteq> None \<Longrightarrow> core_inv (core (em (member_set_status E STEP_LOST st)))"
    using inv s by (auto simp: core_inv_def core_def set_status_em)
  show ?thesis
    using inv leaver_inv [OF inv] stale_inv [OF inv] candidate_inv [OF i] finish_PRELOST_inv [OF url] c lost
    by (cases evt) (simp_all add: in_PRELOST_def case_prod_unfold Let_def finish_PRELOST_inv del: reset_core(5))
qed

lemma in_PRELEAD_inv:
  assumes inv: "core_inv (core (em st))" and s: "step (em st) = STEP_PRELEAD"
  shows "core_inv (core (em (in_PRELEAD E evt st)))"
proof -
  have i: "0 \<le> myid (em st)" using inv s by (simp add: core_inv_def core_def)
  show ?thesis
    using inv leaver_inv [OF inv] stale_inv [OF inv] candidate_inv [OF i] concerned_upd_inv [OF inv s] leaver_inv
    by (cases evt) (simp_all add: in_PRELEAD_def case_prod_unfold Let_def finish_PRELEAD_inv)
qed

lemma in_LEAVING_inv:
  "core_inv (core (em st)) \<Longrightarrow> core_inv (core (em (in_LEAVING E evt st)))"
  using leaver_inv [of st E] reset_none_inv [of E st]
  by (cases evt) (simp_all add: in_LEAVING_def del: reset_core(5))

lemma in_LOST_inv:
  assumes inv: "core_inv (core (em st))" and s: "step (em st) = STEP_LOST"
  shows "core_inv (core (em (in_LOST E evt st)))"
proof -
  have i: "0 \<le> myid (em st)" using inv s by (simp add: core_inv_def core_def)
  have "core_inv (core (em (member_set_status E STEP_PRELOST (upd (\<lambda>m. m\<lparr>requested_PIPEFROM := True\<rparr>) st))))"
    using inv s by (auto simp: core_inv_def core_def set_status_em)
  then show ?thesis
    using inv leaver_inv [OF inv] ping_inv [OF inv] candidate_inv [OF i]
    by (cases evt) (simp_all add: in_LOST_def manage_deleted_def del: reset_core(5))
qed

lemma in_LEADER_inv:
  "core_inv (core (em st)) \<Longrightarrow> core_inv (core (em (in_LEADER E evt st)))"
  using leaver_inv [of st E] ping_inv [of st E]
  by (cases evt) (simp_all add: in_LEADER_def manage_deleted_def)

lemma in_FAILED_inv:
  assumes inv: "core_inv (core (em st))"
  shows "core_inv (core (em (in_FAILED E evt st)))"
proof -
  have p: "em (snd (member_failed_for_too_long E st)) = em st"
    by (simp add: member_failed_for_too_long_def gtv_init_ago_def g_get_current_time_def Let_def)
  show ?thesis
    using inv restart_inv [of "member_RESYNC_if_not_pending st" E] reset_failed_inv [of E st]
      restart_inv [of "snd (member_failed_for_too_long E st)" E]
      ping_inv [of "snd (member_failed_for_too_long E st)" E]
    by (cases evt) (simp_all add: in_FAILED_def case_prod_unfold Let_def p del: reset_core(5))
qed

lemmas in_invs = in_NONE_inv in_CANDREQ_inv in_CANDOK_inv in_PRELOST_inv in_PRELEAD_inv in_LEAVING_inv
  in_LOST_inv in_LEADER_inv in_FAILED_inv

lemma transition_step_inv:
  assumes inv: "core_inv (core (em st))" and ok: "event_ok evt"
  shows "core_inv (core (em (transition_step E evt st)))"
proof (cases "evt = E_DISCONNECTED")
  case True
  then show ?thesis
    using reset_failed_inv [of E st] by (simp add: transition_step_def transition_common_def del: reset_core(5))
next
  case False
  let ?c = "snd (transition_common E evt st)"
  have c: "core (em ?c) = core (em st)" using common_core(2) [OF False] .
  then have ci: "core_inv (core (em ?c))" using inv by simp
  have "transition_step E evt st =
      (case step (em ?c) of
                STEP_NONE \<Rightarrow> in_NONE E evt ?c
              | STEP_CANDREQ \<Rightarrow> in_CANDREQ E evt ?c
              | STEP_CANDOK \<Rightarrow> in_CANDOK E evt ?c
              | STEP_PRELOST \<Rightarrow> in_PRELOST E evt ?c
              | STEP_PRELEAD \<Rightarrow> in_PRELEAD E evt ?c
              | STEP_LEAVING \<Rightarrow> in_LEAVING E evt ?c
              | STEP_LOST \<Rightarrow> in_LOST E evt ?c
              | STEP_LEADER \<Rightarrow> in_LEADER E evt ?c
              | STEP_FAILED \<Rightarrow> in_FAILED E evt ?c)"
    using False common_core(1) [of E evt st] by (simp add: transition_step_def case_prod_unfold Let_def)
  then show ?thesis
    using in_invs [OF ci] ok by (cases "step (em ?c)") simp_all
qed

lemma in_elog [simp]:
  "elog (em (in_NONE E evt st)) = elog (em st)" "elog (em (in_CANDREQ E evt st)) = elog (em st)"
  "elog (em (in_CANDOK E evt st)) = elog (em st)" "elog (em (in_PRELOST E evt st)) = elog (em st)"
  "elog (em (in_PRELEAD E evt st)) = elog (em st)" "elog (em (in_LEAVING E evt st)) = elog (em st)"
  "elog (em (in_LOST E evt st)) = elog (em st)" "elog (em (in_LEADER E evt st)) = elog (em st)"
  "elog (em (in_FAILED E evt st)) = elog (em st)"
  by (cases evt; simp add: in_NONE_def in_CANDREQ_def in_CANDOK_def in_PRELOST_def in_PRELEAD_def
      in_LEAVING_def in_LOST_def in_LEADER_def in_FAILED_def manage_deleted_def member_set_id_def
      member_failed_for_too_long_def gtv_init_ago_def g_get_current_time_def case_prod_unfold Let_def)+

lemma ident_upd:
  "ident (upd f st) = ident st \<longleftrightarrow>
     key (f (em st)) = key (em st) \<and> name (f (em st)) = name (em st) \<and> ntype (f (em st)) = ntype (em st)"
  by (simp add: ident_def)

lemma ident_upds [simp]:
  "ident (upd (\<lambda>m. m\<lparr>concurrent_GETVERS := f1 m\<rparr>) st) = ident st"
  "ident (upd (\<lambda>m. m\<lparr>errors_GETVERS := f2 m\<rparr>) st) = ident st"
  "ident (upd (\<lambda>m. m\<lparr>requested_USE := f3 m\<rparr>) st) = ident st"
  "ident (upd (\<lambda>m. m\<lparr>requested_PIPEFROM := f4 m\<rparr>) st) = ident st"
  "ident (upd (\<lambda>m. m\<lparr>myid := f5 m\<rparr>) st) = ident st"
  "ident (upd (\<lambda>m. m\<lparr>refcount := f6 m\<rparr>) st) = ident st"
  "ident (tock st) = ident st" "ident (emit a st) = ident st"
  by (simp_all add: ident_def)

lemma in_ident [simp]:
  "ident (in_NONE E evt st) = ident st" "ident (in_CANDREQ E evt st) = ident st"
  "ident (in_CANDOK E evt st) = ident st" "ident (in_PRELOST E evt st) = ident st"
  "ident (in_PRELEAD E evt st) = ident st" "ident (in_LEAVING E evt st) = ident st"
  "ident (in_LOST E evt st) = ident st" "ident (in_LEADER E evt st) = ident st"
  "ident (in_FAILED E evt st) = ident st"
  by (cases evt; simp add: in_NONE_def in_CANDREQ_def in_CANDOK_def in_PRELOST_def in_PRELEAD_def
      in_LEAVING_def in_LOST_def in_LEADER_def in_FAILED_def manage_deleted_def member_set_id_def
      member_failed_for_too_long_def gtv_init_ago_def g_get_current_time_def case_prod_unfold Let_def)+

lemma step_frame [simp]:
  "elog (em (transition_step E evt st)) = elog (em st)" "ident (transition_step E evt st) = ident st"
  using common_core(3,4) [of E evt st]
  by (simp_all add: transition_step_def case_prod_unfold Let_def split: election_step.split)

text \<open>The transition: the step, then the bookkeeping.\<close>

definition after_step :: "env \<Rightarrow> election_step \<Rightarrow> event \<Rightarrow> estate \<Rightarrow> estate" where
  "after_step E pre evt st =
     (let st = (if evt \<noteq> E_NONE \<or> pre \<noteq> step (em st) then member_log_event pre (evt_type evt) st else st)
      in if requested_PIPEFROM (em st) \<and> master_url (em st) \<noteq> None then defer_PIPEFROM E st else st)"

lemma transition_after_step:
  "transition E evt st =
     (let st' = after_step E (step (em st)) evt (transition_step E evt st)
      in if requested_USE (em st') \<and> step (em st') = STEP_NONE then restart_election E st' else st')"
  unfolding transition_def after_step_def Let_def by (rule refl)

lemma after_step_frame [simp]:
  "core (em (after_step E pre evt st)) = core (em st)"
  "length (elog (em (after_step E pre evt st))) = length (elog (em st))"
  "ident (after_step E pre evt st) = ident st"
  by (simp_all add: after_step_def member_log_event_def Let_def ident_upd)

lemma transition_core:
  "core (em (transition E evt st)) = core (em (transition_step E evt st)) \<or>
   step (em (transition_step E evt st)) = STEP_NONE \<and>
     step (em (transition E evt st)) \<in> {STEP_NONE, STEP_CANDREQ, STEP_FAILED, STEP_LEAVING}"
proof -
  let ?a = "after_step E (step (em st)) evt (transition_step E evt st)"
  have c: "core (em ?a) = core (em (transition_step E evt st))" by simp
  show ?thesis
  proof (cases "requested_USE (em ?a) \<and> step (em ?a) = STEP_NONE")
    case True
    then have t: "transition E evt st = restart_election E ?a" by (simp add: transition_after_step Let_def)
    have "step (em (restart_election E ?a)) \<in> {STEP_NONE, STEP_CANDREQ, STEP_FAILED, STEP_LEAVING}"
      using restart_election_core [of ?a E] core_eqD by fast
    with True core_step [OF c] t show ?thesis by simp
  next
    case False
    then have "transition E evt st = ?a" by (auto simp: transition_after_step Let_def)
    with c show ?thesis by simp
  qed
qed

lemma transition_inv:
  assumes "member_inv (em st)" and "event_ok evt"
  shows "member_inv (em (transition E evt st))"
proof -
  let ?s = "after_step E (step (em st)) evt (transition_step E evt st)"
  have "core_inv (core (em ?s))" and l: "length (elog (em ?s)) = EVENTLOG_SIZE"
    using transition_step_inv [of st evt E] assms by (simp_all add: member_inv_def)
  with restart_inv [of ?s E] l show ?thesis
    by (simp add: transition_after_step member_inv_def Let_def)
qed

lemma transition_ident [simp]: "ident (transition E evt st) = ident st"
  by (simp add: transition_after_step Let_def)

end
