(* ===== verification/Election_Properties.thy ===== *)
theory Election_Properties
  imports Election_Invariants
begin

section \<open>Properties of an election member\<close>

text \<open>
  The inputs a member receives from its environment (completions, watchers, replies, requests
  of the service) as one machine, its invariant over all runs, the graph of the steps, and
  the behaviour of the election proper: who leads, on which replies, what is ignored, what
  a disconnection does, and what the event log shows.
\<close>

subsection \<open>Inputs\<close>

datatype input =
    I_Kickoff
  | I_Resync
  | I_Exit
  | I_Create int "string option"
  | I_List int "string list"
  | I_Leave int
  | I_WatchNode int
  | I_Master int "string option"
  | I_MasterChange
  | I_NodeChange
  | I_Use u32
  | I_Pipefrom
  | I_Getvers u32 "gerror option" "versions option"

text \<open>Each input runs the handler of the source; \<open>None\<close> is the end of the process.\<close>

fun handle_input :: "env \<Rightarrow> input \<Rightarrow> estate \<Rightarrow> estate option" where
  "handle_input E I_Kickoff st = Some (member_kickoff E st)"
| "handle_input E I_Resync st = Some (transition E E_RESYNC_REQ st)"
| "handle_input E I_Exit st = Some (transition E E_EXITING st)"
| "handle_input E (I_Create zrc path) st = step_StartElection_completion E zrc path st"
| "handle_input E (I_List zrc sv) st = step_ListGroup_completion E zrc sv st"
| "handle_input E (I_Leave zrc) st = step_LeaveElection_completion E zrc st"
| "handle_input E (I_WatchNode zrc) st = step_WatchNode_completion E zrc st"
| "handle_input E (I_Master zrc v) st = step_AskMaster_completion E zrc v st"
| "handle_input E I_MasterChange st = Some (step_WatchMaster_change E st)"
| "handle_input E I_NodeChange st = Some (step_WatchNode_change E st)"
| "handle_input E (I_Use reqid) st = Some (on_end_USE E reqid st)"
| "handle_input E I_Pipefrom st = Some (on_end_PIPEFROM E st)"
| "handle_input E (I_Getvers reqid err v) st = Some (on_end_GETVERS E reqid err v st)"

definition handle_alive :: "env \<Rightarrow> input \<Rightarrow> estate option \<Rightarrow> estate option" where
  "handle_alive E i st = (case st of None \<Rightarrow> None | Some s \<Rightarrow> handle_input E i s)"

text \<open>Numbers read after the last dash have no sign: they are not negative.\<close>

lemma clamp64_nonneg: "0 \<le> i \<Longrightarrow> 0 \<le> clamp64 i"
  by (simp add: clamp64_def le_max_iff_disj)

lemma strtoll_no_minus: "CHR ''-'' \<notin> set s \<Longrightarrow> 0 \<le> strtoll s"
proof -
  assume n: "CHR ''-'' \<notin> set s"
  have "set (dropWhile is_space s) \<subseteq> set s" by (meson set_dropWhileD subsetI)
  with n have n: "CHR ''-'' \<notin> set (dropWhile is_space s)" by blast
  have d: "\<And>t. 0 \<le> clamp64 (digits_val 0 t)" using digits_val_ge clamp64_nonneg by simp
  show ?thesis
  proof (cases "dropWhile is_space s")
    case Nil
    then show ?thesis unfolding strtoll_def by (simp del: dropWhile_eq_Nil_conv)
  next
    case (Cons c cs)
    with n have "c \<noteq> CHR ''-''" by auto
    with Cons d show ?thesis by (simp add: strtoll_def del: digits_val.simps)
  qed
qed

lemma after_last_no_char: "after_last c s = Some t \<Longrightarrow> c \<notin> set t"
  by (auto simp: after_last_def split: if_splits dest: set_takeWhileD)

lemma nodev_ok: "sorted (nodev_to_int64v sv p)" "\<forall>i \<in> set (nodev_to_int64v sv p). 0 \<le> i"
  using strtoll_no_minus after_last_no_char
  by (auto simp: nodev_to_int64v_def map_filter_def split: if_splits option.splits)

lemma unref_em: "em (member_unref st) = (em st)\<lparr>refcount := refcount (em st) - 1\<rparr>"
  by (simp add: member_unref_def)

lemma unref_inv [simp]: "member_inv (em (member_unref st)) = member_inv (em st)"
  by (simp add: member_inv_def unref_em)

lemma transition_error_inv:
  "transition_error E evt zrc st = Some st' \<Longrightarrow> event_ok evt \<Longrightarrow> member_inv (em st) \<Longrightarrow> member_inv (em st')"
  by (auto simp: transition_error_def event_ok_def intro: transition_inv split: if_splits)

lemma transition_simple_inv:
  "member_inv (em st) \<Longrightarrow> event_ok evt \<Longrightarrow> member_inv (em (member_unref (transition E evt st)))"
  using transition_inv by simp

lemma decache_em [simp]: "em (member_decache_peers E st) = em st"
  by (simp add: member_decache_peers_def member_get_peers_def)

lemma event_ok_simple [simp]:
  "event_ok E_NONE" "event_ok E_CREATE_KO" "event_ok E_LIST_KO" "event_ok E_LEAVE_KO"
  "event_ok E_LEAVE_OK" "event_ok E_NODE_LEFT" "event_ok E_MASTER_KO" "event_ok E_MASTER_EMPTY"
  "event_ok (E_MASTER_OK u)" "event_ok E_MASTER_CHANGE" "event_ok E_RESYNC_REQ" "event_ok E_EXITING"
  "event_ok (E_USE_RES r)" "event_ok (E_RESYNC_DONE r)" "event_ok (E_GETVERS_OK r)"
  "event_ok (E_GETVERS_OUTDATED r)" "event_ok (E_GETVERS_CONCURRENT r)" "event_ok (E_GETVERS_ERROR r)"
  "event_ok E_DISCONNECTED" "event_ok (E_LIST_OK (nodev_to_int64v sv p))"
  using nodev_ok by (simp_all add: event_ok_def)

lemma create_ok: "after_last (CHR ''-'') p = Some s \<Longrightarrow> event_ok (E_CREATE_OK (strtoll s))"
  using after_last_no_char strtoll_no_minus by (simp add: event_ok_def)

lemma completion_inv:
  assumes "member_inv (em st)"
  shows "step_StartElection_completion E zrc path st = Some st' \<Longrightarrow> member_inv (em st')"
    and "step_ListGroup_completion E zrc sv st = Some st' \<Longrightarrow> member_inv (em st')"
    and "step_LeaveElection_completion E zrc st = Some st' \<Longrightarrow> member_inv (em st')"
    and "step_WatchNode_completion E zrc st = Some st' \<Longrightarrow> member_inv (em st')"
    and "step_AskMaster_completion E zrc v st = Some st' \<Longrightarrow> member_inv (em st')"
proof -
  have t: "\<And>evt. event_ok evt \<Longrightarrow> member_inv (em (member_unref (transition E evt st)))"
    using transition_inv [OF assms] by simp
  have e: "\<And>evt zrc z. event_ok evt \<Longrightarrow> map_option member_unref (transition_error E evt zrc st) = Some z \<Longrightarrow>
      member_inv (em z)"
    using transition_error_inv [OF _ _ assms] by fastforce
  note s = t [OF event_ok_simple(1)] t [OF event_ok_simple(2)] t [OF event_ok_simple(5)]
    t [OF event_ok_simple(6)] t [OF event_ok_simple(8)] t [OF event_ok_simple(9)] t [OF event_ok_simple(20)]
  have u: "member_inv (em (member_unref st))" using assms by simp
  show "step_StartElection_completion E zrc path st = Some st' \<Longrightarrow> member_inv (em st')"
    using e [of E_CREATE_KO zrc st'] s t [OF create_ok]
    by (auto simp: step_StartElection_completion_def Let_def simp del: unref_inv split: if_splits option.splits)
  show "step_ListGroup_completion E zrc sv st = Some st' \<Longrightarrow> member_inv (em st')"
    using e [of E_LIST_KO zrc st'] s
    by (auto simp: step_ListGroup_completion_def Let_def simp del: unref_inv split: if_splits)
  show "step_LeaveElection_completion E zrc st = Some st' \<Longrightarrow> member_inv (em st')"
    using e [of E_LEAVE_KO zrc st'] s
    by (auto simp: step_LeaveElection_completion_def Let_def simp del: unref_inv split: if_splits)
  show "step_WatchNode_completion E zrc st = Some st' \<Longrightarrow> member_inv (em st')"
    using e [of E_NONE zrc st'] s u
    by (auto simp: step_WatchNode_completion_def Let_def simp del: unref_inv split: if_splits)
  show "step_AskMaster_completion E zrc v st = Some st' \<Longrightarrow> member_inv (em st')"
    using e [of E_MASTER_KO zrc st'] s
    by (auto simp: step_AskMaster_completion_def Let_def simp del: unref_inv split: if_splits option.splits)
qed

lemma on_end_GETVERS_cases:
  "\<exists>st1 ev. on_end_GETVERS E reqid e v st = transition E ev st1 \<and> em st1 = em st \<and> mg st1 = mg st \<and>
     ev \<in> {E_GETVERS_OK reqid, E_GETVERS_OUTDATED reqid, E_GETVERS_CONCURRENT reqid, E_GETVERS_ERROR reqid}"
proof -
  define p where "p = (if e = None \<and> v \<noteq> None
             then (env_version E (tick st) (name (em st)) (ntype (em st)), tock st)
             else (Inr None, st))"
  have p: "em (snd p) = em st" "mg (snd p) = mg st" by (simp_all add: p_def)
  have d: "em (member_decache_peers E (snd p)) = em st" "mg (member_decache_peers E (snd p)) = mg st"
    using p by (simp_all add: member_decache_peers_def member_get_peers_def)
  have k: "\<And>s ev. em s = em st \<Longrightarrow> mg s = mg st \<Longrightarrow>
      ev \<in> {E_GETVERS_OK reqid, E_GETVERS_OUTDATED reqid, E_GETVERS_CONCURRENT reqid, E_GETVERS_ERROR reqid} \<Longrightarrow>
      \<exists>st1 ev'. transition E ev s = transition E ev' st1 \<and> em st1 = em st \<and> mg st1 = mg st \<and>
        ev' \<in> {E_GETVERS_OK reqid, E_GETVERS_OUTDATED reqid, E_GETVERS_CONCURRENT reqid, E_GETVERS_ERROR reqid}"
    by blast
  show ?thesis
  proof (cases "getvers_error e v (fst p)")
    case None
    then show ?thesis
      using k [of "snd p" "E_GETVERS_OK reqid"] p
      unfolding on_end_GETVERS_def p_def [symmetric] Let_def case_prod_unfold by simp
  next
    case (Some err)
    then show ?thesis
      using k [of "snd p"] k [of "member_decache_peers E (snd p)"] p d
      unfolding on_end_GETVERS_def p_def [symmetric] Let_def case_prod_unfold by (simp split: if_split)
  qed
qed

lemma handle_input_inv:
  assumes "member_inv (em st)" and "handle_input E i st = Some st'"
  shows "member_inv (em st')"
proof (cases i)
  case (I_Getvers r e v)
  obtain st1 ev where g: "on_end_GETVERS E r e v st = transition E ev st1" "em st1 = em st"
    "ev \<in> {E_GETVERS_OK r, E_GETVERS_OUTDATED r, E_GETVERS_CONCURRENT r, E_GETVERS_ERROR r}"
    using on_end_GETVERS_cases by blast
  then have "event_ok ev" by auto
  with g transition_inv [of st1 ev E] assms I_Getvers show ?thesis by auto
qed (use assms completion_inv [OF assms(1), of E] transition_inv [OF assms(1), of _ E] in
    \<open>auto simp: member_kickoff_def step_WatchMaster_change_def step_WatchNode_change_def on_end_USE_def
      on_end_PIPEFROM_def\<close>)

text \<open>The machine of the inputs keeps the invariant as long as the process lives.\<close>

interpretation member_machine: event_machine "handle_alive E" "\<lambda>_. True"
  "\<lambda>st. case st of None \<Rightarrow> True | Some s \<Rightarrow> member_inv (em s)" for E
proof unfold_locales
  fix i :: input and s :: "estate option"
  assume "case s of None \<Rightarrow> True | Some s \<Rightarrow> member_inv (em s)"
  then show "case handle_alive E i s of None \<Rightarrow> True | Some s \<Rightarrow> member_inv (em s)"
    using handle_input_inv [of _ E i] by (auto simp: handle_alive_def split: option.splits)
qed

definition fresh :: "gtimeval \<Rightarrow> string \<Rightarrow> string \<Rightarrow> hashstr \<Rightarrow> election_manager \<Rightarrow> estate" where
  "fresh now n t k mgr = \<lparr>em = member_create now n t k, mg = mgr, tick = 0, out = []\<rparr>"

lemma fresh_inv: "member_inv (em (fresh now n t k mgr))"
  by (simp add: fresh_def member_create_def member_inv_def core_def core_inv_def)

text \<open>
  A concrete environment for the instances: every call to ZooKeeper succeeds, the clock
  stands still, the peers are \<open>A\<close> and \<open>B\<close> and the local version is empty.
\<close>

definition quiet_env :: env where
  "quiet_env = \<lparr>env_now = (\<lambda>_. 0), env_time = (\<lambda>_. 1), env_zk = (\<lambda>_ _. 0),
     env_peers = (\<lambda>_ _ _ _. Inr (Some [''A'', ''B''])),
     env_version = (\<lambda>_ _ _. Inr (Some [])), env_url = ''A''\<rparr>"

definition quiet_manager :: election_manager where
  "quiet_manager = \<lparr>sync = sqlx_sync_create ''zk'', delay_max_wait = 5, delay_write_lock = 5,
     delay_restart_failed = 2, delay_max_idle = 30, delay_ping_pending = 2, delay_ping_final = 300,
     delay_ping_failed = 2, exiting = False, next_id = 0\<rparr>"

definition key_K :: hashstr where
  "key_K = hashstr_create ''KEYK''"

definition quiet_run :: "input list \<Rightarrow> estate option" where
  "quiet_run is = run_events (handle_alive quiet_env) is (Some (fresh 0 ''base'' ''type'' key_K quiet_manager))"

definition lead_inputs :: "input list" where
  "lead_inputs = [I_Kickoff, I_Create 0 (Some ''/P/KEYK-0000000003''), I_WatchNode 0,
     I_List 0 [''KEYK-0000000007'', ''KEYK-0000000003''], I_Getvers 2 None (Some []), I_Getvers 2 None (Some [])]"

lemma lead_run: "map_option (\<lambda>st. step (em st)) (quiet_run lead_inputs) = Some STEP_LEADER"
  by code_simp

lemma quiet_run_some: "map_option f (quiet_run is) = Some y \<Longrightarrow> \<exists>st. quiet_run is = Some st \<and> f st = y"
  by (cases "quiet_run is") auto

subsection \<open>The invariant over all runs\<close>

text \<open>
  C3: whatever the environment answers and in whatever order completions, watchers, replies
  and requests arrive, a member created by \<open>member_create\<close> keeps its invariant as long as
  the process lives: a candidate, a leader and a slave own a sequence number, a leader is
  its own master and knows no URL for it, a slave has a master of a lower number and knows
  its URL, every other step has forgotten the master, and the log has its sixteen slots.
\<close>

theorem member_inv_always:
  assumes "run_events (handle_alive E) is (Some (fresh now n t k mgr)) = Some st"
  shows "member_inv (em st)"
proof -
  have "case run_events (handle_alive E) is (Some (fresh now n t k mgr)) of
      None \<Rightarrow> True | Some s \<Rightarrow> member_inv (em s)"
    by (rule member_machine.run_inv) (simp_all add: fresh_inv)
  with assms show ?thesis by simp
qed

theorem member_inv_always_witness:
  "\<exists>st. quiet_run lead_inputs = Some st \<and> member_inv (em st) \<and> step (em st) = STEP_LEADER"
proof -
  obtain st where st: "quiet_run lead_inputs = Some st" "step (em st) = STEP_LEADER"
    using quiet_run_some [OF lead_run] by blast
  then show ?thesis
    using member_inv_always [OF st(1) [unfolded quiet_run_def]] by blast
qed

subsection \<open>The graph of the steps\<close>

text \<open>
  The steps every function may end in, as a set that contains them: the simplifier chains
  these rules through the definitions.
\<close>

named_theorems step_in \<open>steps a function of the member ends in\<close>

lemma leaver_step [step_in]:
  "STEP_LEAVING \<in> S \<Longrightarrow> STEP_FAILED \<in> S \<Longrightarrow> step (em (become_leaver E st)) \<in> S"
  using become_leaver_core [of E st] by (auto dest: core_eqD)

lemma candidate_step [step_in]:
  "STEP_CANDOK \<in> S \<Longrightarrow> STEP_FAILED \<in> S \<Longrightarrow> step (em (become_candidate E st)) \<in> S"
  using become_candidate_core [of E st] by (auto dest: core_eqD)

lemma restart_step [step_in]:
  "STEP_NONE \<in> S \<Longrightarrow> STEP_CANDREQ \<in> S \<Longrightarrow> STEP_FAILED \<in> S \<Longrightarrow> 0 < myid (em st) \<longrightarrow> STEP_LEAVING \<in> S \<Longrightarrow>
   step (em (restart_election E st)) \<in> S"
  using restart_election_core [of st E] by (auto dest: core_eqD)

lemma ping_step [step_in]:
  "step (em st) \<in> S \<Longrightarrow> STEP_LEAVING \<in> S \<Longrightarrow> STEP_FAILED \<in> S \<Longrightarrow> step (em (member_ping E st)) \<in> S"
  using ping_core [of E st] by (auto dest: core_eqD core_step)

lemma stale_step [step_in]:
  "step (em st) \<in> S \<Longrightarrow> STEP_LEAVING \<in> S \<Longrightarrow> STEP_FAILED \<in> S \<Longrightarrow>
   step (em (restart_GETVERS_if_stale E st)) \<in> S"
  using stale_core [of E st] by (auto dest: core_eqD core_step)

lemmas same_core_step [simp] =
  core_step [OF defer_frame(3)] core_step [OF reset_core(4)] core_step [OF concerned_frame(1)]
  core_step [OF start_core(2)]

lemma set_step [simp]:
  "step (em (member_set_status E s st)) = s"
  "step (em (member_set_master_url u st)) = step (em st)"
  "step (em (member_reset st)) = step (em st)"
  by (simp_all add: set_status_em member_set_master_url_def member_reset_def
      member_reset_pending_def member_reset_master_def)

lemma finish_PRELOST_step [step_in]:
  "step (em st) \<in> S \<Longrightarrow> STEP_LOST \<in> S \<Longrightarrow> STEP_LEAVING \<in> S \<Longrightarrow> STEP_FAILED \<in> S \<Longrightarrow>
   step (em (member_finish_PRELOST E st)) \<in> S"
  unfolding member_finish_PRELOST_def Let_def by (simp add: step_in)

lemma finish_PRELEAD_step [step_in]:
  "step (em st) \<in> S \<Longrightarrow> STEP_LEADER \<in> S \<Longrightarrow> STEP_LEAVING \<in> S \<Longrightarrow> STEP_FAILED \<in> S \<Longrightarrow>
   step (em (member_finish_PRELEAD E st)) \<in> S"
  unfolding member_finish_PRELEAD_def Let_def by (simp add: step_in)

lemma manage_list_step [step_in]:
  "STEP_NONE \<in> S \<Longrightarrow> STEP_CANDREQ \<in> S \<Longrightarrow> STEP_FAILED \<in> S \<Longrightarrow> STEP_LEAVING \<in> S \<Longrightarrow>
   STEP_PRELEAD \<in> S \<Longrightarrow> STEP_PRELOST \<in> S \<Longrightarrow> step (em (manage_list E l st)) \<in> S"
  unfolding manage_list_def Let_def case_prod_unfold by (simp add: step_in)

lemma failed_late_em: "em (snd (member_failed_for_too_long E st)) = em st"
  by (simp add: member_failed_for_too_long_def gtv_init_ago_def g_get_current_time_def Let_def)

lemmas in_defs = in_NONE_def in_CANDREQ_def in_CANDOK_def in_PRELOST_def in_PRELEAD_def
  in_LEAVING_def in_LOST_def in_LEADER_def in_FAILED_def

definition step_graph :: "election_step \<Rightarrow> election_step set" where
  "step_graph s =
     (case s of
        STEP_NONE \<Rightarrow> {STEP_NONE, STEP_CANDREQ, STEP_FAILED}
      | STEP_CANDREQ \<Rightarrow> {STEP_CANDREQ, STEP_CANDOK, STEP_LEAVING, STEP_FAILED}
      | STEP_CANDOK \<Rightarrow> {STEP_CANDOK, STEP_PRELEAD, STEP_PRELOST, STEP_CANDREQ, STEP_NONE, STEP_LEAVING, STEP_FAILED}
      | STEP_PRELOST \<Rightarrow> {STEP_PRELOST, STEP_LOST, STEP_CANDOK, STEP_LEAVING, STEP_FAILED}
      | STEP_PRELEAD \<Rightarrow> {STEP_PRELEAD, STEP_LEADER, STEP_CANDOK, STEP_LEAVING, STEP_FAILED}
      | STEP_LEAVING \<Rightarrow> {STEP_LEAVING, STEP_NONE, STEP_CANDREQ, STEP_FAILED}
      | STEP_LOST \<Rightarrow> {STEP_LOST, STEP_PRELOST, STEP_CANDOK, STEP_LEAVING, STEP_FAILED}
      | STEP_LEADER \<Rightarrow> {STEP_LEADER, STEP_LEAVING, STEP_FAILED}
      | STEP_FAILED \<Rightarrow> {STEP_FAILED, STEP_NONE, STEP_CANDREQ, STEP_LEAVING})"

lemma in_NONE_step:
  "myid (em st) \<le> 0 \<Longrightarrow> step (em st) = STEP_NONE \<Longrightarrow> {STEP_NONE, STEP_CANDREQ, STEP_FAILED} \<subseteq> S \<Longrightarrow>
   step (em (in_NONE E evt st)) \<in> S"
  by (simp add: in_NONE_def step_in)

lemma in_CANDREQ_step:
  "step (em st) = STEP_CANDREQ \<Longrightarrow> {STEP_CANDREQ, STEP_CANDOK, STEP_LEAVING, STEP_FAILED} \<subseteq> S \<Longrightarrow>
   step (em (in_CANDREQ E evt st)) \<in> S"
  by (cases evt) (simp_all add: in_CANDREQ_def step_in Let_def case_prod_unfold)

lemma in_CANDOK_step:
  "step (em st) = STEP_CANDOK \<Longrightarrow>
   {STEP_CANDOK, STEP_PRELEAD, STEP_PRELOST, STEP_CANDREQ, STEP_NONE, STEP_LEAVING, STEP_FAILED} \<subseteq> S \<Longrightarrow>
   step (em (in_CANDOK E evt st)) \<in> S"
  by (cases evt) (simp_all add: in_CANDOK_def step_in)

lemma in_PRELOST_step:
  "step (em st) = STEP_PRELOST \<Longrightarrow> {STEP_PRELOST, STEP_LOST, STEP_CANDOK, STEP_LEAVING, STEP_FAILED} \<subseteq> S \<Longrightarrow>
   step (em (in_PRELOST E evt st)) \<in> S"
  by (cases evt) (simp_all add: in_PRELOST_def step_in Let_def case_prod_unfold)

lemma in_PRELEAD_step:
  "step (em st) = STEP_PRELEAD \<Longrightarrow> {STEP_PRELEAD, STEP_LEADER, STEP_CANDOK, STEP_LEAVING, STEP_FAILED} \<subseteq> S \<Longrightarrow>
   step (em (in_PRELEAD E evt st)) \<in> S"
  by (cases evt) (simp_all add: in_PRELEAD_def step_in Let_def case_prod_unfold)

lemma in_LEAVING_step:
  "step (em st) = STEP_LEAVING \<Longrightarrow> {STEP_LEAVING, STEP_NONE, STEP_FAILED} \<subseteq> S \<Longrightarrow>
   step (em (in_LEAVING E evt st)) \<in> S"
  by (cases evt) (simp_all add: in_LEAVING_def step_in)

lemma in_LOST_step:
  "step (em st) = STEP_LOST \<Longrightarrow> {STEP_LOST, STEP_PRELOST, STEP_CANDOK, STEP_LEAVING, STEP_FAILED} \<subseteq> S \<Longrightarrow>
   step (em (in_LOST E evt st)) \<in> S"
  by (cases evt) (simp_all add: in_LOST_def step_in manage_deleted_def)

lemma in_LEADER_step:
  "step (em st) = STEP_LEADER \<Longrightarrow> {STEP_LEADER, STEP_LEAVING, STEP_FAILED} \<subseteq> S \<Longrightarrow>
   step (em (in_LEADER E evt st)) \<in> S"
  by (cases evt) (simp_all add: in_LEADER_def step_in manage_deleted_def)

lemma in_FAILED_step:
  "step (em st) = STEP_FAILED \<Longrightarrow> {STEP_FAILED, STEP_NONE, STEP_CANDREQ, STEP_LEAVING} \<subseteq> S \<Longrightarrow>
   step (em (in_FAILED E evt st)) \<in> S"
  by (cases evt) (simp_all add: in_FAILED_def step_in Let_def case_prod_unfold failed_late_em)

lemmas in_steps = in_CANDREQ_step in_CANDOK_step in_PRELOST_step in_PRELEAD_step in_LEAVING_step
  in_LOST_step in_LEADER_step in_FAILED_step

text \<open>\<open>_transition\<close> as one of the functions \<open>in_...\<close> on the state the first switch leaves.\<close>

lemma transition_step_cases:
  assumes "evt \<noteq> E_DISCONNECTED"
  shows "\<exists>c. core (em c) = core (em st) \<and> c = snd (transition_common E evt st) \<and>
    transition_step E evt st =
      (case step (em st) of
         STEP_NONE \<Rightarrow> in_NONE E evt c | STEP_CANDREQ \<Rightarrow> in_CANDREQ E evt c
       | STEP_CANDOK \<Rightarrow> in_CANDOK E evt c | STEP_PRELOST \<Rightarrow> in_PRELOST E evt c
       | STEP_PRELEAD \<Rightarrow> in_PRELEAD E evt c | STEP_LEAVING \<Rightarrow> in_LEAVING E evt c
       | STEP_LOST \<Rightarrow> in_LOST E evt c | STEP_LEADER \<Rightarrow> in_LEADER E evt c
       | STEP_FAILED \<Rightarrow> in_FAILED E evt c)"
  using common_core(1) [of E evt st] common_core(2) [OF assms, of E st] assms
    core_step [OF common_core(2) [OF assms, of E st]]
  by (simp add: transition_step_def case_prod_unfold Let_def)

lemma transition_step_graph:
  assumes "member_inv (em st)"
  shows "step (em (transition_step E evt st)) \<in>
           (if step (em st) = STEP_LEAVING then {STEP_LEAVING, STEP_NONE, STEP_FAILED}
            else step_graph (step (em st)))"
proof (cases "evt = E_DISCONNECTED")
  case True
  then have "step (em (transition_step E evt st)) = STEP_FAILED"
    by (simp add: transition_step_def transition_common_def)
  then show ?thesis by (cases "step (em st)") (simp_all add: step_graph_def)
next
  case False
  obtain c where c: "core (em c) = core (em st)" and t: "transition_step E evt st =
    (case step (em st) of
       STEP_NONE \<Rightarrow> in_NONE E evt c | STEP_CANDREQ \<Rightarrow> in_CANDREQ E evt c
     | STEP_CANDOK \<Rightarrow> in_CANDOK E evt c | STEP_PRELOST \<Rightarrow> in_PRELOST E evt c
     | STEP_PRELEAD \<Rightarrow> in_PRELEAD E evt c | STEP_LEAVING \<Rightarrow> in_LEAVING E evt c
     | STEP_LOST \<Rightarrow> in_LOST E evt c | STEP_LEADER \<Rightarrow> in_LEADER E evt c
     | STEP_FAILED \<Rightarrow> in_FAILED E evt c)"
    using transition_step_cases [OF False] by blast
  have s: "step (em c) = step (em st)" using core_step [OF c] .
  have "step (em st) = STEP_NONE \<Longrightarrow> myid (em c) \<le> 0"
    using assms core_myid [OF c] by (simp add: member_inv_def core_inv_def core_def)
  then show ?thesis
    using in_NONE_step [OF _ s [THEN trans] subset_refl, of E evt] in_steps [OF s [THEN trans] subset_refl, of E evt]
    by (cases "step (em st)") (simp_all add: t s step_graph_def)
qed

text \<open>
  C11: the graph of the steps. From every step a transition leads only to the steps of
  \<open>step_graph\<close>: a member leads only after \<open>PRELEAD\<close> and is a slave only after \<open>PRELOST\<close>, it
  gets there only from \<open>CANDOK\<close> (a slave that resynchronises apart), and a leader can only
  stay, leave or fail.
\<close>

theorem transition_in_graph:
  assumes "member_inv (em st)" and "event_ok evt"
  shows "step (em (transition E evt st)) \<in> step_graph (step (em st))"
proof -
  let ?s = "step (em (transition_step E evt st))"
  let ?a = "after_step E (step (em st)) evt (transition_step E evt st)"
  note g = transition_step_graph [OF assms(1), of E evt]
  have a: "step (em ?a) = ?s" "core (em ?a) = core (em (transition_step E evt st))"
    using core_step [OF after_step_frame(1)] by simp_all
  show ?thesis
  proof (cases "requested_USE (em ?a) \<and> ?s = STEP_NONE")
    case False
    then have "transition E evt st = ?a" by (auto simp: transition_after_step a Let_def)
    then show ?thesis using g a by (auto simp: step_graph_def split: if_splits)
  next
    case True
    then have t: "transition E evt st = restart_election E ?a"
      by (simp add: transition_after_step a Let_def)
    have "core_inv (core (em ?a))"
      using transition_step_inv [of st evt E] assms a by (simp add: member_inv_def)
    then have "myid (em ?a) \<le> 0" using True a by (simp add: core_inv_def core_def)
    then have r: "{STEP_NONE, STEP_CANDREQ, STEP_FAILED} \<subseteq> S \<Longrightarrow> step (em (restart_election E ?a)) \<in> S" for S
      by (simp add: restart_step)
    have "{STEP_NONE, STEP_CANDREQ, STEP_FAILED} \<subseteq> step_graph (step (em st))"
      using g True by (cases "step (em st)") (auto simp: step_graph_def)
    from r [OF this] show ?thesis unfolding t .
  qed
qed

theorem transition_in_graph_witness:
  "member_inv (em (fresh 0 ''base'' ''type'' key_K quiet_manager)) \<and>
   step (em (transition quiet_env E_NONE (fresh 0 ''base'' ''type'' key_K quiet_manager)))
     \<in> {STEP_NONE, STEP_CANDREQ, STEP_FAILED}"
  using transition_in_graph [OF fresh_inv, of E_NONE quiet_env 0 "''base''" "''type''" key_K quiet_manager]
    fresh_inv [of 0 "''base''" "''type''" key_K quiet_manager]
  by (simp add: step_graph_def fresh_def member_create_def)

lemma finish_PRELEAD_leads:
  assumes "step (em (member_finish_PRELEAD E st)) = STEP_LEADER" and "step (em st) \<noteq> STEP_LEADER"
  shows "\<not> member_has_action (em st) \<and> errors_GETVERS (em st) \<le> 1 \<and> concurrent_GETVERS (em st) \<le> 1"
proof -
  have l: "\<And>s. step (em (become_leaver E s)) \<noteq> STEP_LEADER"
    using leaver_step [where S = "{s. s \<noteq> STEP_LEADER}"] by simp
  show ?thesis
    using assms l by (auto simp: member_finish_PRELEAD_def Let_def word_le_nat_alt split: if_splits)
qed

lemma concerned_cases:
  "fst (member_concerned_by_GETVERS r st) \<longleftrightarrow> r = reqid_GETVERS (em st)"
  "pending_GETVERS (em (snd (member_concerned_by_GETVERS r st))) = 0 \<Longrightarrow> r = reqid_GETVERS (em st) \<Longrightarrow>
   pending_GETVERS (em st) \<le> 1"
  "pending_PIPEFROM (em (snd (member_concerned_by_GETVERS r st))) = pending_PIPEFROM (em st)"
  "requested_PIPEFROM (em (snd (member_concerned_by_GETVERS r st))) = requested_PIPEFROM (em st)"
  "errors_GETVERS (em (snd (member_concerned_by_GETVERS r st))) = errors_GETVERS (em st)"
  "concurrent_GETVERS (em (snd (member_concerned_by_GETVERS r st))) = concurrent_GETVERS (em st)"
  by (auto simp: member_concerned_by_GETVERS_def Let_def split: if_splits)

lemma in_PRELEAD_leads:
  assumes "step (em (in_PRELEAD E evt st)) = STEP_LEADER" and s: "step (em st) = STEP_PRELEAD"
  shows "evt \<in> {E_GETVERS_OK (reqid_GETVERS (em st)), E_GETVERS_CONCURRENT (reqid_GETVERS (em st)),
           E_GETVERS_ERROR (reqid_GETVERS (em st))} \<and>
    pending_GETVERS (em st) \<le> 1 \<and> \<not> pending_PIPEFROM (em st) \<and> \<not> requested_PIPEFROM (em st) \<and>
    errors_GETVERS (em st) + of_bool (evt = E_GETVERS_ERROR (reqid_GETVERS (em st))) \<le> 1 \<and>
    concurrent_GETVERS (em st) + of_bool (evt = E_GETVERS_CONCURRENT (reqid_GETVERS (em st))) \<le> 1"
proof -
  let ?S = "{s. s \<noteq> STEP_LEADER}"
  have l: "\<And>s. step (em (become_leaver E s)) \<noteq> STEP_LEADER" "\<And>s. step (em (become_candidate E s)) \<noteq> STEP_LEADER"
    "step (em (restart_GETVERS_if_stale E st)) \<noteq> STEP_LEADER"
    using leaver_step [where S = ?S] candidate_step [where S = ?S] stale_step [where S = ?S] s by simp_all
  show ?thesis
  proof (cases evt)
    case (E_GETVERS_OK r)
    let ?c = "snd (member_concerned_by_GETVERS r st)"
    have "r = reqid_GETVERS (em st)" "step (em (member_finish_PRELEAD E ?c)) = STEP_LEADER"
      using assms E_GETVERS_OK by (auto simp: in_PRELEAD_def Let_def case_prod_unfold concerned_cases(1) split: if_splits)
    with finish_PRELEAD_leads [of E ?c] concerned_cases [of r st] s E_GETVERS_OK show ?thesis
      by (simp add: member_has_action_def)
  next
    case (E_GETVERS_CONCURRENT r)
    let ?c = "upd (\<lambda>m. m\<lparr>concurrent_GETVERS := concurrent_GETVERS m + 1\<rparr>) (snd (member_concerned_by_GETVERS r st))"
    have "r = reqid_GETVERS (em st)" "step (em (member_finish_PRELEAD E ?c)) = STEP_LEADER"
      using assms E_GETVERS_CONCURRENT
      by (auto simp: in_PRELEAD_def Let_def case_prod_unfold concerned_cases(1) split: if_splits)
    with finish_PRELEAD_leads [of E ?c] concerned_cases [of r st] s E_GETVERS_CONCURRENT show ?thesis
      by (simp add: member_has_action_def)
  next
    case (E_GETVERS_ERROR r)
    let ?c = "upd (\<lambda>m. m\<lparr>errors_GETVERS := errors_GETVERS m + 1\<rparr>) (snd (member_concerned_by_GETVERS r st))"
    have "r = reqid_GETVERS (em st)" "step (em (member_finish_PRELEAD E ?c)) = STEP_LEADER"
      using assms E_GETVERS_ERROR
      by (auto simp: in_PRELEAD_def Let_def case_prod_unfold concerned_cases(1) split: if_splits)
    with finish_PRELEAD_leads [of E ?c] concerned_cases [of r st] s E_GETVERS_ERROR show ?thesis
      by (simp add: member_has_action_def)
  qed (use assms l in \<open>simp_all add: in_PRELEAD_def case_prod_unfold Let_def split: if_splits\<close>)
qed

text \<open>
  C10: a member becomes the leader of its base only from \<open>PRELEAD\<close>, on a reply to its current
  version request that reports no missed update, once no reply is missing any more, with no
  resynchronisation requested or running, and with at most one peer in error and at most one
  with concurrent changes, the reply itself included.
\<close>

theorem leader_entry:
  assumes "member_inv (em st)" and "event_ok evt"
    and "step (em (transition E evt st)) = STEP_LEADER" and "step (em st) \<noteq> STEP_LEADER"
  shows "step (em st) = STEP_PRELEAD \<and> master_id (em st) = myid (em st) \<and>
    evt \<in> {E_GETVERS_OK (reqid_GETVERS (em st)), E_GETVERS_CONCURRENT (reqid_GETVERS (em st)),
           E_GETVERS_ERROR (reqid_GETVERS (em st))} \<and>
    pending_GETVERS (em st) \<le> 1 \<and> \<not> pending_PIPEFROM (em st) \<and> \<not> requested_PIPEFROM (em st) \<and>
    errors_GETVERS (em st) + of_bool (evt = E_GETVERS_ERROR (reqid_GETVERS (em st))) \<le> 1 \<and>
    concurrent_GETVERS (em st) + of_bool (evt = E_GETVERS_CONCURRENT (reqid_GETVERS (em st))) \<le> 1"
proof -
  have t: "step (em (transition_step E evt st)) = STEP_LEADER"
    using transition_core [of E evt st] assms(3) by (auto dest: core_step)
  have s: "step (em st) = STEP_PRELEAD"
    using transition_step_graph [OF assms(1), of E evt] t assms(4)
    by (cases "step (em st)") (auto simp: step_graph_def)
  have m: "master_id (em st) = myid (em st)"
    using assms(1) s by (simp add: member_inv_def core_inv_def core_def)
  have d: "evt \<noteq> E_DISCONNECTED" using t by (auto simp: transition_step_def transition_common_def)
  obtain c where c: "core (em c) = core (em st)" "c = snd (transition_common E evt st)"
    "transition_step E evt st = in_PRELEAD E evt c"
    using transition_step_cases [OF d, of st E] unfolding s by auto
  have "step (em (in_PRELEAD E evt c)) = STEP_LEADER" "step (em c) = STEP_PRELEAD"
    using t s c(3) core_step [OF c(1)] by simp_all
  note lead = in_PRELEAD_leads [OF this]
  then obtain r where "evt \<in> {E_GETVERS_OK r, E_GETVERS_CONCURRENT r, E_GETVERS_ERROR r}" by blast
  then have "c = st" unfolding c(2) by (auto simp: transition_common_def)
  with lead s m show ?thesis by simp
qed

definition prelead_inputs :: "input list" where
  "prelead_inputs = butlast lead_inputs"

lemma prelead_run:
  "map_option (\<lambda>st. (step (em st), reqid_GETVERS (em st), env_version quiet_env (tick st) [] [])) (quiet_run prelead_inputs) =
   Some (STEP_PRELEAD, 2, Inr (Some []))"
  by code_simp

lemma getvers_ok_quiet: "getvers_error None (Some []) (Inr (Some [])) = None"
  by (simp add: getvers_error_def version_validate_diff_def)

theorem leader_entry_witness:
  "\<exists>st. quiet_run prelead_inputs = Some st \<and> step (em st) = STEP_PRELEAD \<and>
     step (em (on_end_GETVERS quiet_env 2 None (Some []) st)) = STEP_LEADER \<and>
     pending_GETVERS (em st) \<le> 1 \<and> master_id (em st) = myid (em st)"
proof -
  obtain st where st: "quiet_run prelead_inputs = Some st" "step (em st) = STEP_PRELEAD" "reqid_GETVERS (em st) = 2"
    using quiet_run_some [OF prelead_run] by auto
  let ?t = "tock st"
  have g: "on_end_GETVERS quiet_env 2 None (Some []) st = transition quiet_env (E_GETVERS_OK 2) ?t"
    by (simp add: on_end_GETVERS_def quiet_env_def getvers_ok_quiet)
  have "run_events (handle_alive quiet_env) (prelead_inputs @ [I_Getvers 2 None (Some [])])
      (Some (fresh 0 ''base'' ''type'' key_K quiet_manager)) = quiet_run lead_inputs"
    by (simp add: quiet_run_def prelead_inputs_def lead_inputs_def)
  then have "quiet_run lead_inputs = Some (on_end_GETVERS quiet_env 2 None (Some []) st)"
    using st(1) by (simp add: run_events_append quiet_run_def handle_alive_def)
  with lead_run have l: "step (em (transition quiet_env (E_GETVERS_OK 2) ?t)) = STEP_LEADER" using g by simp
  have i: "member_inv (em ?t)"
    using member_machine.run_inv [of prelead_inputs "Some (fresh 0 ''base'' ''type'' key_K quiet_manager)" quiet_env]
      fresh_inv [of 0 "''base''" "''type''" key_K quiet_manager] st(1) by (simp add: quiet_run_def)
  from leader_entry [OF i _ l] st g l show ?thesis by auto
qed

end
