(* ===== verification/Election_Behaviour.thy ===== *)
theory Election_Behaviour
  imports Election_Properties
begin

section \<open>The behaviour of an election member\<close>

text \<open>
  What the transition function makes of the events that decide an election: the listing of the
  candidates, the replies to the version request, a disconnection, the events that end a
  leadership, a resynchronisation request that arrives too early, the end of the creation of
  a node that nobody waits for any more, and the event log as a ring.
\<close>

subsection \<open>Frames of the bookkeeping\<close>

text \<open>What \<open>transition\<close> adds to the step when no resynchronisation is due.\<close>

lemma after_step_quiet:
  assumes "\<not> requested_PIPEFROM (em st) \<or> master_url (em st) = None"
  shows "\<exists>l i. em (after_step E pre evt st) = (em st)\<lparr>elog := l, log_index := i\<rparr> \<and>
               mg (after_step E pre evt st) = mg st \<and> out (after_step E pre evt st) = out st \<and>
               tick (after_step E pre evt st) = tick st"
proof (cases "evt \<noteq> E_NONE \<or> pre \<noteq> step (em st)")
  case True
  then show ?thesis using assms by (auto simp: after_step_def member_log_event_def Let_def)
next
  case False
  then have "after_step E pre evt st = st" using assms by (auto simp: after_step_def)
  moreover have "em st = (em st)\<lparr>elog := elog (em st), log_index := log_index (em st)\<rparr>" by simp
  ultimately show ?thesis by metis
qed

lemma transition_quiet:
  assumes "\<not> requested_PIPEFROM (em (transition_step E evt st)) \<or> master_url (em (transition_step E evt st)) = None"
    and "step (em (transition_step E evt st)) \<noteq> STEP_NONE"
  shows "\<exists>l i. em (transition E evt st) = (em (transition_step E evt st))\<lparr>elog := l, log_index := i\<rparr> \<and>
               mg (transition E evt st) = mg (transition_step E evt st) \<and>
               out (transition E evt st) = out (transition_step E evt st) \<and>
               tick (transition E evt st) = tick (transition_step E evt st)"
proof -
  let ?a = "after_step E (step (em st)) evt (transition_step E evt st)"
  have "step (em ?a) \<noteq> STEP_NONE"
    using assms(2) core_step [OF after_step_frame(1), of E "step (em st)" evt "transition_step E evt st"] by simp
  then have "transition E evt st = ?a" by (simp add: transition_after_step)
  with after_step_quiet [OF assms(1), of E "step (em st)" evt] show ?thesis by simp
qed

lemma transition_core_eq:
  assumes "step (em (transition_step E evt st)) \<noteq> STEP_NONE"
  shows "core (em (transition E evt st)) = core (em (transition_step E evt st))"
  using transition_core [of E evt st] assms by blast

subsection \<open>Disconnection\<close>

text \<open>
  C15: a disconnection from ZooKeeper in any step makes the member fail at once. It forgets its
  sequence number and its master, and everything of the requests for the versions of the peers
  (\<open>GETVERS\<close>) and for a resynchronisation (\<open>PIPEFROM\<close>) that were sent: their numbers, the pending
  ones and the counters of the replies. The notifications to the peers (\<open>USE\<close>), sent or still to
  be sent, and a resynchronisation asked for but not sent stay as they were.
\<close>

theorem disconnected_fails:
  "let m = em (transition E E_DISCONNECTED st)
   in step m = STEP_FAILED \<and> myid m = -1 \<and> master_id m = -1 \<and> master_url m = None \<and>
      pending_GETVERS m = 0 \<and> reqid_GETVERS m = 0 \<and> sent_GETVERS m = 0 \<and> concurrent_GETVERS m = 0 \<and> errors_GETVERS m = 0 \<and>
      \<not> pending_PIPEFROM m \<and> reqid_PIPEFROM m = 0 \<and>
      pending_USE m = pending_USE (em st) \<and> reqid_USE m = reqid_USE (em st) \<and> last_USE m = last_USE (em st) \<and>
      requested_USE m = requested_USE (em st) \<and> requested_PIPEFROM m = requested_PIPEFROM (em st)"
proof -
  have s: "transition_step E E_DISCONNECTED st = member_set_status E STEP_FAILED (member_reset st)"
    by (simp add: transition_step_def transition_common_def)
  have m: "em (member_set_status E STEP_FAILED (member_reset st)) =
      (em (member_reset st))\<lparr>last_status := env_now E (tick (member_reset st)), step := STEP_FAILED\<rparr>"
    by (rule set_status_em)
  have r: "em (member_reset st) = (em st)\<lparr>myid := -1, master_id := -1, master_url := None, sent_GETVERS := 0, concurrent_GETVERS := 0,
      errors_GETVERS := 0, reqid_GETVERS := 0, reqid_PIPEFROM := 0, pending_GETVERS := 0, pending_PIPEFROM := False\<rparr>"
    by (simp add: member_reset_def member_reset_pending_def member_reset_master_def member_set_master_url_def)
  from transition_quiet [of E E_DISCONNECTED st]
  obtain l i where "em (transition E E_DISCONNECTED st) =
      (em (member_set_status E STEP_FAILED (member_reset st)))\<lparr>elog := l, log_index := i\<rparr>"
    unfolding s m r by auto
  then show ?thesis unfolding m r by (simp add: Let_def)
qed

subsection \<open>The end of a leadership\<close>

lemma defer_USE_fails: "\<not> fst (defer_USE E now st) \<Longrightarrow> \<exists>e. env_peers E (tick st) (name (em st)) (ntype (em st)) False = Inl e"
  by (auto simp: defer_USE_def member_get_peers_def sqlx_config_get_peers2_def Let_def case_prod_unfold
      split: sum.splits if_splits)

lemma ping_leaves:
  assumes "step (em (member_ping E st)) \<noteq> step (em st)"
  shows "\<exists>e. env_peers E (tick st + 1) (name (em st)) (ntype (em st)) False = Inl e"
proof -
  have "\<not> fst (defer_USE E (env_time E (tick st)) (tock st))"
  proof
    assume "fst (defer_USE E (env_time E (tick st)) (tock st))"
    then have "step (em (member_ping E st)) = step (em st)"
      using core_step [OF defer_frame(1), of E "env_time E (tick st)" "tock st"]
      by (simp add: member_ping_def time0_def case_prod_unfold Let_def)
    with assms show False by simp
  qed
  from defer_USE_fails [OF this] show ?thesis by simp
qed

text \<open>
  C14: a leader loses its step only for a reason: ZooKeeper is lost, its node is gone, the
  service exits or asks for a resynchronisation, or, at a periodic ping, its peers cannot be
  located. No reply, completion or listing that comes late disturbs it.
\<close>

theorem leader_exit:
  assumes "step (em st) = STEP_LEADER" and "step (em (transition E evt st)) \<noteq> STEP_LEADER"
  shows "evt \<in> {E_DISCONNECTED, E_NODE_LEFT, E_EXITING, E_RESYNC_REQ} \<or>
         (evt = E_NONE \<and> (\<exists>e. env_peers E (tick st + 1) (name (em st)) (ntype (em st)) False = Inl e))"
proof (rule ccontr)
  assume n: "\<not> ?thesis"
  then have d: "evt \<noteq> E_DISCONNECTED" by simp
  obtain c where c: "core (em c) = core (em st)" "c = snd (transition_common E evt st)"
    "transition_step E evt st = in_LEADER E evt c"
    using transition_step_cases [OF d, of st E] unfolding assms(1) by auto
  have "step (em (in_LEADER E evt c)) = STEP_LEADER"
  proof (cases "evt = E_NONE")
    case True
    then have "c = st" using c(2) by (simp add: transition_common_def)
    moreover have "step (em (member_ping E st)) = step (em st)" using n True ping_leaves [of E st] by blast
    ultimately show ?thesis using True assms(1) by (simp add: in_LEADER_def)
  next
    case False
    then have "in_LEADER E evt c = c" using n by (cases evt) (simp_all add: in_LEADER_def)
    with core_step [OF c(1)] assms(1) show ?thesis by simp
  qed
  then have "step (em (transition_step E evt st)) = STEP_LEADER" using c(3) by simp
  with core_step [OF transition_core_eq, of E evt st] assms(2) show False by simp
qed

lemma leader_state:
  "\<exists>st. quiet_run lead_inputs = Some st \<and> step (em st) = STEP_LEADER"
  using quiet_run_some [OF lead_run] by blast

theorem leader_exit_witness:
  "\<exists>st. quiet_run lead_inputs = Some st \<and> step (em st) = STEP_LEADER \<and>
     step (em (transition quiet_env (E_LIST_OK []) st)) = STEP_LEADER"
proof -
  obtain st where st: "quiet_run lead_inputs = Some st" "step (em st) = STEP_LEADER"
    using leader_state by blast
  have "step (em (transition quiet_env (E_LIST_OK []) st)) = STEP_LEADER"
    by (rule ccontr) (use leader_exit [OF st(2), of quiet_env "E_LIST_OK []"] in simp)
  with st show ?thesis by blast
qed

subsection \<open>The listing\<close>

lemma manage_list_master:
  assumes inv: "member_inv (em st)" and s: "step (em st) = STEP_CANDOK"
    and m: "myid (em st) \<in> set l" "\<forall>i \<in> set l. myid (em st) \<le> i" and sl: "sorted l"
  shows "step (em (manage_list E l st)) = STEP_PRELEAD"
proof -
  let ?c = "member_set_status E STEP_CANDOK st"
  have id: "myid (em ?c) = myid (em st)" "0 \<le> myid (em st)"
    using inv s by (simp_all add: set_status_em member_inv_def core_inv_def core_def)
  have g: "member_in_group (em ?c) l" using id m(1) by (simp add: member_in_group_def list_ex_iff)
  obtain x xs where l: "l = x # xs" using m(1) by (cases l) auto
  have "x \<le> myid (em st)" using sl m(1) l by auto
  with m(2) l have "x = myid (em st)" by auto
  then have "member_group_master (em ?c) l" using id l by (simp add: member_group_master_def)
  with g show ?thesis by (simp add: manage_list_def Let_def)
qed

lemma manage_list_not_master:
  assumes inv: "member_inv (em st)" and s: "step (em st) = STEP_CANDOK"
    and m: "\<not> (myid (em st) \<in> set l \<and> (\<forall>i \<in> set l. myid (em st) \<le> i))" and sl: "sorted l"
  shows "step (em (manage_list E l st)) \<noteq> STEP_PRELEAD"
proof -
  let ?c = "member_set_status E STEP_CANDOK st"
  let ?S = "{s. s \<noteq> STEP_PRELEAD}"
  have id: "myid (em ?c) = myid (em st)" "0 \<le> myid (em st)"
    using inv s by (simp_all add: set_status_em member_inv_def core_inv_def core_def)
  show ?thesis
  proof (cases "myid (em st) \<in> set l")
    case False
    then have "\<not> member_in_group (em ?c) l" using id by (simp add: member_in_group_def list_ex_iff)
    then show ?thesis using restart_step [where S = ?S] by (simp add: manage_list_def Let_def)
  next
    case True
    then obtain x xs where l: "l = x # xs" by (cases l) auto
    have "x \<noteq> myid (em st)" using m True sl l by auto
    then have "\<not> member_group_master (em ?c) l" using id l by (simp add: member_group_master_def)
    then show ?thesis
      using leaver_step [where S = ?S] restart_step [where S = ?S]
      by (simp add: manage_list_def Let_def case_prod_unfold)
  qed
qed

text \<open>
  C12: the candidate with the lowest sequence number, and only it, prepares to lead. When a
  listing of the candidates arrives, in increasing order as \<open>nodev_to_int64v\<close> returns it, a candidate
  goes to \<open>PRELEAD\<close> exactly when it is in the listing and no number there is lower than its own.
\<close>

theorem listing_elects_lowest:
  assumes "member_inv (em st)" and "step (em st) = STEP_CANDOK" and "sorted l" and "\<forall>i \<in> set l. 0 \<le> i"
  shows "step (em (transition E (E_LIST_OK l) st)) = STEP_PRELEAD \<longleftrightarrow>
         myid (em st) \<in> set l \<and> (\<forall>i \<in> set l. myid (em st) \<le> i)"
proof -
  have t: "transition_step E (E_LIST_OK l) st = manage_list E l st"
    using assms(2) by (simp add: transition_step_def transition_common_def in_CANDOK_def)
  have "step (em (manage_list E l st)) = STEP_PRELEAD \<longleftrightarrow>
      myid (em st) \<in> set l \<and> (\<forall>i \<in> set l. myid (em st) \<le> i)"
    using manage_list_master [OF assms(1,2) _ _ assms(3), of E]
      manage_list_not_master [OF assms(1,2) _ assms(3), of E] by blast
  moreover have "step (em (transition E (E_LIST_OK l) st)) = STEP_PRELEAD \<longleftrightarrow>
      step (em (manage_list E l st)) = STEP_PRELEAD"
    using transition_core [of E "E_LIST_OK l" st] core_step [of "em (transition E (E_LIST_OK l) st)" "em (manage_list E l st)"]
    unfolding t by force
  ultimately show ?thesis by simp
qed

definition candok_inputs :: "input list" where
  "candok_inputs = [I_Kickoff, I_Create 0 (Some ''/P/KEYK-0000000003'')]"

lemma candok_run:
  "map_option (\<lambda>st. (step (em st), myid (em st))) (quiet_run candok_inputs) = Some (STEP_CANDOK, 3)"
  by code_simp

lemma quiet_run_inv: "quiet_run is = Some st \<Longrightarrow> member_inv (em st)"
  using member_machine.run_inv [of "is" "Some (fresh 0 ''base'' ''type'' key_K quiet_manager)" quiet_env]
    fresh_inv [of 0 "''base''" "''type''" key_K quiet_manager] by (simp add: quiet_run_def)

theorem listing_elects_lowest_witness:
  "\<exists>st. quiet_run candok_inputs = Some st \<and> step (em st) = STEP_CANDOK \<and> myid (em st) = 3 \<and>
     step (em (transition quiet_env (E_LIST_OK [3, 7]) st)) = STEP_PRELEAD \<and>
     step (em (transition quiet_env (E_LIST_OK [1, 3]) st)) \<noteq> STEP_PRELEAD"
proof -
  obtain st where st: "quiet_run candok_inputs = Some st" "step (em st) = STEP_CANDOK" "myid (em st) = 3"
    using quiet_run_some [OF candok_run] by auto
  note l = listing_elects_lowest [OF quiet_run_inv [OF st(1)] st(2), of _ quiet_env]
  show ?thesis using st l [of "[3, 7]"] l [of "[1, 3]"] by auto
qed

subsection \<open>The replies\<close>

datatype reply = ReplyOk | ReplyConcurrent | ReplyError

fun reply_event :: "u32 \<Rightarrow> reply \<Rightarrow> event" where
  "reply_event r ReplyOk = E_GETVERS_OK r"
| "reply_event r ReplyConcurrent = E_GETVERS_CONCURRENT r"
| "reply_event r ReplyError = E_GETVERS_ERROR r"

text \<open>A member that waits for \<open>n\<close> replies to its request \<open>r\<close>, after \<open>e\<close> errors and \<open>c\<close> conflicts.\<close>

definition awaiting :: "u32 \<Rightarrow> nat \<Rightarrow> nat \<Rightarrow> nat \<Rightarrow> election_member \<Rightarrow> bool" where
  "awaiting r n e c m \<longleftrightarrow>
     step m = STEP_PRELEAD \<and> reqid_GETVERS m = r \<and> pending_GETVERS m = of_nat n \<and>
     errors_GETVERS m = of_nat e \<and> concurrent_GETVERS m = of_nat c \<and>
     \<not> pending_PIPEFROM m \<and> \<not> requested_PIPEFROM m \<and> master_url m = None"

lemma awaiting_log [simp]: "awaiting r n e c (m\<lparr>elog := l, log_index := i\<rparr>) = awaiting r n e c m"
  by (simp add: awaiting_def)

lemma u16_of_nat: "n < 65536 \<Longrightarrow> unat (of_nat n :: u16) = n"
  by (simp add: unat_of_nat)

lemma u16_pos: "0 < n \<Longrightarrow> n < 65536 \<Longrightarrow> (of_nat n :: u16) \<noteq> 0"
  using u16_of_nat [of n] by (metis neq0_conv unat_0)

definition e_of :: "reply \<Rightarrow> nat" where
  "e_of rp = (if rp = ReplyError then 1 else 0)"

definition c_of :: "reply \<Rightarrow> nat" where
  "c_of rp = (if rp = ReplyConcurrent then 1 else 0)"

text \<open>A reply that is not the last one only counts.\<close>

lemma reply_counts_step:
  assumes a: "awaiting r (Suc (Suc n)) e c (em st)" and n: "Suc (Suc n) < 65536"
  shows "awaiting r (Suc n) (e + e_of rp) (c + c_of rp) (em (transition_step E (reply_event r rp) st))"
proof -
  have minus: "(of_nat (Suc (Suc n)) :: u16) - 1 = of_nat (Suc n)" by simp
  have p: "pending_GETVERS (em st) \<noteq> 0" "pending_GETVERS (em st) - 1 = of_nat (Suc n)"
    "(of_nat (Suc n) :: u16) \<noteq> 0"
    using a n minus u16_pos [of "Suc (Suc n)"] u16_pos [of "Suc n"] by (simp_all add: awaiting_def del: of_nat_Suc)
  then have "0 < pending_GETVERS (em st)" by (simp add: word_greater_zero_iff)
  with a p show ?thesis
    by (cases rp) (simp_all add: transition_step_def transition_common_def in_PRELEAD_def awaiting_def
        member_concerned_by_GETVERS_def member_finish_PRELEAD_def member_has_action_def Let_def
        e_of_def c_of_def of_nat_Suc [of e] of_nat_Suc [of c] add.commute [of 1] del: of_nat_Suc)
qed

lemma reply_counts:
  assumes a: "awaiting r (Suc (Suc n)) e c (em st)" and n: "Suc (Suc n) < 65536"
  shows "awaiting r (Suc n) (e + e_of rp) (c + c_of rp) (em (transition E (reply_event r rp) st))"
proof -
  have t: "awaiting r (Suc n) (e + e_of rp) (c + c_of rp) (em (transition_step E (reply_event r rp) st))"
    by (rule reply_counts_step [OF assms])
  then obtain l i where "em (transition E (reply_event r rp) st) =
      (em (transition_step E (reply_event r rp) st))\<lparr>elog := l, log_index := i\<rparr>"
    using transition_quiet [of E "reply_event r rp" st] by (auto simp: awaiting_def)
  with t show ?thesis by simp
qed

text \<open>The last one decides.\<close>

lemma last_reply:
  assumes a: "awaiting r 1 e c (em st)" and b: "e < 65535" "c < 65535"
  shows "step (em (transition E (reply_event r rp) st)) \<in>
    (if e + e_of rp \<le> 1 \<and> c + c_of rp \<le> 1 then {STEP_LEADER} else {STEP_LEAVING, STEP_FAILED})"
proof -
  define st0 where "st0 = upd (\<lambda>m. m\<lparr>pending_GETVERS := 0, reqid_GETVERS := 0\<rparr>) st"
  define st1 where "st1 = (case rp of ReplyOk \<Rightarrow> st0
     | ReplyConcurrent \<Rightarrow> upd (\<lambda>m. m\<lparr>concurrent_GETVERS := concurrent_GETVERS m + 1\<rparr>) st0
     | ReplyError \<Rightarrow> upd (\<lambda>m. m\<lparr>errors_GETVERS := errors_GETVERS m + 1\<rparr>) st0)"
  have u: "unat (of_nat (e + e_of rp) :: u16) = e + e_of rp" "unat (of_nat (c + c_of rp) :: u16) = c + c_of rp"
    using b by (intro u16_of_nat; simp add: e_of_def c_of_def)+
  have "errors_GETVERS (em st1) = of_nat (e + e_of rp)" "concurrent_GETVERS (em st1) = of_nat (c + c_of rp)"
    and na: "\<not> member_has_action (em st1)"
    using a by (cases rp; simp add: st1_def st0_def awaiting_def e_of_def c_of_def member_has_action_def)+
  with u have n: "unat (errors_GETVERS (em st1)) = e + e_of rp" "unat (concurrent_GETVERS (em st1)) = c + c_of rp"
    by simp_all
  have "transition_step E (reply_event r rp) st = member_finish_PRELEAD E st1"
    using a by (cases rp) (simp_all add: transition_step_def transition_common_def in_PRELEAD_def awaiting_def
        member_concerned_by_GETVERS_def Let_def st1_def st0_def upd_def)
  moreover have "member_finish_PRELEAD E st1 =
      (if e + e_of rp \<le> 1 \<and> c + c_of rp \<le> 1
       then member_set_status E STEP_LEADER (upd (\<lambda>m. m\<lparr>errors_GETVERS := 0, concurrent_GETVERS := 0\<rparr>) st1)
       else become_leaver E (upd (\<lambda>m. m\<lparr>errors_GETVERS := 0, concurrent_GETVERS := 0\<rparr>) st1))"
    using na n by (simp add: member_finish_PRELEAD_def Let_def)
  ultimately have "step (em (transition_step E (reply_event r rp) st)) \<in>
      (if e + e_of rp \<le> 1 \<and> c + c_of rp \<le> 1 then {STEP_LEADER} else {STEP_LEAVING, STEP_FAILED})"
    using leaver_step [where S = "{STEP_LEAVING, STEP_FAILED}"] by simp
  moreover from this have "step (em (transition_step E (reply_event r rp) st)) \<noteq> STEP_NONE"
    by (auto split: if_splits)
  ultimately show ?thesis using core_step [OF transition_core_eq] by metis
qed

lemma replies_run:
  "awaiting r n e c (em st) \<Longrightarrow> length rs = n \<Longrightarrow> 0 < n \<Longrightarrow> n < 65536 \<Longrightarrow> e + n < 65536 \<Longrightarrow> c + n < 65536 \<Longrightarrow>
   step (em (run_events (\<lambda>rp. transition E (reply_event r rp)) rs st)) \<in>
    (if e + count_list rs ReplyError \<le> 1 \<and> c + count_list rs ReplyConcurrent \<le> 1
     then {STEP_LEADER} else {STEP_LEAVING, STEP_FAILED})"
proof (induction rs arbitrary: n e c st)
  case (Cons rp rs)
  show ?case
  proof (cases "rs = []")
    case True
    with Cons.prems have "awaiting r 1 e c (em st)" "e < 65535" "c < 65535" by simp_all
    from last_reply [OF this, of E rp] True show ?thesis
      by (cases rp) (simp_all add: e_of_def c_of_def split: if_splits)
  next
    case False
    then obtain k where k: "n = Suc (Suc k)" using Cons.prems by (cases rs) auto
    let ?st = "transition E (reply_event r rp) st"
    have "awaiting r (Suc k) (e + e_of rp) (c + c_of rp) (em ?st)"
      using reply_counts [of r k e c st rp E] Cons.prems k by simp
    from Cons.IH [OF this] Cons.prems k show ?thesis
      by (cases rp) (simp_all add: e_of_def c_of_def)
  qed
qed simp


definition waiting_inputs :: "input list" where
  "waiting_inputs = [I_Kickoff, I_Create 0 (Some ''/P/KEYK-0000000003''), I_List 0 [''KEYK-0000000003'']]"

lemma waiting_run:
  "map_option (\<lambda>st. awaiting 2 2 0 0 (em st)) (quiet_run waiting_inputs) = Some True"
  by code_simp


text \<open>
  C16: a reply that belongs to an older version request changes nothing but the log: neither
  the step nor the counters of a member that waits for the replies to another request, as long as the
  member has no resynchronisation requested.
\<close>

theorem stale_reply_ignored:
  assumes "step (em st) \<in> {STEP_PRELEAD, STEP_PRELOST}" and "r \<noteq> reqid_GETVERS (em st)"
    and "evt \<in> {E_GETVERS_OK r, E_GETVERS_OUTDATED r, E_GETVERS_CONCURRENT r, E_GETVERS_ERROR r}"
    and "\<not> requested_PIPEFROM (em st)"
  shows "\<exists>l i. em (transition E evt st) = (em st)\<lparr>elog := l, log_index := i\<rparr> \<and> out (transition E evt st) = out st"
proof -
  have "transition_step E evt st = st"
    using assms by (auto simp: transition_step_def transition_common_def in_PRELEAD_def in_PRELOST_def
        member_concerned_by_GETVERS_def)
  with transition_quiet [of E evt st] assms show ?thesis by auto
qed

theorem stale_reply_ignored_witness:
  "\<exists>st l i. quiet_run waiting_inputs = Some st \<and>
     em (transition quiet_env (E_GETVERS_OUTDATED 1) st) = (em st)\<lparr>elog := l, log_index := i\<rparr>"
proof -
  obtain st where st: "quiet_run waiting_inputs = Some st" "awaiting 2 2 0 0 (em st)"
    using quiet_run_some [OF waiting_run] by auto
  then have "step (em st) \<in> {STEP_PRELEAD, STEP_PRELOST}" "1 \<noteq> reqid_GETVERS (em st)"
    "\<not> requested_PIPEFROM (em st)" by (simp_all add: awaiting_def)
  from stale_reply_ignored [OF this(1,2) _ this(3), of "E_GETVERS_OUTDATED 1" quiet_env] st(1)
  show ?thesis by blast
qed

text \<open>
  what a reply to the version request means, table by table. The candidate is told that
  it missed updates exactly when some common table of the peer is ahead and none is behind;
  that there were concurrent changes exactly when tables are ahead on both sides; and it is
  content exactly when no common table of the peer is ahead.
\<close>

theorem getvers_reply_meaning:
  assumes "vt_ok local" and "vt_ok remote"
  shows "(getvers_error None (Some remote) (Inr (Some local)) = Some CODE_PIPEFROM \<longleftrightarrow>
            (\<exists>d \<in> deltas local remote. d < 0) \<and> \<not> (\<exists>d \<in> deltas local remote. 0 < d)) \<and>
         (getvers_error None (Some remote) (Inr (Some local)) = Some CODE_CONCURRENT \<longleftrightarrow>
            (\<exists>d \<in> deltas local remote. d < 0) \<and> (\<exists>d \<in> deltas local remote. 0 < d)) \<and>
         (getvers_error None (Some remote) (Inr (Some local)) = None \<longleftrightarrow>
            \<not> (\<exists>d \<in> deltas local remote. d < 0))"
proof -
  let ?D = "deltas local remote"
  have f: "finite ?D" by (rule finite_deltas [OF assms])
  note M = Max_insert0 [OF f] Min_insert0 [OF f]
  show ?thesis
    unfolding getvers_error_def option.case sum.case validate_diff_eq [OF assms]
    using M by (auto simp: code_defs Let_def split: if_splits)
qed

theorem getvers_reply_meaning_witness:
  "getvers_error None (Some (one_table 3)) (Inr (Some (one_table 1))) = Some CODE_PIPEFROM \<and>
   (\<exists>d \<in> deltas (one_table 1) (one_table 3). d < 0)"
proof -
  have "getvers_error None (Some (one_table 3)) (Inr (Some (one_table 1))) = Some CODE_PIPEFROM"
    by (simp add: getvers_error_def validate_one_table code_defs)
  with getvers_reply_meaning [OF one_table_ok [of 1] one_table_ok [of 3]] show ?thesis by blast
qed

subsection \<open>A resynchronisation requested too early\<close>

text \<open>
  A request to resynchronise that finds no master is noted in \<open>requested_PIPEFROM\<close>, and the
  flag is cleared only when the dump of a master is requested. Nothing else clears it: not
  the reset of the member, not a new election.
\<close>

definition resync_due :: "election_member \<Rightarrow> bool" where
  "resync_due m \<longleftrightarrow> requested_PIPEFROM m \<and> master_url m = None"

named_theorems due \<open>functions that keep a due resynchronisation\<close>

lemma due_basic [due]:
  "resync_due (em st) \<Longrightarrow> resync_due (em (member_set_status E s st))"
  "resync_due (em st) \<Longrightarrow> resync_due (em (member_reset_master st))"
  "resync_due (em st) \<Longrightarrow> resync_due (em (member_reset_pending st))"
  "resync_due (em st) \<Longrightarrow> resync_due (em (member_reset st))"
  "resync_due (em st) \<Longrightarrow> resync_due (em (member_touch E st))"
  "resync_due (em st) \<Longrightarrow> resync_due (em (member_RESYNC_if_not_pending st))"
  "resync_due (em st) \<Longrightarrow> resync_due (em (member_set_master_id i st))"
  "resync_due (em st) \<Longrightarrow> resync_due (em (snd (member_concerned_by_GETVERS r st)))"
  by (simp_all add: resync_due_def set_status_em touch_em member_reset_def member_reset_master_def
      member_reset_pending_def member_set_master_url_def member_RESYNC_if_not_pending_def
      member_set_master_id_def member_concerned_by_GETVERS_def Let_def)

lemma due_requests [due]:
  "resync_due (em st) \<Longrightarrow> resync_due (em (snd (step_StartElection_start E st)))"
  "resync_due (em st) \<Longrightarrow> resync_due (em (snd (step_AskMaster_start E st)))"
  "resync_due (em st) \<Longrightarrow> resync_due (em (snd (step_WatchNode_start E st)))"
  "resync_due (em st) \<Longrightarrow> resync_due (em (snd (step_ListGroup_start E st)))"
  "resync_due (em st) \<Longrightarrow> resync_due (em (snd (step_LeaveElection_start E st)))"
  "resync_due (em st) \<Longrightarrow> resync_due (em (snd (defer_USE E now st)))"
  "resync_due (em st) \<Longrightarrow> resync_due (em (defer_GETVERS E st))"
  by (simp_all add: resync_due_def start_defs zk_call_def member_ref_def defer_USE_def defer_GETVERS_def
      member_get_peers_def time0_def fold_send_USE fold_send_GETVERS manager_next_reqid_def Let_def
      split: option.split sum.split prod.split)

lemma due_steps [due]:
  assumes "resync_due (em st)"
  shows "resync_due (em (become_leaver E st))" "resync_due (em (become_candidate E st))"
    "resync_due (em (restart_election E st))" "resync_due (em (member_finish_PRELOST E st))"
    "resync_due (em (member_finish_PRELEAD E st))" "resync_due (em (member_ping E st))"
    "resync_due (em (manage_list E l st))"
proof -
  have r: "\<And>f s. resync_due (em s) \<Longrightarrow> resync_due (em (upd (\<lambda>m. m\<lparr>requested_USE := f m\<rparr>) s))"
    "\<And>f g s. resync_due (em s) \<Longrightarrow> resync_due (em (upd (\<lambda>m. m\<lparr>errors_GETVERS := f m, concurrent_GETVERS := g m\<rparr>) s))"
    "\<And>s. resync_due (em s) \<Longrightarrow> resync_due (em (tock s))"
    by (simp_all add: resync_due_def)
  show a: "resync_due (em (become_leaver E st))"
    unfolding become_leaver_def Let_def case_prod_unfold by (simp add: due assms)
  show "resync_due (em (become_candidate E st))"
    unfolding become_candidate_def Let_def case_prod_unfold by (simp add: due assms)
  have l: "\<And>s. resync_due (em s) \<Longrightarrow> resync_due (em (become_leaver E s))"
    unfolding become_leaver_def Let_def case_prod_unfold by (simp add: due)
  have rs: "\<And>s. resync_due (em s) \<Longrightarrow> resync_due (em (restart_election E s))"
    unfolding restart_election_def Let_def case_prod_unfold by (simp add: due r l del: estate_simps(1))
  then show "resync_due (em (restart_election E st))" using assms .
  show "resync_due (em (member_finish_PRELOST E st))"
    unfolding member_finish_PRELOST_def using assms by (simp add: member_has_action_def resync_due_def)
  show "resync_due (em (member_finish_PRELEAD E st))"
    unfolding member_finish_PRELEAD_def using assms by (simp add: member_has_action_def resync_due_def)
  show "resync_due (em (member_ping E st))"
    unfolding member_ping_def Let_def case_prod_unfold time0_def
    by (simp add: due r l assms del: estate_simps)
  show "resync_due (em (manage_list E l st))"
    unfolding manage_list_def Let_def case_prod_unfold by (simp add: due l rs assms)
qed

lemma due_stale [due]: "resync_due (em st) \<Longrightarrow> resync_due (em (restart_GETVERS_if_stale E st))"
proof -
  have "em (snd (member_pending_for_too_long E st)) = em st"
    by (simp add: member_pending_for_too_long_def gtv_init_ago_def g_get_current_time_def Let_def
        split: election_step.split)
  then show "resync_due (em st) \<Longrightarrow> resync_due (em (restart_GETVERS_if_stale E st))"
    unfolding restart_GETVERS_if_stale_def Let_def case_prod_unfold by (simp add: due)
qed

lemma due_flags [due]:
  "resync_due m \<Longrightarrow> resync_due (m\<lparr>myid := f1\<rparr>)" "resync_due m \<Longrightarrow> resync_due (m\<lparr>requested_USE := f2\<rparr>)"
  "resync_due m \<Longrightarrow> resync_due (m\<lparr>requested_PIPEFROM := True\<rparr>)"
  "resync_due m \<Longrightarrow> resync_due (m\<lparr>concurrent_GETVERS := f3\<rparr>)" "resync_due m \<Longrightarrow> resync_due (m\<lparr>errors_GETVERS := f4\<rparr>)"
  "resync_due m \<Longrightarrow> resync_due (m\<lparr>elog := f5, log_index := f6\<rparr>)"
  by (simp_all add: resync_due_def)

lemma due_in [due]:
  assumes "resync_due (em st)" and "\<And>u. evt \<noteq> E_MASTER_OK u"
  shows "resync_due (em (in_NONE E evt st))" "resync_due (em (in_CANDREQ E evt st))"
    "resync_due (em (in_CANDOK E evt st))" "resync_due (em (in_PRELOST E evt st))"
    "resync_due (em (in_PRELEAD E evt st))" "resync_due (em (in_LEAVING E evt st))"
    "resync_due (em (in_LOST E evt st))" "resync_due (em (in_LEADER E evt st))"
    "resync_due (em (in_FAILED E evt st))"
  using assms
  by (cases evt; simp add: in_defs due member_set_id_def manage_deleted_def failed_late_em Let_def case_prod_unfold)+

definition no_master_url :: "event \<Rightarrow> bool" where
  "no_master_url evt = (case evt of E_MASTER_OK _ \<Rightarrow> False | _ \<Rightarrow> True)"

lemma due_transition:
  assumes "resync_due (em st)" and "no_master_url evt"
  shows "resync_due (em (transition E evt st))"
proof -
  have n: "\<And>u. evt \<noteq> E_MASTER_OK u" using assms(2) by (auto simp: no_master_url_def)
  have c: "resync_due (em (snd (transition_common E evt st)))"
    using assms(1) by (cases evt) (simp_all add: transition_common_def resync_due_def set_status_em Let_def
        member_reset_def member_reset_master_def member_reset_pending_def member_set_master_url_def)
  have "resync_due (em (transition_step E evt st))"
    using c due_in [OF c n] by (simp add: transition_step_def case_prod_unfold Let_def split: election_step.split)
  then have "resync_due (em (after_step E (step (em st)) evt (transition_step E evt st)))"
    by (auto simp: after_step_def Let_def member_log_event_def resync_due_def)
  then show ?thesis using due_steps(3) by (simp add: transition_after_step Let_def)
qed

interpretation blocked: event_machine "transition E" "\<lambda>evt. event_ok evt \<and> no_master_url evt"
  "\<lambda>st. member_inv (em st) \<and> resync_due (em st) \<and> step (em st) \<noteq> STEP_LEADER" for E
proof unfold_locales
  fix evt and st :: estate
  assume e: "event_ok evt \<and> no_master_url evt"
    and s: "member_inv (em st) \<and> resync_due (em st) \<and> step (em st) \<noteq> STEP_LEADER"
  have "step (em (transition E evt st)) \<noteq> STEP_LEADER"
  proof
    assume "step (em (transition E evt st)) = STEP_LEADER"
    then have "step (em (transition_step E evt st)) = STEP_LEADER"
      using transition_core [of E evt st]
        core_step [of "em (transition E evt st)" "em (transition_step E evt st)"] by auto
    note t = this
    have p: "step (em st) = STEP_PRELEAD"
      using transition_step_graph [of st E evt] s t by (cases "step (em st)") (auto simp: step_graph_def)
    have d: "evt \<noteq> E_DISCONNECTED" using t by (auto simp: transition_step_def transition_common_def)
    obtain c where c0: "core (em c) = core (em st)" "c = snd (transition_common E evt st)"
      "transition_step E evt st = in_PRELEAD E evt c"
      using transition_step_cases [OF d, of st E] unfolding p by auto
    have c: "c = snd (transition_common E evt st)" "step (em c) = STEP_PRELEAD"
      "step (em (in_PRELEAD E evt c)) = STEP_LEADER"
      using c0(2) core_step [OF c0(1)] p t c0(3) by simp_all
    have "requested_PIPEFROM (em c)"
      using s c(1) by (cases evt) (simp_all add: transition_common_def resync_due_def set_status_em Let_def
          member_reset_def member_reset_master_def member_reset_pending_def member_set_master_url_def)
    with in_PRELEAD_leads [OF c(3,2)] show False by simp
  qed
  then show "member_inv (em (transition E evt st)) \<and> resync_due (em (transition E evt st)) \<and>
      step (em (transition E evt st)) \<noteq> STEP_LEADER"
    using e s transition_inv due_transition by blast
qed

text \<open>
  C17: a resynchronisation requested before the master is known blocks the leadership of the
  member for good. As long as no master's URL is learnt, no sequence of events (replies of
  every peer, disconnections and whole new elections included) makes it leader: when it is
  the candidate with the lowest number, the base has no master.
\<close>

theorem early_resync_blocks_leadership:
  assumes "member_inv (em st)" and "requested_PIPEFROM (em st)" and "master_url (em st) = None"
    and "step (em st) \<noteq> STEP_LEADER" and "list_all (\<lambda>evt. event_ok evt \<and> no_master_url evt) evts"
  shows "step (em (run_events (transition E) evts st)) \<noteq> STEP_LEADER \<and>
         requested_PIPEFROM (em (run_events (transition E) evts st))"
  using blocked.run_inv [of evts st E] assms by (simp add: list_all_iff resync_due_def)

definition early_resync_inputs :: "input list" where
  "early_resync_inputs = [I_Kickoff, I_Resync, I_Create 0 (Some ''/P/KEYK-0000000003''), I_List 0 [''KEYK-0000000003'']]"

lemma early_resync_run:
  "map_option (\<lambda>st. (step (em st), requested_PIPEFROM (em st), master_url (em st))) (quiet_run early_resync_inputs) =
   Some (STEP_PRELEAD, True, None)"
  by code_simp

theorem early_resync_blocks_leadership_witness:
  "\<exists>st. quiet_run early_resync_inputs = Some st \<and> step (em st) = STEP_PRELEAD \<and>
     step (em (run_events (transition quiet_env) [E_GETVERS_OK 2, E_GETVERS_OK 2] st)) \<noteq> STEP_LEADER"
proof -
  obtain st where st: "quiet_run early_resync_inputs = Some st" "step (em st) = STEP_PRELEAD"
    "requested_PIPEFROM (em st)" "master_url (em st) = None"
    using quiet_run_some [OF early_resync_run] by auto
  with early_resync_blocks_leadership [OF quiet_run_inv [OF st(1)] st(3,4),
      of "[E_GETVERS_OK 2, E_GETVERS_OK 2]" quiet_env]
  show ?thesis by (simp add: no_master_url_def)
qed

subsection \<open>Leaving while the node is being created\<close>

definition is_signal :: "action \<Rightarrow> bool" where
  "is_signal a = (case a of Signal _ \<Rightarrow> True | _ \<Rightarrow> False)"

lemma set_status_out: "\<exists>a. out (member_set_status E s st) = out st @ a \<and> list_all is_signal a"
  by (simp add: member_set_status_def member_touch_def g_get_current_time_def member_signal_def
      is_signal_def Let_def)

lemma leaver_out:
  "\<exists>a rc b. out (become_leaver E st) =
     out st @ a @ [Zk (ZkDelete (realpath (sync (mg st)) (member_fullpath (em st)))) rc] @ b \<and>
     list_all is_signal a \<and> list_all is_signal b"
proof -
  let ?l = "member_set_status E STEP_LEAVING (member_reset_pending (member_reset_master st))"
  obtain a where a: "out ?l = out st @ a" "list_all is_signal a"
    using set_status_out [of E STEP_LEAVING "member_reset_pending (member_reset_master st)"]
    by (auto simp: member_reset_pending_def member_reset_master_def member_set_master_url_def)
  have f: "member_fullpath (em ?l) = member_fullpath (em st)" "mg ?l = mg st"
    by (simp_all add: member_fullpath_def set_status_em member_reset_pending_def member_reset_master_def
        member_set_master_url_def)
  let ?d = "step_LeaveElection_start E ?l"
  have d: "out (snd ?d) = out st @ a @ [Zk (ZkDelete (realpath (sync (mg st)) (member_fullpath (em st)))) (fst ?d)]"
    using a f by (simp add: step_LeaveElection_start_def zk_call_def sync_adelete_def member_ref_def Let_def)
  obtain b where b: "out (member_set_status E STEP_FAILED (snd ?d)) = out (snd ?d) @ b" "list_all is_signal b"
    using set_status_out by blast
  have e: "out (become_leaver E st) =
      (if fst ?d \<noteq> ZOK then out (member_set_status E STEP_FAILED (snd ?d)) else out (snd ?d))"
    by (simp add: become_leaver_def Let_def case_prod_unfold)
  show ?thesis
  proof (cases "fst ?d = ZOK")
    case True
    then show ?thesis using a d e by (intro exI [of _ a] exI [of _ "fst ?d"] exI [of _ "[]"]) simp
  next
    case False
    then show ?thesis using a b d e by (intro exI [of _ a] exI [of _ "fst ?d"] exI [of _ b]) simp
  qed
qed

text \<open>
  C18: a member told to exit while its node is being created loses track of the node. The
  deletion it requests names the path without a sequence number, and when the creation then
  succeeds, with whatever number, the member ignores it: it never learns the number, and the
  ephemeral node stays in ZooKeeper as long as the session.
\<close>

theorem exit_during_creation_orphans_node:
  assumes "member_inv (em st)" and "step (em st) = STEP_CANDREQ"
  shows "let st' = transition E (E_CREATE_OK i) (transition E E_EXITING st)
         in step (em st') \<in> {STEP_LEAVING, STEP_FAILED} \<and> myid (em st') = -1 \<and>
            (\<exists>a rc b. out st' = out st @ a @
               [Zk (ZkDelete (realpath (sync (mg st)) (hashstr_str (key (em st)) @ ''-''))) rc] @ b \<and>
               list_all is_signal a \<and> list_all is_signal b)"
proof -
  have i: "myid (em st) = -1" using assms by (simp add: member_inv_def core_inv_def core_def)
  have t: "transition_step E E_EXITING st = become_leaver E st"
    using assms(2) by (simp add: transition_step_def transition_common_def in_CANDREQ_def)
  obtain s where s: "s \<in> {STEP_LEAVING, STEP_FAILED}"
    and cs: "core (em (become_leaver E st)) = (s, -1, -1, None)"
    using become_leaver_core [of E st] i by auto
  note c = core_eqD [OF cs]
  obtain l k where x: "em (transition E E_EXITING st) = (em (become_leaver E st))\<lparr>elog := l, log_index := k\<rparr>"
    "out (transition E E_EXITING st) = out (become_leaver E st)"
    using transition_quiet [of E E_EXITING st] s c unfolding t by auto
  let ?x = "transition E E_EXITING st"
  have u: "transition_step E (E_CREATE_OK i) ?x = ?x"
    using s c x by (auto simp: transition_step_def transition_common_def in_LEAVING_def in_FAILED_def)
  obtain l' k' where y: "em (transition E (E_CREATE_OK i) ?x) = (em ?x)\<lparr>elog := l', log_index := k'\<rparr>"
    "out (transition E (E_CREATE_OK i) ?x) = out ?x"
    using transition_quiet [of E "E_CREATE_OK i" ?x] s c x unfolding u by auto
  have p: "member_fullpath (em st) = hashstr_str (key (em st)) @ ''-''"
    using i by (simp add: member_fullpath_def)
  from leaver_out [of E st] show ?thesis
    unfolding Let_def using s c x y p by simp
qed

definition candreq_inputs :: "input list" where
  "candreq_inputs = [I_Kickoff]"

lemma candreq_run: "map_option (\<lambda>st. step (em st)) (quiet_run candreq_inputs) = Some STEP_CANDREQ"
  by code_simp

theorem exit_during_creation_orphans_node_witness:
  "\<exists>st. quiet_run candreq_inputs = Some st \<and>
     myid (em (transition quiet_env (E_CREATE_OK 3) (transition quiet_env E_EXITING st))) = -1"
proof -
  obtain st where st: "quiet_run candreq_inputs = Some st" "step (em st) = STEP_CANDREQ"
    using quiet_run_some [OF candreq_run] by auto
  with exit_during_creation_orphans_node [OF quiet_run_inv [OF st(1)] st(2), of quiet_env 3]
  show ?thesis by (auto simp: Let_def)
qed

subsection \<open>The event log\<close>

lemma ring_index:
  assumes "k \<le> 16"
  shows "unat (a - of_nat k :: u32) mod 16 = (unat a + (16 - k)) mod 16"
proof -
  have k: "uint (of_nat k :: u32) = int k" using assms by (simp add: uint_nat unat_of_nat)
  have "uint (a - of_nat k :: u32) = (uint a - int k) mod 2 ^ 32"
    using k by (simp add: uint_word_ariths(2))
  then have "uint (a - of_nat k :: u32) mod 16 = (uint a - int k) mod 16"
    by (simp add: mod_mod_cancel)
  also have "\<dots> = (uint a + (16 - int k)) mod 16"
    by (metis add_diff_eq diff_add_eq mod_add_self2)
  finally have "int (unat (a - of_nat k :: u32) mod 16) = int ((unat a + (16 - k)) mod 16)"
    using assms by (simp add: zmod_int of_nat_diff add_diff_eq)
  then show ?thesis by linarith
qed

text \<open>The ring read backwards: sixteen slots, the most recent first.\<close>

definition recent :: "election_member \<Rightarrow> logged_event list" where
  "recent m = map (dump_log_at m) [0..<EVENTLOG_SIZE]"

lemma dump_log_slot:
  "i < 16 \<Longrightarrow> dump_log_at m i = elog m ! ((unat (log_index m) + (15 - i)) mod 16)"
proof -
  assume i: "i < 16"
  have e: "log_index m - 1 - of_nat i = log_index m - of_nat (Suc i)" by simp
  have "16 - Suc i = 15 - i" by simp
  then show ?thesis using ring_index [of "Suc i" "log_index m"] i
    unfolding dump_log_at_def EVENTLOG_SIZE_def e by simp
qed

lemma mod16_ne: "0 < d \<Longrightarrow> d < 16 \<Longrightarrow> (n + d) mod 16 \<noteq> (n::nat) mod 16"
proof
  assume d: "0 < d" "d < 16" and "(n + d) mod 16 = n mod 16"
  then have "16 dvd (n + d) - n" by (metis le_add1 mod_eq_dvd_iff_nat)
  with d show False by (auto dest: dvd_imp_le)
qed

lemma recent_log_event:
  assumes "length (elog (em st)) = EVENTLOG_SIZE"
  shows "recent (em (member_log_event pre evt st)) =
         \<lparr>lg_event = evt, lg_pre = pre, lg_post = step (em st)\<rparr> # butlast (recent (em st))"
proof (rule nth_equalityI)
  show "length (recent (em (member_log_event pre evt st))) =
      length (\<lparr>lg_event = evt, lg_pre = pre, lg_post = step (em st)\<rparr> # butlast (recent (em st)))"
    by (simp add: recent_def EVENTLOG_SIZE_def)
next
  fix i assume "i < length (recent (em (member_log_event pre evt st)))"
  then have i: "i < 16" by (simp add: recent_def EVENTLOG_SIZE_def)
  let ?n = "log_index (em st)" and ?m = "em (member_log_event pre evt st)"
  let ?e = "\<lparr>lg_event = evt, lg_pre = pre, lg_post = step (em st)\<rparr>"
  have m: "elog ?m = (elog (em st))[unat ?n mod 16 := ?e]"
    by (simp add: member_log_event_def EVENTLOG_SIZE_def)
  have new: "dump_log_at ?m k = (elog (em st))[unat ?n mod 16 := ?e] ! ((unat ?n + (16 - k)) mod 16)" if "k < 16" for k
  proof -
    have e: "log_index ?m - 1 - of_nat k = ?n - of_nat k" by (simp add: member_log_event_def)
    show ?thesis using ring_index [of k ?n] that unfolding dump_log_at_def EVENTLOG_SIZE_def e m by simp
  qed
  show "recent ?m ! i = (?e # butlast (recent (em st))) ! i"
  proof (cases i)
    case 0
    then show ?thesis using new [of 0] assms by (simp add: recent_def EVENTLOG_SIZE_def)
  next
    case (Suc k)
    have ne: "(unat ?n + (15 - k)) mod 16 \<noteq> unat ?n mod 16"
      using i Suc by (intro mod16_ne) simp_all
    have "16 - i = 15 - k" using Suc by simp
    then have "dump_log_at ?m i = elog (em st) ! ((unat ?n + (15 - k)) mod 16)"
      using new [OF i] ne by (simp only: nth_list_update_neq [OF ne [symmetric]])
    then have "recent ?m ! i = elog (em st) ! ((unat ?n + (15 - k)) mod 16)"
      using i by (simp add: recent_def EVENTLOG_SIZE_def)
    also have "\<dots> = dump_log_at (em st) k" using dump_log_slot [of k "em st"] i Suc by simp
    also have "\<dots> = butlast (recent (em st)) ! k"
      using i Suc by (simp add: recent_def EVENTLOG_SIZE_def nth_butlast)
    finally show ?thesis using Suc by simp
  qed
qed

lemma takeWhile_take_eq: "takeWhile P (take n xs) = take n (takeWhile P xs)"
  by (induction xs arbitrary: n) (auto simp: take_Cons split: nat.split)

text \<open>
  C19: the event log is a ring that refines a bounded list. Logging an event puts it in front
  of what the dump shows and drops the oldest of sixteen entries, whatever the index, its
  wrap-around at \<open>2 ^ 32\<close> included, as long as the event did not leave the member where
  a fresh slot points (from \<open>NONE\<close> to \<open>NONE\<close>).
\<close>

theorem log_ring_refines_list:
  assumes "length (elog (em st)) = EVENTLOG_SIZE" and "\<not> (pre = STEP_NONE \<and> step (em st) = STEP_NONE)"
  shows "member_dump_log (em (member_log_event pre evt st)) =
         take EVENTLOG_SIZE (\<lparr>lg_event = evt, lg_pre = pre, lg_post = step (em st)\<rparr> # member_dump_log (em st))"
proof -
  let ?P = "\<lambda>e. \<not> (step_code (lg_pre e) = 0 \<and> step_code (lg_post e) = 0)"
  have z: "step_code s = 0 \<longleftrightarrow> s = STEP_NONE" for s by (cases s) simp_all
  have d: "member_dump_log m = takeWhile ?P (recent m)" for m
    by (simp add: member_dump_log_def recent_def)
  have "butlast (recent (em st)) = take 15 (recent (em st))"
    by (simp add: recent_def EVENTLOG_SIZE_def butlast_conv_take)
  then have "takeWhile ?P (butlast (recent (em st))) = take 15 (takeWhile ?P (recent (em st)))"
    by (simp add: takeWhile_take_eq)
  then show ?thesis
    using assms unfolding d recent_log_event [OF assms(1)] by (simp add: z EVENTLOG_SIZE_def)
qed

theorem log_ring_refines_list_witness:
  "member_dump_log (em (member_log_event STEP_NONE EVT_EXITING
      (upd (\<lambda>m. m\<lparr>step := STEP_LEAVING\<rparr>) (fresh 0 ''base'' ''type'' key_K quiet_manager)))) =
   [\<lparr>lg_event = EVT_EXITING, lg_pre = STEP_NONE, lg_post = STEP_LEAVING\<rparr>]"
proof -
  let ?st = "upd (\<lambda>m. m\<lparr>step := STEP_LEAVING\<rparr>) (fresh 0 ''base'' ''type'' key_K quiet_manager)"
  have l: "length (elog (em ?st)) = EVENTLOG_SIZE" by (simp add: fresh_def member_create_def)
  have "dump_log_at (em ?st) 0 = no_event"
    by (simp add: dump_log_slot fresh_def member_create_def EVENTLOG_SIZE_def)
  then have "member_dump_log (em ?st) = []"
    by (simp add: member_dump_log_def EVENTLOG_SIZE_def upt_rec no_event_def)
  with log_ring_refines_list [OF l, of STEP_NONE EVT_EXITING] show ?thesis
    by (simp add: EVENTLOG_SIZE_def)
qed

end
