(* ===== verification/Election_Cluster.thy ===== *)
theory Election_Cluster
  imports Election_Behaviour
begin

section \<open>An election across the services\<close>

text \<open>
  The members of one base on all its services, with ZooKeeper between them. The cluster holds
  the state of every member, the sequence numbers of the live nodes, the next number, and the
  completions under way: the successful creations and the listings, each a snapshot of the
  nodes at the moment ZooKeeper served it. A step is an action of ZooKeeper (a creation, a
  deletion or an expired session, a snapshot) or the delivery of any input to any member.
  Nothing bounds the delay of a completion, its repetition, or its reordering. ZooKeeper is
  what its documentation promises: sequence numbers grow within a directory and are
  never reused, and a listing is the set of the nodes at one moment.
\<close>

subsection \<open>Two facts on transitions\<close>

lemma core_of:
  "core m = (s, i, mi, u) \<Longrightarrow> myid m = i"
  by (simp add: core_def)

lemma myid_basic [simp]:
  "myid (em (become_leaver E st)) = myid (em st)"
  "myid (em (become_candidate E st)) = myid (em st)"
  "myid (em (member_ping E st)) = myid (em st)"
  "myid (em (restart_GETVERS_if_stale E st)) = myid (em st)"
  using become_leaver_core [of E st] become_candidate_core [of E st] ping_core [of E st] stale_core [of E st]
  by (auto dest: core_of core_myid)

lemma myid_restart: "myid (em (restart_election E st)) \<in> {myid (em st), -1}"
  using restart_election_core [of st E] by (auto dest: core_of)

lemmas myid_same [simp] =
  core_myid [OF defer_frame(3)] core_myid [OF reset_core(4)] core_myid [OF concerned_frame(1)]
  core_myid [OF start_core(2)] core_myid [OF start_core(3)]

lemma myid_set [simp]:
  "myid (em (member_set_status E s st)) = myid (em st)"
  "myid (em (member_set_master_url u st)) = myid (em st)"
  "myid (em (member_set_master_id i st)) = myid (em st)"
  "myid (em (member_reset st)) = -1"
  by (simp_all add: set_status_em member_set_master_url_def member_set_master_id_def member_reset_def Let_def)

lemma myid_finish [simp]:
  "myid (em (member_finish_PRELOST E st)) = myid (em st)"
  "myid (em (member_finish_PRELEAD E st)) = myid (em st)"
  by (simp_all add: member_finish_PRELOST_def member_finish_PRELEAD_def Let_def)

lemma myid_list: "myid (em (manage_list E l st)) \<in> {myid (em st), -1}"
  using myid_restart [of E "member_set_status E STEP_CANDOK st"]
  by (auto simp: manage_list_def Let_def case_prod_unfold)

lemma myid_in:
  "myid (em (in_NONE E evt st)) \<in> {myid (em st), -1}"
  "myid (em (in_CANDREQ E evt st)) \<in> {myid (em st)} \<union> {i. evt = E_CREATE_OK i}"
  "myid (em (in_CANDOK E evt st)) \<in> {myid (em st), -1}"
  "myid (em (in_PRELOST E evt st)) = myid (em st)"
  "myid (em (in_PRELEAD E evt st)) = myid (em st)"
  "myid (em (in_LEAVING E evt st)) \<in> {myid (em st), -1}"
  "myid (em (in_LOST E evt st)) = myid (em st)"
  "myid (em (in_LEADER E evt st)) = myid (em st)"
  "myid (em (in_FAILED E evt st)) \<in> {myid (em st), -1}"
  using myid_restart [of E st] myid_restart [of E "member_RESYNC_if_not_pending st"]
    myid_restart [of E "snd (member_failed_for_too_long E st)"] myid_list [of E _ st]
  by (cases evt; simp add: in_defs manage_deleted_def member_set_id_def failed_late_em Let_def case_prod_unfold)+

lemma transition_step_myid:
  "myid (em (transition_step E evt st)) \<in> {myid (em st), -1} \<union> {i. evt = E_CREATE_OK i \<and> step (em st) = STEP_CANDREQ}"
proof (cases "evt = E_DISCONNECTED")
  case True
  then show ?thesis by (simp add: transition_step_def transition_common_def)
next
  case False
  obtain c where c: "core (em c) = core (em st)" and t: "transition_step E evt st =
    (case step (em st) of
       STEP_NONE \<Rightarrow> in_NONE E evt c | STEP_CANDREQ \<Rightarrow> in_CANDREQ E evt c
     | STEP_CANDOK \<Rightarrow> in_CANDOK E evt c | STEP_PRELOST \<Rightarrow> in_PRELOST E evt c
     | STEP_PRELEAD \<Rightarrow> in_PRELEAD E evt c | STEP_LEAVING \<Rightarrow> in_LEAVING E evt c
     | STEP_LOST \<Rightarrow> in_LOST E evt c | STEP_LEADER \<Rightarrow> in_LEADER E evt c
     | STEP_FAILED \<Rightarrow> in_FAILED E evt c)"
    using transition_step_cases [OF False] by blast
  show ?thesis
    using myid_in [of E evt c] core_myid [OF c] by (cases "step (em st)") (auto simp: t)
qed

lemma transition_myid:
  "myid (em (transition E evt st)) \<in> {myid (em st), -1} \<union> {i. evt = E_CREATE_OK i \<and> step (em st) = STEP_CANDREQ}"
proof -
  let ?a = "after_step E (step (em st)) evt (transition_step E evt st)"
  have a: "myid (em ?a) = myid (em (transition_step E evt st))"
    using core_myid [OF after_step_frame(1)] .
  show ?thesis
    using transition_step_myid [of E evt st] a myid_restart [of E ?a]
    by (auto simp: transition_after_step Let_def)
qed

abbreviation leading :: "election_member \<Rightarrow> bool" where
  "leading m \<equiv> step m \<in> {STEP_PRELEAD, STEP_LEADER}"

lemma in_CANDOK_leads:
  assumes "step (em st) = STEP_CANDOK" and "leading (em (in_CANDOK E evt st))"
  shows "\<exists>l. evt = E_LIST_OK l \<and> step (em (in_CANDOK E evt st)) = STEP_PRELEAD"
proof -
  let ?S = "{s. s \<noteq> STEP_PRELEAD \<and> s \<noteq> STEP_LEADER}"
  have n: "step (em (become_leaver E st)) \<in> ?S" "step (em (become_candidate E st)) \<in> ?S"
    "step (em (member_ping E st)) \<in> ?S"
    using assms(1) by (intro leaver_step candidate_step ping_step; simp)+
  have "step (em (manage_list E l st)) \<in> {s. s \<noteq> STEP_LEADER}" for l
    by (rule manage_list_step) simp_all
  with n assms show ?thesis by (cases evt) (auto simp: in_CANDOK_def)
qed

text \<open>A member leads after an event only if it led before, or by a listing that puts it first.\<close>

lemma transition_leads:
  assumes inv: "member_inv (em st)" and ok: "event_ok evt" and l: "leading (em (transition E evt st))"
  shows "myid (em (transition E evt st)) = myid (em st) \<and>
     (leading (em st) \<or>
      (\<exists>l. evt = E_LIST_OK l \<and> myid (em st) \<in> set l \<and> (\<forall>i \<in> set l. myid (em st) \<le> i)))"
proof -
  have g: "step (em st) \<in> {STEP_CANDOK, STEP_PRELEAD, STEP_LEADER}"
  proof -
    have "step (em (transition E evt st)) \<in> step_graph (step (em st))"
      using transition_step_graph [OF inv, of E evt] transition_core [of E evt st] l
        core_step [of "em (transition E evt st)" "em (transition_step E evt st)"]
      by (auto split: if_splits)
    with l show ?thesis by (cases "step (em st)") (auto simp: step_graph_def)
  qed
  have "0 \<le> myid (em (transition E evt st))"
    using transition_inv [OF inv ok, of E] l by (auto simp: member_inv_def core_inv_def core_def)
  then have m: "myid (em (transition E evt st)) = myid (em st)"
    using transition_myid [of E evt st] g by auto
  moreover have "\<exists>l. evt = E_LIST_OK l \<and> myid (em st) \<in> set l \<and> (\<forall>i \<in> set l. myid (em st) \<le> i)"
    if c: "step (em st) = STEP_CANDOK"
  proof -
    have s: "core (em (transition E evt st)) = core (em (transition_step E evt st))"
      using transition_core [of E evt st] l by auto
    have d: "evt \<noteq> E_DISCONNECTED"
      using core_step [OF s] l by (auto simp: transition_step_def transition_common_def)
    obtain d where d: "core (em d) = core (em st)" "d = snd (transition_common E evt st)"
      "transition_step E evt st = in_CANDOK E evt d"
      using transition_step_cases [OF d, of st E] unfolding c by auto
    have "leading (em (in_CANDOK E evt d))" using core_step [OF s] l d(3) by simp
    then obtain l' where e: "evt = E_LIST_OK l'" "step (em (in_CANDOK E evt d)) = STEP_PRELEAD"
      using in_CANDOK_leads [of d E evt] core_step [OF d(1)] c by auto
    have "sorted l'" using ok e by (simp add: event_ok_def)
    moreover have "d = st" using d(2) e by (simp add: transition_common_def)
    moreover have "step (em (manage_list E l' st)) = STEP_PRELEAD"
      using e calculation by (simp add: in_CANDOK_def)
    ultimately show ?thesis using manage_list_not_master [OF inv c, of l' E] e by blast
  qed
  ultimately show ?thesis using g by auto
qed

subsection \<open>What an input can be\<close>

lemma input_event:
  assumes "handle_input E inp st = Some st'"
  shows "core (em st') = core (em st) \<or>
    (\<exists>ev st1. em st1 = em st \<and> core (em st') = core (em (transition E ev st1)) \<and> event_ok ev \<and>
       (\<forall>l. ev = E_LIST_OK l \<longrightarrow> (\<exists>sv. inp = I_List 0 sv \<and> l = nodev_to_int64v sv (hashstr_str (key (em st))))) \<and>
       (\<forall>i. ev = E_CREATE_OK i \<longrightarrow>
          (\<exists>p t. inp = I_Create 0 (Some p) \<and> after_last (CHR ''-'') p = Some t \<and> i = strtoll t)))"
    (is "_ \<or> ?R")
proof -
  have u: "\<And>s. core (em (member_unref s)) = core (em s)" by (simp add: unref_em)
  have k: "core (em st') = core (em (transition E ev st)) \<Longrightarrow> event_ok ev \<Longrightarrow>
      (\<forall>l. ev \<noteq> E_LIST_OK l) \<Longrightarrow> (\<forall>i. ev \<noteq> E_CREATE_OK i) \<Longrightarrow> ?R" for ev by blast
  have terr: "?R" if t: "transition_error E ev zrc st = Some x" "core (em st') = core (em x)" "event_ok ev"
    "\<forall>l. ev \<noteq> E_LIST_OK l" "\<forall>i. ev \<noteq> E_CREATE_OK i" for ev zrc x
  proof -
    have "x = transition E ev st \<or> x = transition E E_DISCONNECTED st"
      using t(1) by (auto simp: transition_error_def split: if_splits)
    with t(2-) k [of ev] k [of E_DISCONNECTED] show ?thesis by (auto simp: event_ok_def)
  qed
  note ok = event_ok_simple
  show ?thesis
  proof (cases inp)
    case (I_Create zrc path)
    show ?thesis
    proof (cases "zrc = ZOK")
      case False
      then obtain x where "transition_error E E_CREATE_KO zrc st = Some x" "st' = member_unref x"
        using assms I_Create by (auto simp: step_StartElection_completion_def)
      then show ?thesis using terr [of E_CREATE_KO zrc x] u by simp
    next
      case z: True
      show ?thesis
      proof (cases path)
        case None
        then have "st' = member_unref (transition E E_CREATE_KO st)"
          using assms I_Create z by (simp add: step_StartElection_completion_def)
        then show ?thesis using k [of E_CREATE_KO] u by simp
      next
        case (Some p)
        then obtain t where t: "after_last (CHR ''-'') p = Some t"
          "st' = member_unref (transition E (E_CREATE_OK (strtoll t)) st)"
          using assms I_Create z by (auto simp: step_StartElection_completion_def)
        then show ?thesis
          using create_ok [OF t(1)] I_Create z Some u
          by (intro disjI2 exI [of _ "E_CREATE_OK (strtoll t)"] exI [of _ st]) (simp add: ZOK_def)
      qed
    qed
  next
    case (I_List zrc sv)
    show ?thesis
    proof (cases "zrc = ZOK")
      case False
      then obtain x where "transition_error E E_LIST_KO zrc st = Some x" "st' = member_unref x"
        using assms I_List by (auto simp: step_ListGroup_completion_def)
      then show ?thesis using terr [of E_LIST_KO zrc x] u by simp
    next
      case True
      let ?l = "nodev_to_int64v sv (hashstr_str (key (em st)))"
      have "st' = member_unref (transition E (E_LIST_OK ?l) st)"
        using assms I_List True by (simp add: step_ListGroup_completion_def)
      then show ?thesis
        using I_List True u by (intro disjI2 exI [of _ "E_LIST_OK ?l"] exI [of _ st]) (simp add: ZOK_def)
    qed
  next
    case (I_Leave zrc)
    then consider "st' = member_unref (transition E E_LEAVE_OK st)"
      | x where "transition_error E E_LEAVE_KO zrc st = Some x" "st' = member_unref x"
      using assms by (auto simp: step_LeaveElection_completion_def Let_def split: if_splits)
    then show ?thesis using k [of E_LEAVE_OK] terr [of E_LEAVE_KO zrc] u by cases simp_all
  next
    case (I_WatchNode zrc)
    then consider "st' = member_unref st" | "st' = member_unref (transition E E_NODE_LEFT st)"
      | x where "transition_error E E_NONE zrc st = Some x" "st' = member_unref x"
      using assms by (auto simp: step_WatchNode_completion_def Let_def split: if_splits)
    then show ?thesis using k [of E_NODE_LEFT] terr [of E_NONE zrc] u by cases simp_all
  next
    case (I_Master zrc v)
    then consider w where "st' = member_unref (transition E (E_MASTER_OK w) st)"
      | "st' = member_unref (transition E E_MASTER_EMPTY st)"
      | x where "transition_error E E_MASTER_KO zrc st = Some x" "st' = member_unref x"
      using assms by (auto simp: step_AskMaster_completion_def Let_def split: if_splits option.splits)
    then show ?thesis
      using k [of "E_MASTER_OK _"] k [of E_MASTER_EMPTY] terr [of E_MASTER_KO zrc] u by cases simp_all
  next
    case (I_Getvers r e v)
    obtain st1 ev where g: "on_end_GETVERS E r e v st = transition E ev st1" "em st1 = em st"
      "ev \<in> {E_GETVERS_OK r, E_GETVERS_OUTDATED r, E_GETVERS_CONCURRENT r, E_GETVERS_ERROR r}"
      using on_end_GETVERS_cases by blast
    have n: "event_ok ev" "\<And>l. ev \<noteq> E_LIST_OK l" "\<And>i. ev \<noteq> E_CREATE_OK i" using g(3) by auto
    have "st' = transition E ev st1" using assms I_Getvers g(1) by simp
    with g(2) n show ?thesis by blast
  qed (use assms k [of E_NONE] k [of E_RESYNC_REQ] k [of E_EXITING] k [of E_MASTER_CHANGE] k [of E_NODE_LEFT]
      k [of "E_USE_RES _"] k [of "E_RESYNC_DONE _"] u in
      \<open>auto simp: member_kickoff_def step_WatchMaster_change_def step_WatchNode_change_def on_end_USE_def
        on_end_PIPEFROM_def split: if_splits\<close>)
qed

subsection \<open>The cluster\<close>

record cluster =
  members :: "nat \<Rightarrow> estate"
  znodes :: "int set"
  next_seq :: int
  owner :: "int \<Rightarrow> nat option"
  created :: "(nat \<times> int) set"
  listed :: "(nat \<times> string list) set"

text \<open>The name of a node: what \<open>member_fullpath\<close> asks for, with the number of ZooKeeper.\<close>

definition node_name :: "hashstr \<Rightarrow> int \<Rightarrow> string" where
  "node_name k z = hashstr_str k @ ''-'' @ pad10 z"

text \<open>A listing of the directory: the nodes of the base, and nodes of other bases.\<close>

definition listing :: "hashstr \<Rightarrow> int set \<Rightarrow> string list \<Rightarrow> bool" where
  "listing k zs sv \<longleftrightarrow>
     (\<exists>other. set sv = node_name k ` zs \<union> other \<and> (\<forall>s \<in> other. \<not> has_prefix s (hashstr_str k)))"

text \<open>
  An input is possible when ZooKeeper sent it: a successful creation carries the path of a node
  the member created, a successful listing is one of the snapshots.
\<close>

definition possible :: "hashstr \<Rightarrow> cluster \<Rightarrow> nat \<Rightarrow> input \<Rightarrow> bool" where
  "possible k s i inp =
     (case inp of
        I_Create zrc (Some p) \<Rightarrow>
          zrc = 0 \<longrightarrow> (\<exists>z dir. (i, z) \<in> created s \<and> p = dir @ ''/'' @ node_name k z)
      | I_List zrc sv \<Rightarrow> zrc = 0 \<longrightarrow> (i, sv) \<in> listed s
      | _ \<Rightarrow> True)"

inductive cluster_step :: "(nat \<Rightarrow> env) \<Rightarrow> hashstr \<Rightarrow> cluster \<Rightarrow> cluster \<Rightarrow> bool" for E k where
  zk_create: "next_seq s \<le> 2147483647 \<Longrightarrow>
    cluster_step E k s (s\<lparr>znodes := insert (next_seq s) (znodes s), next_seq := next_seq s + 1,
      owner := (owner s)(next_seq s := Some i), created := insert (i, next_seq s) (created s)\<rparr>)"
| zk_delete: "cluster_step E k s (s\<lparr>znodes := znodes s - {z}\<rparr>)"
| zk_list: "listing k (znodes s) sv \<Longrightarrow> cluster_step E k s (s\<lparr>listed := insert (i, sv) (listed s)\<rparr>)"
| deliver: "possible k s i inp \<Longrightarrow> handle_input (E i) inp (members s i) = Some st' \<Longrightarrow>
    cluster_step E k s (s\<lparr>members := (members s)(i := st')\<rparr>)"

inductive_cases cluster_stepE [consumes 1, case_names zk_create zk_delete zk_list deliver]:
  "cluster_step E k s s'"

definition cluster_init :: "(nat \<Rightarrow> gtimeval) \<Rightarrow> string \<Rightarrow> string \<Rightarrow> hashstr \<Rightarrow> (nat \<Rightarrow> election_manager) \<Rightarrow> cluster" where
  "cluster_init now n t k mgr =
     \<lparr>members = (\<lambda>i. fresh (now i) n t k (mgr i)), znodes = {}, next_seq = 0, owner = (\<lambda>_. None),
      created = {}, listed = {}\<rparr>"

definition cluster_reach :: "(nat \<Rightarrow> env) \<Rightarrow> string \<Rightarrow> string \<Rightarrow> hashstr \<Rightarrow> cluster \<Rightarrow> bool" where
  "cluster_reach E n t k s \<longleftrightarrow> (\<exists>now mgr. (cluster_step E k)\<^sup>*\<^sup>* (cluster_init now n t k mgr) s)"

subsection \<open>The numbers the members read\<close>

lemma pad10_no_dash: "0 \<le> z \<Longrightarrow> CHR ''-'' \<notin> set (pad10 z)"
  using nat_digits_digit [of "CHR ''-''" "nat z"]
  by (auto simp: pad10_def int_digits_def is_digit_def byte_of_def)

lemma node_name_number:
  assumes "0 \<le> z"
  shows "after_last (CHR ''-'') (node_name k z) = Some (pad10 z)"
    and "after_last (CHR ''-'') (dir @ ''/'' @ node_name k z) = Some (pad10 z)"
proof -
  show "after_last (CHR ''-'') (node_name k z) = Some (pad10 z)"
    using after_last_append [OF pad10_no_dash [OF assms], of "hashstr_str k"] by (simp add: node_name_def)
  show "after_last (CHR ''-'') (dir @ ''/'' @ node_name k z) = Some (pad10 z)"
    using after_last_append [OF pad10_no_dash [OF assms], of "dir @ ''/'' @ hashstr_str k"]
    by (simp add: node_name_def)
qed

lemma listing_numbers:
  assumes "listing k zs sv" and "\<forall>z \<in> zs. 0 \<le> z \<and> z < 2 ^ 63"
  shows "set (nodev_to_int64v sv (hashstr_str k)) = zs"
proof -
  obtain other where o: "set sv = node_name k ` zs \<union> other" "\<forall>s \<in> other. \<not> has_prefix s (hashstr_str k)"
    using assms(1) by (auto simp: listing_def)
  let ?f = "\<lambda>s. if has_prefix s (hashstr_str k) then after_last (CHR ''-'') s else None"
  have f: "\<And>z. z \<in> zs \<Longrightarrow> ?f (node_name k z) = Some (pad10 z)" "\<And>s. s \<in> other \<Longrightarrow> ?f s = None"
    using node_name_number(1) assms(2) o(2) by (auto simp: node_name_def)
  have m: "set (List.map_filter g xs) = {y. \<exists>x \<in> set xs. g x = Some y}" for g :: "string \<Rightarrow> string option" and xs
    by (induction xs) (auto simp: List.map_filter_def)
  have "set (List.map_filter ?f sv) = pad10 ` zs"
  proof (intro set_eqI iffI)
    fix y assume "y \<in> set (List.map_filter ?f sv)"
    then obtain x where x: "x \<in> set sv" "?f x = Some y" unfolding m by blast
    then show "y \<in> pad10 ` zs" using f unfolding o(1) by fastforce
  next
    fix y assume "y \<in> pad10 ` zs"
    then obtain z where z: "z \<in> zs" "y = pad10 z" by blast
    then have "node_name k z \<in> set sv" "?f (node_name k z) = Some y" using f(1) o(1) by auto
    then show "y \<in> set (List.map_filter ?f sv)" unfolding m by blast
  qed
  then have "set (nodev_to_int64v sv (hashstr_str k)) = strtoll ` pad10 ` zs"
    by (simp add: nodev_to_int64v_def)
  also have "\<dots> = (\<lambda>z. z) ` zs"
    unfolding image_image by (rule image_cong) (use assms(2) strtoll_pad10 in auto)
  also have "\<dots> = zs" by simp
  finally show ?thesis .
qed

subsection \<open>The invariant of the cluster\<close>

definition snapshot_ok :: "hashstr \<Rightarrow> cluster \<Rightarrow> string list \<Rightarrow> bool" where
  "snapshot_ok k s sv \<longleftrightarrow>
     (let l = set (nodev_to_int64v sv (hashstr_str k))
      in (\<forall>y \<in> l. y < next_seq s) \<and> (\<forall>z \<in> znodes s. z \<in> l \<or> (\<forall>y \<in> l. y < z)))"

definition member_ok :: "hashstr \<Rightarrow> cluster \<Rightarrow> nat \<Rightarrow> estate \<Rightarrow> bool" where
  "member_ok k s i st \<longleftrightarrow>
     member_inv (em st) \<and> key (em st) = k \<and>
     (myid (em st) = -1 \<or> (myid (em st) < next_seq s \<and> owner s (myid (em st)) = Some i)) \<and>
     (leading (em st) \<longrightarrow> (\<forall>z \<in> znodes s. myid (em st) \<le> z))"

definition cluster_inv :: "hashstr \<Rightarrow> cluster \<Rightarrow> bool" where
  "cluster_inv k s \<longleftrightarrow>
     0 \<le> next_seq s \<and> next_seq s \<le> 2147483648 \<and> (\<forall>z \<in> znodes s. 0 \<le> z \<and> z < next_seq s) \<and>
     (\<forall>(i, z) \<in> created s. 0 \<le> z \<and> z < next_seq s \<and> owner s z = Some i) \<and>
     (\<forall>(i, sv) \<in> listed s. snapshot_ok k s sv) \<and>
     (\<forall>i. member_ok k s i (members s i))"

lemma transition_error_ident: "transition_error E ev zrc st = Some x \<Longrightarrow> ident x = ident st"
  by (auto simp: transition_error_def split: if_splits)

lemma key_ident: "ident st' = ident st \<Longrightarrow> key (em st') = key (em st)"
  by (simp add: ident_def)

lemma unref_ident [simp]: "ident (member_unref s) = ident s"
  by (simp add: ident_def unref_em member_unref_def)

lemma map_unref_ident:
  "map_option member_unref x = Some st' \<Longrightarrow> (\<And>y. x = Some y \<Longrightarrow> ident y = ident st) \<Longrightarrow> ident st' = ident st"
  by (cases x) auto

lemma completion_ident:
  "step_StartElection_completion E zrc path st = Some st' \<Longrightarrow> ident st' = ident st"
  "step_ListGroup_completion E zrc sv st = Some st' \<Longrightarrow> ident st' = ident st"
  "step_LeaveElection_completion E zrc st = Some st' \<Longrightarrow> ident st' = ident st"
  "step_WatchNode_completion E zrc st = Some st' \<Longrightarrow> ident st' = ident st"
  "step_AskMaster_completion E zrc v st = Some st' \<Longrightarrow> ident st' = ident st"
  unfolding step_StartElection_completion_def step_ListGroup_completion_def
      step_LeaveElection_completion_def step_WatchNode_completion_def step_AskMaster_completion_def Let_def
  by (erule map_unref_ident, auto dest: transition_error_ident split: if_splits option.splits)+

lemma handle_input_ident:
  assumes "handle_input E inp st = Some st'"
  shows "ident st' = ident st"
proof (cases inp)
  case (I_Getvers r e v)
  obtain st1 ev where g: "on_end_GETVERS E r e v st = transition E ev st1" "em st1 = em st" "mg st1 = mg st"
    using on_end_GETVERS_cases by blast
  then have "ident st1 = ident st" by (simp add: ident_def)
  moreover have "st' = transition E ev st1" using g(1) assms I_Getvers by simp
  ultimately show ?thesis by simp
qed (use assms in \<open>auto simp: member_kickoff_def step_WatchMaster_change_def step_WatchNode_change_def
      on_end_USE_def on_end_PIPEFROM_def dest: completion_ident\<close>)

lemma member_ok_core:
  assumes "member_ok k s i st" and "core (em st') = core (em st)" and "member_inv (em st')" and "key (em st') = k"
  shows "member_ok k s i st'"
  using assms core_myid [OF assms(2)] core_step [OF assms(2)] by (simp add: member_ok_def)

lemma cluster_invD:
  assumes "cluster_inv k s"
  shows "(i, z) \<in> created s \<Longrightarrow> 0 \<le> z \<and> z < next_seq s \<and> owner s z = Some i"
    and "(i, sv) \<in> listed s \<Longrightarrow> snapshot_ok k s sv"
    and "member_ok k s i (members s i)" and "next_seq s \<le> 2147483648" and "0 \<le> next_seq s"
    and "z \<in> znodes s \<Longrightarrow> 0 \<le> z \<and> z < next_seq s"
  using assms unfolding cluster_inv_def by (fast, fast, fast, fast, fast, fast)

lemma snapshot_lowest:
  assumes "snapshot_ok k s sv" and "i \<in> set (nodev_to_int64v sv (hashstr_str k))"
    and "\<forall>y \<in> set (nodev_to_int64v sv (hashstr_str k)). i \<le> y" and "z \<in> znodes s"
  shows "i \<le> z"
  using assms unfolding snapshot_ok_def Let_def by (meson less_imp_le)

lemma deliver_ok:
  assumes inv: "cluster_inv k s" and p: "possible k s i inp"
    and h: "handle_input E inp (members s i) = Some st'"
  shows "member_ok k s i st'"
proof -
  let ?st = "members s i"
  have m: "member_ok k s i ?st" by (rule cluster_invD(3) [OF inv])
  then have mi: "member_inv (em ?st)" and k: "key (em ?st) = k" by (simp_all add: member_ok_def)
  have mi': "member_inv (em st')" by (rule handle_input_inv [OF mi h])
  have k': "key (em st') = k" using key_ident [OF handle_input_ident [OF h]] k by simp
  from input_event [OF h] show ?thesis
  proof
    assume "core (em st') = core (em ?st)"
    from member_ok_core [OF m this mi' k'] show ?thesis .
  next
    assume "\<exists>ev st1. em st1 = em ?st \<and> core (em st') = core (em (transition E ev st1)) \<and> event_ok ev \<and>
       (\<forall>l. ev = E_LIST_OK l \<longrightarrow> (\<exists>sv. inp = I_List 0 sv \<and> l = nodev_to_int64v sv (hashstr_str (key (em ?st))))) \<and>
       (\<forall>i. ev = E_CREATE_OK i \<longrightarrow>
          (\<exists>p t. inp = I_Create 0 (Some p) \<and> after_last (CHR ''-'') p = Some t \<and> i = strtoll t))"
    then obtain ev st1 where e: "em st1 = em ?st" "core (em st') = core (em (transition E ev st1))" "event_ok ev"
      and l: "\<forall>l. ev = E_LIST_OK l \<longrightarrow>
          (\<exists>sv. inp = I_List 0 sv \<and> l = nodev_to_int64v sv (hashstr_str (key (em ?st))))"
      and c: "\<forall>i. ev = E_CREATE_OK i \<longrightarrow>
          (\<exists>p t. inp = I_Create 0 (Some p) \<and> after_last (CHR ''-'') p = Some t \<and> i = strtoll t)"
      by (elim exE conjE)
    have id: "myid (em st') = myid (em (transition E ev st1))" "step (em st') = step (em (transition E ev st1))"
      using core_myid [OF e(2)] core_step [OF e(2)] .
    have own: "myid (em st') = -1 \<or> (myid (em st') < next_seq s \<and> owner s (myid (em st')) = Some i)"
    proof -
      consider "myid (em st') \<in> {myid (em ?st), -1}" | z where "ev = E_CREATE_OK z" "myid (em st') = z"
        using transition_myid [of E ev st1] id e(1) by auto
      then show ?thesis
      proof cases
        case 1
        then show ?thesis using m by (auto simp: member_ok_def)
      next
        case (2 z)
        obtain q t where q: "inp = I_Create 0 (Some q)" "after_last (CHR ''-'') q = Some t" "z = strtoll t"
          using c 2(1) by blast
        obtain y dir where y: "(i, y) \<in> created s" "q = dir @ ''/'' @ node_name k y"
          using p unfolding possible_def q(1) by auto
        have y0: "0 \<le> y" "y < next_seq s" "owner s y = Some i" "y < 2 ^ 63"
          using cluster_invD(1) [OF inv y(1)] cluster_invD(4) [OF inv] by simp_all
        then have "z = y" using q y(2) node_name_number(2) [of y dir k] by (simp add: strtoll_pad10)
        with y0 2 show ?thesis by simp
      qed
    qed
    have lead: "\<forall>z \<in> znodes s. myid (em st') \<le> z" if "leading (em st')"
    proof -
      have "leading (em (transition E ev st1))" using that id by simp
      from transition_leads [OF _ e(3) this] mi e(1)
      have eq: "myid (em st') = myid (em ?st)" and
        or: "leading (em ?st) \<or> (\<exists>l. ev = E_LIST_OK l \<and> myid (em ?st) \<in> set l \<and> (\<forall>i \<in> set l. myid (em ?st) \<le> i))"
        using id by simp_all
      from or show ?thesis
      proof
        assume "leading (em ?st)"
        then show ?thesis using m eq by (simp add: member_ok_def)
      next
        assume "\<exists>l. ev = E_LIST_OK l \<and> myid (em ?st) \<in> set l \<and> (\<forall>i \<in> set l. myid (em ?st) \<le> i)"
        then obtain l' where l': "ev = E_LIST_OK l'" "myid (em ?st) \<in> set l'" "\<forall>i \<in> set l'. myid (em ?st) \<le> i"
          by blast
        obtain sv where sv: "inp = I_List 0 sv" "l' = nodev_to_int64v sv (hashstr_str k)"
          using l l'(1) k by auto
        have "(i, sv) \<in> listed s" using p unfolding possible_def sv(1) by simp
        from snapshot_lowest [OF cluster_invD(2) [OF inv this]] l' sv(2) eq show ?thesis by simp
      qed
    qed
    show ?thesis unfolding member_ok_def using mi' k' own lead by blast
  qed
qed

lemma cluster_step_inv:
  assumes "cluster_step E k s s'" and inv: "cluster_inv k s"
  shows "cluster_inv k s'"
  using assms(1)
proof (cases rule: cluster_stepE)
  case (zk_create i)
  let ?n = "next_seq s"
  have own: "owner s' z = owner s z" if "z < ?n" for z using that zk_create by simp
  have z: "\<forall>z \<in> znodes s'. 0 \<le> z \<and> z < next_seq s'"
    using cluster_invD(5,6) [OF inv] zk_create by fastforce
  have c: "\<forall>(j, z) \<in> created s'. 0 \<le> z \<and> z < next_seq s' \<and> owner s' z = Some j"
  proof (clarify, goal_cases)
    case (1 j z)
    then show ?case
      using cluster_invD(1) [OF inv, of j z] cluster_invD(5) [OF inv] own [of z] zk_create by (cases "(j, z) \<in> created s") auto
  qed
  have l: "\<forall>(j, sv) \<in> listed s'. snapshot_ok k s' sv"
  proof (clarify, goal_cases)
    case (1 j sv)
    then have "snapshot_ok k s sv" using cluster_invD(2) [OF inv] zk_create by simp
    then show ?case using zk_create by (force simp: snapshot_ok_def Let_def)
  qed
  have m: "member_ok k s' j (members s' j)" for j
  proof -
    have o: "member_ok k s j (members s j)" by (rule cluster_invD(3) [OF inv])
    have lt: "myid (em (members s j)) < ?n"
      using o cluster_invD(5) [OF inv] by (auto simp: member_ok_def)
    show ?thesis
      using o lt own [OF lt] zk_create by (simp add: member_ok_def)
  qed
  show ?thesis
    using z c l m cluster_invD(5) [OF inv] zk_create by (simp add: cluster_inv_def)
next
  case (zk_delete z)
  have "snapshot_ok k s sv \<Longrightarrow> snapshot_ok k s' sv" for sv
    using zk_delete by (simp add: snapshot_ok_def Let_def)
  moreover have "member_ok k s j st \<Longrightarrow> member_ok k s' j st" for j st
    using zk_delete by (simp add: member_ok_def)
  ultimately show ?thesis using inv zk_delete unfolding cluster_inv_def by auto
next
  case (zk_list sv i)
  have bound: "\<forall>z \<in> znodes s. 0 \<le> z \<and> z < 2 ^ 63"
    using cluster_invD(4,6) [OF inv] by fastforce
  have "snapshot_ok k s sv"
    using listing_numbers [OF zk_list(2) bound] cluster_invD(6) [OF inv] by (simp add: snapshot_ok_def)
  moreover have "snapshot_ok k s' sv' = snapshot_ok k s sv'" for sv'
    using zk_list by (simp add: snapshot_ok_def)
  moreover have "member_ok k s' j st = member_ok k s j st" for j st
    using zk_list by (simp add: member_ok_def)
  ultimately show ?thesis using inv zk_list unfolding cluster_inv_def by auto
next
  case (deliver i inp st')
  have "member_ok k s i st'" by (rule deliver_ok [OF inv deliver(2,3)])
  moreover have "member_ok k s' j st = member_ok k s j st" for j st
    using deliver by (simp add: member_ok_def)
  moreover have "snapshot_ok k s' sv' = snapshot_ok k s sv'" for sv'
    using deliver by (simp add: snapshot_ok_def)
  ultimately show ?thesis using inv deliver unfolding cluster_inv_def by auto
qed

lemma cluster_init_inv: "hashstr_wf k \<Longrightarrow> cluster_inv k (cluster_init now n t k mgr)"
proof -
  assume k: "hashstr_wf k"
  have f: "key (em (fresh x n t k m)) = k" "myid (em (fresh x n t k m)) = -1"
    "step (em (fresh x n t k m)) = STEP_NONE" for x m
    using k by (simp_all add: fresh_def member_create_def hashstr_dup_wf)
  show ?thesis
    using f fresh_inv by (simp add: cluster_inv_def cluster_init_def member_ok_def)
qed

interpretation hosts: step_system "cluster_step E k" "cluster_inv k" for E k
  by unfold_locales (rule cluster_step_inv)

lemma cluster_reach_inv:
  assumes "cluster_reach E n t k s" and "hashstr_wf k"
  shows "cluster_inv k s"
proof -
  obtain now mgr where "(cluster_step E k)\<^sup>*\<^sup>* (cluster_init now n t k mgr) s"
    using assms(1) by (auto simp: cluster_reach_def)
  then show ?thesis using cluster_init_inv [OF assms(2)] by (rule hosts.steps_keep)
qed

text \<open>
  C1: at most one leader whose node is alive. In every state the cluster can reach, however
  the completions, listings, replies and failures interleave, two members of the same base
  that both lead (or prepare to) and whose nodes both exist in ZooKeeper are the same member.
  The condition on the nodes cannot go: a leader whose session expired leads until it is told.
\<close>

theorem at_most_one_live_leader:
  assumes "cluster_reach E n t k s" and "hashstr_wf k"
    and "leading (em (members s i))" and "myid (em (members s i)) \<in> znodes s"
    and "leading (em (members s j))" and "myid (em (members s j)) \<in> znodes s"
  shows "i = j"
proof -
  have inv: "cluster_inv k s" by (rule cluster_reach_inv [OF assms(1,2)])
  have m: "member_ok k s i (members s i)" "member_ok k s j (members s j)"
    by (rule cluster_invD(3) [OF inv])+
  have "myid (em (members s i)) = myid (em (members s j))"
    using m assms(3-6) unfolding member_ok_def by (meson order_antisym)
  moreover have "0 \<le> myid (em (members s i))" using cluster_invD(6) [OF inv assms(4)] by simp
  ultimately show ?thesis using m unfolding member_ok_def by auto
qed

definition first_inputs :: "input list" where
  "first_inputs = [I_Kickoff, I_Create 0 (Some ''/P/KEYK-0000000000''), I_List 0 [''KEYK-0000000000'']]"

lemma first_run:
  "map_option (\<lambda>st. (step (em st), myid (em st))) (quiet_run first_inputs) = Some (STEP_PRELEAD, 0)"
  by code_simp

lemma handle_alive_Some: "handle_alive E i x = Some st \<Longrightarrow> \<exists>s. x = Some s \<and> handle_input E i s = Some st"
  by (cases x) (simp_all add: handle_alive_def)

lemma key_K_wf: "hashstr_wf key_K"
  unfolding key_K_def by (rule hashstr_create_wf) (simp_all add: NUL_def)

lemma first_node: "node_name key_K 0 = ''KEYK-0000000000''"
proof -
  have "pad10 0 = ''0000000000''" by code_simp
  moreover have "hashstr_str key_K = ''KEYK''"
    using hashstr_create_nul_free(1) [of "''KEYK''"] key_K_wf by (simp add: NUL_def key_K_def)
  ultimately show ?thesis by (simp add: node_name_def)
qed

text \<open>A cluster in which the member 0 leads with its node alive.\<close>

lemma first_cluster:
  "\<exists>s. cluster_reach (\<lambda>_. quiet_env) ''base'' ''type'' key_K s \<and> leading (em (members s 0)) \<and>
     myid (em (members s 0)) \<in> znodes s"
proof -
  let ?E = "\<lambda>_::nat. quiet_env" and ?f = "fresh 0 ''base'' ''type'' key_K quiet_manager"
  let ?names = "[''KEYK-0000000000'']"
  obtain st3 where "quiet_run first_inputs = Some st3" and st3: "step (em st3) = STEP_PRELEAD" "myid (em st3) = 0"
    using quiet_run_some [OF first_run] by auto
  then obtain st1 st2 where h: "handle_input quiet_env I_Kickoff ?f = Some st1"
    "handle_input quiet_env (I_Create 0 (Some ''/P/KEYK-0000000000'')) st1 = Some st2"
    "handle_input quiet_env (I_List 0 ?names) st2 = Some st3"
    unfolding quiet_run_def first_inputs_def run_events.simps by (auto dest!: handle_alive_Some)
  define s0 where "s0 = cluster_init (\<lambda>_. 0) ''base'' ''type'' key_K (\<lambda>_. quiet_manager)"
  define s1 where "s1 = s0\<lparr>members := (members s0)(0 := st1)\<rparr>"
  define s2 where "s2 = s1\<lparr>znodes := insert (next_seq s1) (znodes s1), next_seq := next_seq s1 + 1,
      owner := (owner s1)(next_seq s1 := Some 0), created := insert (0, next_seq s1) (created s1)\<rparr>"
  define s3 where "s3 = s2\<lparr>members := (members s2)(0 := st2)\<rparr>"
  define s4 where "s4 = s3\<lparr>listed := insert (0, ?names) (listed s3)\<rparr>"
  define s5 where "s5 = s4\<lparr>members := (members s4)(0 := st3)\<rparr>"
  note defs = s0_def s1_def s2_def s3_def s4_def s5_def cluster_init_def
  have c1: "cluster_step ?E key_K s0 s1"
    unfolding s1_def by (rule cluster_step.deliver [where inp = I_Kickoff])
      (use h(1) in \<open>simp_all add: defs possible_def\<close>)
  have c2: "cluster_step ?E key_K s1 s2"
    unfolding s2_def by (rule cluster_step.zk_create) (simp add: defs)
  have "possible key_K s2 0 (I_Create 0 (Some ''/P/KEYK-0000000000''))"
    using first_node by (auto simp: possible_def defs intro!: exI [of _ "''/P''"])
  then have c3: "cluster_step ?E key_K s2 s3"
    unfolding s3_def by (rule cluster_step.deliver) (use h(2) in \<open>simp add: defs\<close>)
  have "listing key_K (znodes s3) ?names"
    unfolding listing_def by (rule exI [of _ "{}"]) (simp add: defs first_node)
  then have c4: "cluster_step ?E key_K s3 s4"
    unfolding s4_def by (rule cluster_step.zk_list)
  have "possible key_K s4 0 (I_List 0 ?names)" by (simp add: possible_def s4_def)
  then have c5: "cluster_step ?E key_K s4 s5"
    unfolding s5_def by (rule cluster_step.deliver) (use h(3) in \<open>simp add: defs\<close>)
  have "(cluster_step ?E key_K)\<^sup>*\<^sup>* s0 s5"
    using c1 c2 c3 c4 c5 by (meson converse_rtranclp_into_rtranclp rtranclp.rtrancl_refl)
  then have "cluster_reach ?E ''base'' ''type'' key_K s5"
    unfolding cluster_reach_def s0_def by blast
  then show ?thesis using st3 by (intro exI [of _ s5]) (simp add: defs)
qed

theorem at_most_one_live_leader_witness:
  "\<exists>s. cluster_reach (\<lambda>_. quiet_env) ''base'' ''type'' key_K s \<and> leading (em (members s 0)) \<and>
     myid (em (members s 0)) \<in> znodes s \<and>
     \<not> (leading (em (members s 1)) \<and> myid (em (members s 1)) \<in> znodes s)"
proof -
  obtain s where s: "cluster_reach (\<lambda>_. quiet_env) ''base'' ''type'' key_K s" "leading (em (members s 0))"
    "myid (em (members s 0)) \<in> znodes s" using first_cluster by blast
  then show ?thesis
    using at_most_one_live_leader [OF s(1) key_K_wf s(2,3), of 1] by (metis zero_neq_one)
qed

end
