(* ===== verification/Lru.thy ===== *)
theory Lru
  imports Metautils "HOL-Library.Multiset"
begin

section \<open>The tree with a least-recently-used queue\<close>

text \<open>
  Models \<open>metautils/lib/lrutree.c\<close>: nodes that are at once in a red-black tree by key and in
  a doubly linked queue by last access. The nodes live in a heap from addresses to nodes and
  the queue is made of the \<open>prev\<close> and \<open>next\<close> pointers of the source. The red-black tree of
  \<open>tree.h\<close> (a header of the BSD system) is the sequence of its nodes in the order of the
  tree: a lookup, an insertion and a removal on it are those of the ordered tree of the
  prelude. The keys and values handed to the release hooks are recorded in the order of
  the calls. The theorems show that the pointer structure refines a list of pairs, most
  recently used first.
\<close>

subsection \<open>Nodes\<close>

record ('k, 'v) node =
  nprev :: "nat option"
  nnext :: "nat option"
  nk :: "'k option"
  nv :: "'v option"

text \<open>\<open>next_addr\<close> is the allocator: addresses are never given twice.\<close>

record ('k, 'v) lru_tree =
  lt_kfree :: bool
  lt_vfree :: bool
  lt_flags :: u32
  lt_count :: int
  lt_base :: "nat list"
  lt_first :: "nat option"
  lt_last :: "nat option"
  lt_nodes :: "nat \<Rightarrow> ('k, 'v) node option"
  next_addr :: nat
  freed_k :: "'k list"
  freed_v :: "'v list"

definition LTO_NOATIME :: u32 where
  "LTO_NOATIME = 0x01"

definition node_at :: "('k, 'v) lru_tree \<Rightarrow> nat \<Rightarrow> ('k, 'v) node" where
  "node_at lt a = the (lt_nodes lt a)"

text \<open>Assignment to fields of the node at an address.\<close>

definition set_node ::
  "nat \<Rightarrow> (('k, 'v) node \<Rightarrow> ('k, 'v) node) \<Rightarrow> ('k, 'v) lru_tree \<Rightarrow> ('k, 'v) lru_tree" where
  "set_node a f lt = lt\<lparr>lt_nodes := (lt_nodes lt)(a := map_option f (lt_nodes lt a))\<rparr>"

definition node_cleanup :: "nat \<Rightarrow> ('k, 'v) lru_tree \<Rightarrow> ('k, 'v) lru_tree" where
  "node_cleanup a lt =
     (let lt = (case nv (node_at lt a) of
                  Some v \<Rightarrow> if lt_vfree lt then lt\<lparr>freed_v := freed_v lt @ [v]\<rparr> else lt
                | None \<Rightarrow> lt);
          lt = (case nk (node_at lt a) of
                  Some k \<Rightarrow> if lt_kfree lt then lt\<lparr>freed_k := freed_k lt @ [k]\<rparr> else lt
                | None \<Rightarrow> lt)
      in set_node a (\<lambda>n. n\<lparr>nk := None, nv := None\<rparr>) lt)"

definition node_create :: "'k \<Rightarrow> 'v \<Rightarrow> ('k, 'v) lru_tree \<Rightarrow> nat \<times> ('k, 'v) lru_tree" where
  "node_create k v lt =
     (let a = next_addr lt
      in (a, lt\<lparr>lt_nodes := (lt_nodes lt)(a \<mapsto> \<lparr>nprev = None, nnext = None, nk = Some k, nv = Some v\<rparr>),
                next_addr := a + 1\<rparr>))"

definition node_destroy :: "nat \<Rightarrow> ('k, 'v) lru_tree \<Rightarrow> ('k, 'v) lru_tree" where
  "node_destroy a lt = (let lt = node_cleanup a lt in lt\<lparr>lt_nodes := (lt_nodes lt)(a := None)\<rparr>)"

definition node_update :: "nat \<Rightarrow> 'k \<Rightarrow> 'v \<Rightarrow> ('k, 'v) lru_tree \<Rightarrow> ('k, 'v) lru_tree" where
  "node_update a k v lt = set_node a (\<lambda>n. n\<lparr>nk := Some k, nv := Some v\<rparr>) (node_cleanup a lt)"

text \<open>The extraction from the queue: both ends, then the neighbours, then the node itself.\<close>

definition deq_unlink_ends :: "nat \<Rightarrow> ('k, 'v) lru_tree \<Rightarrow> ('k, 'v) lru_tree" where
  "deq_unlink_ends a lt =
     (let lt = (if lt_first lt = Some a then lt\<lparr>lt_first := nnext (node_at lt a)\<rparr> else lt)
      in if lt_last lt = Some a then lt\<lparr>lt_last := nprev (node_at lt a)\<rparr> else lt)"

definition deq_unlink_prev :: "nat \<Rightarrow> ('k, 'v) lru_tree \<Rightarrow> ('k, 'v) lru_tree" where
  "deq_unlink_prev a lt =
     (case nprev (node_at lt a) of
        Some p \<Rightarrow> set_node p (\<lambda>n. n\<lparr>nnext := nnext (node_at lt a)\<rparr>) lt
      | None \<Rightarrow> lt)"

definition deq_unlink_next :: "nat \<Rightarrow> ('k, 'v) lru_tree \<Rightarrow> ('k, 'v) lru_tree" where
  "deq_unlink_next a lt =
     (case nnext (node_at lt a) of
        Some q \<Rightarrow> set_node q (\<lambda>n. n\<lparr>nprev := nprev (node_at lt a)\<rparr>) lt
      | None \<Rightarrow> lt)"

definition node_deq_extract :: "nat \<Rightarrow> ('k, 'v) lru_tree \<Rightarrow> ('k, 'v) lru_tree" where
  "node_deq_extract a lt =
     set_node a (\<lambda>n. n\<lparr>nnext := None, nprev := None\<rparr>)
       (deq_unlink_next a (deq_unlink_prev a (deq_unlink_ends a lt)))"

lemmas extract_defs = node_deq_extract_def deq_unlink_next_def deq_unlink_prev_def deq_unlink_ends_def

definition node_deq_push_front :: "nat \<Rightarrow> ('k, 'v) lru_tree \<Rightarrow> ('k, 'v) lru_tree" where
  "node_deq_push_front a lt =
     (case lt_first lt of
        None \<Rightarrow>
          let lt = set_node a (\<lambda>n. n\<lparr>nprev := None, nnext := None\<rparr>) lt
          in lt\<lparr>lt_first := Some a, lt_last := Some a\<rparr>
      | Some f \<Rightarrow>
          let lt = set_node a (\<lambda>n. n\<lparr>nprev := None, nnext := Some f\<rparr>) lt;
              lt = set_node f (\<lambda>n. n\<lparr>nprev := Some a\<rparr>) lt
          in lt\<lparr>lt_first := Some a\<rparr>)"

subsection \<open>The tree by key\<close>

definition node_key :: "('k, 'v) lru_tree \<Rightarrow> nat \<Rightarrow> 'k" where
  "node_key lt a = the (nk (node_at lt a))"

definition rb_view :: "('k, 'v) lru_tree \<Rightarrow> ('k, nat) gtree" where
  "rb_view lt = map (\<lambda>a. (node_key lt a, a)) (lt_base lt)"

definition rb_find :: "('k \<Rightarrow> 'k \<Rightarrow> int) \<Rightarrow> ('k, 'v) lru_tree \<Rightarrow> 'k \<Rightarrow> nat option" where
  "rb_find cmp lt k = g_tree_lookup cmp (rb_view lt) k"

definition rb_insert :: "('k \<Rightarrow> 'k \<Rightarrow> int) \<Rightarrow> nat \<Rightarrow> ('k, 'v) lru_tree \<Rightarrow> ('k, 'v) lru_tree" where
  "rb_insert cmp a lt = lt\<lparr>lt_base := map snd (g_tree_insert cmp (rb_view lt) (node_key lt a) a)\<rparr>"

definition rb_remove :: "nat \<Rightarrow> ('k, 'v) lru_tree \<Rightarrow> ('k, 'v) lru_tree" where
  "rb_remove a lt = lt\<lparr>lt_base := remove1 a (lt_base lt)\<rparr>"

subsection \<open>Operations\<close>

definition lru_tree_create :: "bool \<Rightarrow> bool \<Rightarrow> u32 \<Rightarrow> ('k, 'v) lru_tree" where
  "lru_tree_create kf vf options =
     \<lparr>lt_kfree = kf, lt_vfree = vf, lt_flags = options, lt_count = 0, lt_base = [],
      lt_first = None, lt_last = None, lt_nodes = (\<lambda>_. None), next_addr = 0,
      freed_k = [], freed_v = []\<rparr>"

definition lru_tree_insert ::
  "('k \<Rightarrow> 'k \<Rightarrow> int) \<Rightarrow> ('k, 'v) lru_tree \<Rightarrow> 'k \<Rightarrow> 'v \<Rightarrow> ('k, 'v) lru_tree" where
  "lru_tree_insert cmp lt k v =
     (let (node, lt) =
            (case rb_find cmp lt k of
               None \<Rightarrow>
                 let (node, lt) = node_create k v lt;
                     lt = rb_insert cmp node lt
                 in (node, lt\<lparr>lt_count := lt_count lt + 1\<rparr>)
             | Some node \<Rightarrow> (node, node_update node k v (node_deq_extract node lt)))
      in node_deq_push_front node lt)"

text \<open>The access that moves a node in front, unless the tree was told not to.\<close>

definition lru_touch :: "nat \<Rightarrow> ('k, 'v) lru_tree \<Rightarrow> ('k, 'v) lru_tree" where
  "lru_touch node lt =
     (if lt_flags lt AND LTO_NOATIME = 0 then node_deq_push_front node (node_deq_extract node lt) else lt)"

definition lru_tree_get ::
  "('k \<Rightarrow> 'k \<Rightarrow> int) \<Rightarrow> ('k, 'v) lru_tree \<Rightarrow> 'k \<Rightarrow> 'v option \<times> ('k, 'v) lru_tree" where
  "lru_tree_get cmp lt k =
     (case rb_find cmp lt k of
        None \<Rightarrow> (None, lt)
      | Some node \<Rightarrow> let lt = lru_touch node lt in (nv (node_at lt node), lt))"

definition lru_tree_remove ::
  "('k \<Rightarrow> 'k \<Rightarrow> int) \<Rightarrow> ('k, 'v) lru_tree \<Rightarrow> 'k \<Rightarrow> bool \<times> ('k, 'v) lru_tree" where
  "lru_tree_remove cmp lt k =
     (case rb_find cmp lt k of
        None \<Rightarrow> (False, lt)
      | Some node \<Rightarrow>
          let lt = node_deq_extract node (rb_remove node lt);
              lt = lt\<lparr>lt_count := lt_count lt - 1\<rparr>
          in (True, node_destroy node lt))"

definition lru_tree_steal ::
  "('k \<Rightarrow> 'k \<Rightarrow> int) \<Rightarrow> ('k, 'v) lru_tree \<Rightarrow> 'k \<Rightarrow> 'v option \<times> ('k, 'v) lru_tree" where
  "lru_tree_steal cmp lt k =
     (case rb_find cmp lt k of
        None \<Rightarrow> (None, lt)
      | Some node \<Rightarrow>
          let lt = node_deq_extract node (rb_remove node lt);
              lt = lt\<lparr>lt_count := lt_count lt - 1\<rparr>;
              result = nv (node_at lt node);
              lt = set_node node (\<lambda>n. n\<lparr>nv := None\<rparr>) lt
          in (result, node_destroy node lt))"

definition lru_get ::
  "('k, 'v) lru_tree \<Rightarrow> nat option \<Rightarrow> bool \<Rightarrow> ('k \<times> 'v) option \<times> ('k, 'v) lru_tree" where
  "lru_get lt node steal =
     (case node of
        None \<Rightarrow> (None, lt)
      | Some a \<Rightarrow>
          let pk = the (nk (node_at lt a)); pv = the (nv (node_at lt a))
          in if steal then
               let lt = set_node a (\<lambda>n. n\<lparr>nk := None, nv := None\<rparr>) lt;
                   lt = node_destroy a (node_deq_extract a (rb_remove a lt))
               in (Some (pk, pv), lt\<lparr>lt_count := lt_count lt - 1\<rparr>)
             else (Some (pk, pv), lru_touch a lt))"

definition lru_tree_get_first :: "('k, 'v) lru_tree \<Rightarrow> ('k \<times> 'v) option \<times> ('k, 'v) lru_tree" where
  "lru_tree_get_first lt = lru_get lt (lt_first lt) False"

definition lru_tree_steal_first :: "('k, 'v) lru_tree \<Rightarrow> ('k \<times> 'v) option \<times> ('k, 'v) lru_tree" where
  "lru_tree_steal_first lt = lru_get lt (lt_first lt) True"

definition lru_tree_get_last :: "('k, 'v) lru_tree \<Rightarrow> ('k \<times> 'v) option \<times> ('k, 'v) lru_tree" where
  "lru_tree_get_last lt = lru_get lt (lt_last lt) False"

definition lru_tree_steal_last :: "('k, 'v) lru_tree \<Rightarrow> ('k \<times> 'v) option \<times> ('k, 'v) lru_tree" where
  "lru_tree_steal_last lt = lru_get lt (lt_last lt) True"

text \<open>The walks. A hook returns whether to stop, and its state.\<close>

fun foreach_TREE_loop ::
  "('k \<Rightarrow> 'v \<Rightarrow> 's \<Rightarrow> bool \<times> 's) \<Rightarrow> ('k, 'v) lru_tree \<Rightarrow> nat list \<Rightarrow> 's \<Rightarrow> 's" where
  "foreach_TREE_loop h lt [] s = s"
| "foreach_TREE_loop h lt (a # as) s =
     (let (stop, s) = h (node_key lt a) (the (nv (node_at lt a))) s
      in if stop then s else foreach_TREE_loop h lt as s)"

definition lru_tree_foreach_TREE ::
  "('k, 'v) lru_tree \<Rightarrow> ('k \<Rightarrow> 'v \<Rightarrow> 's \<Rightarrow> bool \<times> 's) \<Rightarrow> 's \<Rightarrow> 's" where
  "lru_tree_foreach_TREE lt h s = foreach_TREE_loop h lt (lt_base lt) s"

text \<open>The loops on the queue follow pointers: not returning is the value \<open>None\<close>.\<close>

partial_function (option) foreach_DEQ_loop ::
  "('k \<Rightarrow> 'v \<Rightarrow> 's \<Rightarrow> bool \<times> 's) \<Rightarrow> ('k, 'v) lru_tree \<Rightarrow> nat option \<Rightarrow> 's \<Rightarrow> 's option" where
  "foreach_DEQ_loop h lt node s =
     (case node of
        None \<Rightarrow> Some s
      | Some a \<Rightarrow>
          let r = h (node_key lt a) (the (nv (node_at lt a))) s
          in if fst r then Some (snd r) else foreach_DEQ_loop h lt (nnext (node_at lt a)) (snd r))"

definition lru_tree_foreach_DEQ ::
  "('k, 'v) lru_tree \<Rightarrow> ('k \<Rightarrow> 'v \<Rightarrow> 's \<Rightarrow> bool \<times> 's) \<Rightarrow> 's \<Rightarrow> 's option" where
  "lru_tree_foreach_DEQ lt h s = foreach_DEQ_loop h lt (lt_first lt) s"

definition destroy_first :: "nat \<Rightarrow> ('k, 'v) lru_tree \<Rightarrow> ('k, 'v) lru_tree" where
  "destroy_first n lt =
     (let lt = lt\<lparr>lt_first := nnext (node_at lt n)\<rparr>;
          lt = (case lt_first lt of Some f \<Rightarrow> set_node f (\<lambda>x. x\<lparr>nprev := None\<rparr>) lt | None \<Rightarrow> lt)
      in node_destroy n lt)"

partial_function (option) lru_tree_destroy :: "('k, 'v) lru_tree \<Rightarrow> ('k, 'v) lru_tree option" where
  "lru_tree_destroy lt =
     (case lt_first lt of
        None \<Rightarrow> Some lt
      | Some n \<Rightarrow> lru_tree_destroy (destroy_first n lt))"

definition lru_tree_count :: "('k, 'v) lru_tree \<Rightarrow> int" where
  "lru_tree_count lt = lt_count lt"

subsection \<open>The queue as a list of addresses\<close>

definition first_of :: "nat list \<Rightarrow> nat option \<Rightarrow> nat option" where
  "first_of as n = (case as of [] \<Rightarrow> n | b # _ \<Rightarrow> Some b)"

fun last_of :: "nat option \<Rightarrow> nat list \<Rightarrow> nat option" where
  "last_of p [] = p"
| "last_of p (a # as) = last_of (Some a) as"

lemma first_of_simps [simp]: "first_of [] n = n" "first_of (b # bs) n = Some b"
  by (simp_all add: first_of_def)

lemma last_of_append [simp]: "last_of p (xs @ ys) = last_of (last_of p xs) ys"
  by (induction xs arbitrary: p) simp_all

lemma first_of_append [simp]: "first_of (xs @ ys) n = first_of xs (first_of ys n)"
  by (cases xs) simp_all

lemma first_of_in: "first_of as n = Some b \<Longrightarrow> b \<in> set as \<or> n = Some b"
  by (cases as) simp_all

lemma last_of_in: "last_of p as = Some b \<Longrightarrow> b \<in> set as \<or> p = Some b"
  by (induction as arbitrary: p) force+

lemma last_of_Some: "last_of (Some p) as = Some (List.last (p # as))"
  by (induction as arbitrary: p) simp_all

text \<open>The chain of nodes between a predecessor and a successor.\<close>

fun seg :: "(nat \<Rightarrow> ('k, 'v) node option) \<Rightarrow> nat option \<Rightarrow> nat list \<Rightarrow> nat option \<Rightarrow> bool" where
  "seg h p [] n \<longleftrightarrow> True"
| "seg h p (a # as) n \<longleftrightarrow>
     (case h a of
        None \<Rightarrow> False
      | Some x \<Rightarrow> nprev x = p \<and> nnext x = first_of as n) \<and> seg h (Some a) as n"

lemma seg_append:
  "seg h p (xs @ ys) n \<longleftrightarrow> seg h p xs (first_of ys n) \<and> seg h (last_of p xs) ys n"
  by (induction xs arbitrary: p) (auto split: option.splits)

lemma seg_frame: "a \<notin> set as \<Longrightarrow> seg (h(a := x)) p as n = seg h p as n"
  by (induction as arbitrary: p) auto

lemma seg_relabel:
  assumes "\<And>n. nprev (f n) = nprev n" and "\<And>n. nnext (f n) = nnext n"
  shows "seg (h(a := map_option f (h a))) p as n = seg h p as n"
  using assms by (induction as arbitrary: p) (auto split: option.split)

definition queue :: "('k, 'v) lru_tree \<Rightarrow> nat list \<Rightarrow> bool" where
  "queue lt as \<longleftrightarrow>
     distinct as \<and> seg (lt_nodes lt) None as None \<and> lt_first lt = first_of as None \<and>
     lt_last lt = last_of None as"

text \<open>What a node stores, whatever its place in the queue.\<close>

definition stored :: "('k, 'v) lru_tree \<Rightarrow> nat \<Rightarrow> ('k option \<times> 'v option) option" where
  "stored lt a = map_option (\<lambda>n. (nk n, nv n)) (lt_nodes lt a)"

text \<open>The fields of the tree that the queue operations leave alone.\<close>

definition same_store :: "('k, 'v) lru_tree \<Rightarrow> ('k, 'v) lru_tree \<Rightarrow> bool" where
  "same_store lt lt' \<longleftrightarrow>
     stored lt = stored lt' \<and> lt_kfree lt = lt_kfree lt' \<and> lt_vfree lt = lt_vfree lt' \<and>
     lt_flags lt = lt_flags lt' \<and> lt_count lt = lt_count lt' \<and> lt_base lt = lt_base lt' \<and>
     next_addr lt = next_addr lt' \<and> freed_k lt = freed_k lt' \<and> freed_v lt = freed_v lt'"

lemma set_node_simps [simp]:
  "lt_kfree (set_node a f lt) = lt_kfree lt" "lt_vfree (set_node a f lt) = lt_vfree lt"
  "lt_flags (set_node a f lt) = lt_flags lt" "lt_count (set_node a f lt) = lt_count lt"
  "lt_base (set_node a f lt) = lt_base lt" "lt_first (set_node a f lt) = lt_first lt"
  "lt_last (set_node a f lt) = lt_last lt" "next_addr (set_node a f lt) = next_addr lt"
  "freed_k (set_node a f lt) = freed_k lt" "freed_v (set_node a f lt) = freed_v lt"
  "lt_nodes (set_node a f lt) = (lt_nodes lt)(a := map_option f (lt_nodes lt a))"
  by (simp_all add: set_node_def)

lemma stored_relink:
  "(\<And>n. nk (f n) = nk n) \<Longrightarrow> (\<And>n. nv (f n) = nv n) \<Longrightarrow> stored (set_node a f lt) = stored lt"
  by (auto simp: stored_def fun_eq_iff option.map_comp comp_def)

lemma stored_fields [simp]:
  "stored (lt\<lparr>lt_first := x\<rparr>) = stored lt" "stored (lt\<lparr>lt_last := x\<rparr>) = stored lt"
  "stored (lt\<lparr>lt_base := y\<rparr>) = stored lt" "stored (lt\<lparr>lt_count := z\<rparr>) = stored lt"
  by (simp_all add: stored_def fun_eq_iff)

lemma same_store_refl [simp]: "same_store lt lt"
  by (simp add: same_store_def)

lemma same_store_trans: "same_store a b \<Longrightarrow> same_store b c \<Longrightarrow> same_store a c"
  by (simp add: same_store_def)

lemma unlink_same_store:
  "same_store (deq_unlink_ends a lt) lt" "same_store (deq_unlink_prev a lt) lt"
  "same_store (deq_unlink_next a lt) lt"
  by (simp_all add: same_store_def deq_unlink_ends_def deq_unlink_prev_def deq_unlink_next_def
      Let_def stored_relink split: option.split)

lemma extract_same_store: "same_store (node_deq_extract a lt) lt"
proof -
  have "same_store (node_deq_extract a lt) (deq_unlink_next a (deq_unlink_prev a (deq_unlink_ends a lt)))"
    by (simp add: same_store_def node_deq_extract_def stored_relink)
  then show ?thesis by (blast intro: same_store_trans unlink_same_store)
qed

lemma push_front_same_store: "same_store (node_deq_push_front a lt) lt"
  by (simp add: same_store_def node_deq_push_front_def Let_def stored_relink split: option.split)

lemma queue_extract:
  assumes "queue lt (xs @ a # ys)"
  shows "queue (node_deq_extract a lt) (xs @ ys)"
proof -
  have d: "distinct (xs @ a # ys)" and sg: "seg (lt_nodes lt) None (xs @ a # ys) None"
    and f: "lt_first lt = first_of xs (Some a)" and l: "lt_last lt = last_of (Some a) ys"
    using assms by (simp_all add: queue_def)
  obtain x where x: "lt_nodes lt a = Some x" "nprev x = last_of None xs" "nnext x = first_of ys None"
    and sx: "seg (lt_nodes lt) None xs (Some a)" and sy: "seg (lt_nodes lt) (Some a) ys None"
    using sg by (auto simp: seg_append split: option.splits)
  show ?thesis
  proof (cases xs rule: rev_cases; cases ys)
    assume [simp]: "xs = []" "ys = []"
    show ?thesis using d f l x by (simp add: queue_def extract_defs Let_def node_at_def)
  next
    fix q ys' assume [simp]: "xs = []" "ys = q # ys'"
    obtain y where "lt_nodes lt q = Some y" using sy by (auto split: option.splits)
    moreover have "last_of (Some q) ys' \<noteq> Some a" using d last_of_in by fastforce
    ultimately show ?thesis using d f l x sy
      by (auto simp: queue_def extract_defs Let_def node_at_def seg_frame)
  next
    fix xs' p assume [simp]: "xs = xs' @ [p]" "ys = []"
    obtain y where "lt_nodes lt p = Some y" using sx by (auto simp: seg_append split: option.splits)
    moreover have "first_of xs' (Some p) \<noteq> Some a" using d first_of_in by fastforce
    ultimately show ?thesis using d f l x sx
      by (auto simp: queue_def extract_defs Let_def node_at_def seg_frame seg_append)
  next
    fix xs' p q ys' assume [simp]: "xs = xs' @ [p]" "ys = q # ys'"
    obtain y z where "lt_nodes lt p = Some y" "lt_nodes lt q = Some z"
      using sx sy by (auto simp: seg_append split: option.splits)
    moreover have "last_of (Some q) ys' \<noteq> Some a" using d last_of_in by fastforce
    moreover have "first_of xs' (Some p) \<noteq> Some a" using d first_of_in by fastforce
    ultimately show ?thesis using d f l x sx sy
      by (auto simp: queue_def extract_defs Let_def node_at_def seg_frame seg_append)
  qed
qed

lemma queue_push_front:
  assumes "queue lt as" and "a \<notin> set as" and "lt_nodes lt a \<noteq> None"
  shows "queue (node_deq_push_front a lt) (a # as)"
proof (cases as)
  case Nil
  with assms show ?thesis by (auto simp: queue_def node_deq_push_front_def)
next
  case (Cons b bs)
  with assms show ?thesis
    by (auto simp: queue_def node_deq_push_front_def seg_frame split: option.splits)
qed

lemma queue_frame:
  assumes "queue lt as" and "a \<notin> set as" and "lt_nodes lt' = (lt_nodes lt)(a := x)"
    and "lt_first lt' = lt_first lt" and "lt_last lt' = lt_last lt"
  shows "queue lt' as"
  using assms by (simp add: queue_def seg_frame)

lemma node_cleanup_simps [simp]:
  "lt_kfree (node_cleanup a lt) = lt_kfree lt" "lt_vfree (node_cleanup a lt) = lt_vfree lt"
  "lt_flags (node_cleanup a lt) = lt_flags lt" "lt_count (node_cleanup a lt) = lt_count lt"
  "lt_base (node_cleanup a lt) = lt_base lt" "lt_first (node_cleanup a lt) = lt_first lt"
  "lt_last (node_cleanup a lt) = lt_last lt" "next_addr (node_cleanup a lt) = next_addr lt"
  "lt_nodes (node_cleanup a lt) =
     (lt_nodes lt)(a := map_option (\<lambda>n. n\<lparr>nk := None, nv := None\<rparr>) (lt_nodes lt a))"
  by (simp_all add: node_cleanup_def Let_def split: option.split)

lemma node_cleanup_freed:
  assumes "lt_nodes lt a = Some n"
  shows "freed_k (node_cleanup a lt) =
      freed_k lt @ (case nk n of Some k \<Rightarrow> if lt_kfree lt then [k] else [] | None \<Rightarrow> [])"
    and "freed_v (node_cleanup a lt) =
      freed_v lt @ (case nv n of Some v \<Rightarrow> if lt_vfree lt then [v] else [] | None \<Rightarrow> [])"
  using assms by (simp_all add: node_cleanup_def node_at_def split: option.split)

subsection \<open>The pairs a tree represents\<close>

definition entry :: "('k, 'v) lru_tree \<Rightarrow> nat \<Rightarrow> 'k \<times> 'v" where
  "entry lt a = (node_key lt a, the (nv (node_at lt a)))"

definition filled :: "('k, 'v) lru_tree \<Rightarrow> nat \<Rightarrow> bool" where
  "filled lt a \<longleftrightarrow> (\<exists>k v. stored lt a = Some (Some k, Some v))"

lemma entry_stored: "stored lt a = Some (Some k, Some v) \<Longrightarrow> entry lt a = (k, v)"
  by (auto simp: stored_def entry_def node_key_def node_at_def)

lemma filled_entry: "filled lt a \<longleftrightarrow> stored lt a = Some (Some (fst (entry lt a)), Some (snd (entry lt a)))"
  by (auto simp: filled_def entry_stored)

lemma entry_cong: "stored lt' a = stored lt a \<Longrightarrow> filled lt a \<Longrightarrow> entry lt' a = entry lt a"
  by (auto simp: filled_def entry_stored)

lemma filled_cong: "stored lt' a = stored lt a \<Longrightarrow> filled lt' a = filled lt a"
  by (simp add: filled_def)

lemma node_key_entry: "node_key lt a = fst (entry lt a)"
  by (simp add: entry_def)

definition rep :: "('k \<Rightarrow> 'k \<Rightarrow> int) \<Rightarrow> ('k \<Rightarrow> bool) \<Rightarrow> ('k, 'v) lru_tree \<Rightarrow> nat list \<Rightarrow> bool" where
  "rep cmp okk lt as \<longleftrightarrow>
     queue lt as \<and> mset (lt_base lt) = mset as \<and>
     gtree_ok cmp okk (rb_view lt) \<and> lt_count lt = int (length as) \<and>
     (\<forall>a \<in> set as. filled lt a) \<and> (\<forall>a. lt_nodes lt a \<noteq> None \<longrightarrow> a \<in> set as \<and> a < next_addr lt)"

definition represents ::
  "('k \<Rightarrow> 'k \<Rightarrow> int) \<Rightarrow> ('k \<Rightarrow> bool) \<Rightarrow> ('k, 'v) lru_tree \<Rightarrow> ('k \<times> 'v) list \<Rightarrow> bool" where
  "represents cmp okk lt xs \<longleftrightarrow> (\<exists>as. rep cmp okk lt as \<and> xs = map (entry lt) as)"

lemma repD:
  assumes "rep cmp okk lt as"
  shows "queue lt as" "distinct as" "set (lt_base lt) = set as" "distinct (lt_base lt)"
    "gtree_ok cmp okk (rb_view lt)" "lt_count lt = int (length as)"
    "a \<in> set as \<Longrightarrow> filled lt a" "lt_nodes lt b \<noteq> None \<Longrightarrow> b \<in> set as \<and> b < next_addr lt"
    "mset (lt_base lt) = mset as"
  using assms unfolding rep_def queue_def by (metis mset_eq_setD mset_eq_imp_distinct_iff)+

lemma rb_view_cong:
  assumes "lt_base lt' = lt_base lt" and "\<And>a. a \<in> set (lt_base lt) \<Longrightarrow> entry lt' a = entry lt a"
  shows "rb_view lt' = rb_view lt"
  using assms by (simp add: rb_view_def node_key_entry)

lemma rb_view_keys: "map fst (rb_view lt) = map (node_key lt) (lt_base lt)" "map snd (rb_view lt) = lt_base lt"
  by (simp_all add: rb_view_def comp_def)

lemma rep_move:
  assumes r: "rep cmp okk lt as" and s: "same_store lt' lt" and q: "queue lt' as'" and e: "set as' = set as"
  shows "rep cmp okk lt' as'" and "\<And>a. a \<in> set as \<Longrightarrow> entry lt' a = entry lt a"
proof -
  have st: "stored lt' = stored lt" "lt_base lt' = lt_base lt" "lt_count lt' = lt_count lt"
    "next_addr lt' = next_addr lt" using s by (simp_all add: same_store_def)
  show en: "\<And>a. a \<in> set as \<Longrightarrow> entry lt' a = entry lt a"
    using st(1) repD(7) [OF r] entry_cong by metis
  have v: "rb_view lt' = rb_view lt" by (rule rb_view_cong) (use st(2) en repD(3) [OF r] in auto)
  have n: "lt_nodes lt' a \<noteq> None \<longleftrightarrow> lt_nodes lt a \<noteq> None" for a
    using fun_cong [OF st(1), of a] by (cases "lt_nodes lt a"; cases "lt_nodes lt' a") (auto simp: stored_def)
  have "distinct as'" using q by (simp add: queue_def)
  then have m: "mset as' = mset as" using e repD(2) [OF r] by (metis set_eq_iff_mset_eq_distinct)
  then have "length as' = length as" by (rule mset_eq_length)
  then show "rep cmp okk lt' as'"
    using r q e m st v n filled_cong [of lt' _ lt] by (simp add: rep_def)
qed

lemma rep_drop:
  assumes r: "rep cmp okk lt (xs @ a # ys)" and q: "queue lt' (xs @ ys)"
    and s: "\<And>b. b \<noteq> a \<Longrightarrow> stored lt' b = stored lt b" and n: "lt_nodes lt' a = None"
    and f: "lt_base lt' = remove1 a (lt_base lt)" "lt_count lt' = lt_count lt - 1" "next_addr lt' = next_addr lt"
  shows "rep cmp okk lt' (xs @ ys)" and "map (entry lt') (xs @ ys) = map (entry lt) (xs @ ys)"
proof -
  have d: "a \<notin> set (xs @ ys)" using repD(2) [OF r] by auto
  have en: "entry lt' b = entry lt b" if "b \<in> set (xs @ ys)" for b
  proof (rule entry_cong)
    show "stored lt' b = stored lt b" using that d by (intro s) auto
    show "filled lt b" by (rule repD(7) [OF r]) (use that in auto)
  qed
  then show "map (entry lt') (xs @ ys) = map (entry lt) (xs @ ys)" by simp
  have b: "lt_base lt' = filter (\<lambda>b. b \<noteq> a) (lt_base lt)"
    using f(1) distinct_remove1_removeAll [OF repD(4) [OF r]] by (simp add: removeAll_filter_not_eq eq_commute)
  have sb: "set (lt_base lt') = set (xs @ ys)" using repD(3) [OF r] d unfolding b by auto
  have "rb_view lt' = filter (\<lambda>p. snd p \<noteq> a) (rb_view lt)"
  proof -
    have "rb_view lt' = map (\<lambda>b. (node_key lt b, b)) (lt_base lt')"
      unfolding rb_view_def by (rule map_cong) (use en sb in \<open>auto simp: node_key_entry\<close>)
    then show ?thesis by (simp add: b rb_view_def filter_map comp_def)
  qed
  then have "gtree_ok cmp okk (rb_view lt')" using gtree_ok_filter [OF repD(5) [OF r]] by simp
  moreover have "\<forall>b \<in> set (xs @ ys). filled lt' b"
    using d s repD(7) [OF r] filled_cong by (metis Un_iff list.set_intros(2) set_append)
  moreover have "lt_nodes lt' b \<noteq> None \<Longrightarrow> b \<in> set (xs @ ys) \<and> b < next_addr lt'" for b
  proof -
    assume h: "lt_nodes lt' b \<noteq> None"
    then have "b \<noteq> a" using n by auto
    then have "lt_nodes lt b \<noteq> None" using h s [of b] by (cases "lt_nodes lt b") (auto simp: stored_def)
    then show ?thesis using repD(8) [OF r, of b] f(3) \<open>b \<noteq> a\<close> by simp
  qed
  moreover have "mset (lt_base lt') = mset (xs @ ys)" using repD(9) [OF r] f(1) by simp
  ultimately show "rep cmp okk lt' (xs @ ys)"
    using q repD(6) [OF r] f(2) by (simp add: rep_def)
qed

subsection \<open>Every operation implements its list operation\<close>

text \<open>The extraction and release of a node, the part that the removals share.\<close>

lemma same_store_fields:
  assumes "same_store lt' lt"
  shows "stored lt' = stored lt" "lt_kfree lt' = lt_kfree lt" "lt_vfree lt' = lt_vfree lt"
    "lt_flags lt' = lt_flags lt" "lt_count lt' = lt_count lt" "lt_base lt' = lt_base lt"
    "next_addr lt' = next_addr lt" "freed_k lt' = freed_k lt" "freed_v lt' = freed_v lt"
  using assms by (simp_all add: same_store_def)

lemmas extract_fields [simp] = same_store_fields [OF extract_same_store]

lemmas push_front_fields [simp] = same_store_fields [OF push_front_same_store]

lemma node_destroy_simps [simp]:
  "lt_kfree (node_destroy a lt) = lt_kfree lt" "lt_vfree (node_destroy a lt) = lt_vfree lt"
  "lt_flags (node_destroy a lt) = lt_flags lt" "lt_count (node_destroy a lt) = lt_count lt"
  "lt_base (node_destroy a lt) = lt_base lt" "lt_first (node_destroy a lt) = lt_first lt"
  "lt_last (node_destroy a lt) = lt_last lt" "next_addr (node_destroy a lt) = next_addr lt"
  "lt_nodes (node_destroy a lt) = (lt_nodes lt)(a := None)"
  "freed_k (node_destroy a lt) = freed_k (node_cleanup a lt)"
  "freed_v (node_destroy a lt) = freed_v (node_cleanup a lt)"
  by (simp_all add: node_destroy_def Let_def)

lemma rb_remove_simps [simp]:
  "lt_kfree (rb_remove a lt) = lt_kfree lt" "lt_vfree (rb_remove a lt) = lt_vfree lt"
  "lt_flags (rb_remove a lt) = lt_flags lt" "lt_count (rb_remove a lt) = lt_count lt"
  "lt_base (rb_remove a lt) = remove1 a (lt_base lt)" "lt_first (rb_remove a lt) = lt_first lt"
  "lt_last (rb_remove a lt) = lt_last lt" "next_addr (rb_remove a lt) = next_addr lt"
  "lt_nodes (rb_remove a lt) = lt_nodes lt"
  "freed_k (rb_remove a lt) = freed_k lt" "freed_v (rb_remove a lt) = freed_v lt"
  "stored (rb_remove a lt) = stored lt"
  by (simp_all add: rb_remove_def)

lemma stored_some_iff: "stored lt a \<noteq> None \<longleftrightarrow> lt_nodes lt a \<noteq> None"
  by (simp add: stored_def)

lemma stored_nodes_eq: "lt_nodes lt' b = lt_nodes lt b \<Longrightarrow> stored lt' b = stored lt b"
  by (simp add: stored_def)

text \<open>
  The state left by the removal of a node, whatever happened to the key and the value of
  that node on the way: \<open>lt0\<close> is \<open>lt\<close> with the contents of \<open>a\<close> changed.
\<close>

lemma rep_removed:
  assumes r: "rep cmp okk lt (xs @ a # ys)"
    and q0: "queue lt0 (xs @ a # ys)" and s0: "\<And>b. b \<noteq> a \<Longrightarrow> stored lt0 b = stored lt b"
    and f0: "lt_base lt0 = lt_base lt" "lt_count lt0 = lt_count lt" "next_addr lt0 = next_addr lt"
    and n: "lt_nodes lt' = (lt_nodes (node_deq_extract a (rb_remove a lt0)))(a := None)"
    and f: "lt_first lt' = lt_first (node_deq_extract a (rb_remove a lt0))"
      "lt_last lt' = lt_last (node_deq_extract a (rb_remove a lt0))"
      "lt_base lt' = remove1 a (lt_base lt0)" "lt_count lt' = lt_count lt0 - 1" "next_addr lt' = next_addr lt0"
  shows "represents cmp okk lt' (map (entry lt) (xs @ ys))"
proof -
  let ?e = "node_deq_extract a (rb_remove a lt0)"
  have "queue (rb_remove a lt0) (xs @ a # ys)" using q0 by (simp add: queue_def)
  then have q1: "queue ?e (xs @ ys)" by (rule queue_extract)
  have a: "a \<notin> set (xs @ ys)" using repD(2) [OF r] by auto
  have q: "queue lt' (xs @ ys)" by (rule queue_frame [OF q1 a n f(1,2)])
  have s: "stored lt' b = stored lt b" if "b \<noteq> a" for b
  proof -
    have "stored lt' b = stored ?e b" using n that by (intro stored_nodes_eq) simp
    also have "\<dots> = stored (rb_remove a lt0) b" by simp
    also have "\<dots> = stored lt0 b" by (rule stored_nodes_eq) simp
    finally show ?thesis using s0 [OF that] by simp
  qed
  have "rep cmp okk lt' (xs @ ys)" by (rule rep_drop(1) [OF r q s]) (simp_all add: n f f0)
  moreover have "map (entry lt') (xs @ ys) = map (entry lt) (xs @ ys)"
    by (rule rep_drop(2) [OF r q s]) (simp_all add: n f f0)
  ultimately show ?thesis unfolding represents_def by metis
qed

lemma represents_touch:
  assumes r: "rep cmp okk lt (xs @ a # ys)"
  shows "rep cmp okk (node_deq_push_front a (node_deq_extract a lt)) (a # xs @ ys)"
    and "\<And>b. b \<in> set (xs @ a # ys) \<Longrightarrow>
      entry (node_deq_push_front a (node_deq_extract a lt)) b = entry lt b"
proof -
  let ?lt = "node_deq_push_front a (node_deq_extract a lt)"
  have st: "same_store ?lt lt"
    by (rule same_store_trans [OF push_front_same_store extract_same_store])
  have "queue (node_deq_extract a lt) (xs @ ys)" by (rule queue_extract [OF repD(1) [OF r]])
  moreover have "a \<notin> set (xs @ ys)" using repD(2) [OF r] by auto
  moreover have "lt_nodes (node_deq_extract a lt) a \<noteq> None"
  proof -
    have "stored lt a \<noteq> None" using repD(7) [OF r, of a] by (auto simp: filled_def)
    then show ?thesis by (metis extract_fields(1) stored_some_iff)
  qed
  ultimately have q: "queue ?lt (a # xs @ ys)" by (rule queue_push_front)
  show "rep cmp okk ?lt (a # xs @ ys)" by (rule rep_move(1) [OF r st q]) simp
  show "\<And>b. b \<in> set (xs @ a # ys) \<Longrightarrow> entry ?lt b = entry lt b"
    by (rule rep_move(2) [OF r st q]) simp_all
qed

text \<open>The list operations.\<close>

definition without :: "'k \<Rightarrow> ('k \<times> 'v) list \<Rightarrow> ('k \<times> 'v) list" where
  "without k xs = filter (\<lambda>p. fst p \<noteq> k) xs"

definition lru_front :: "bool \<Rightarrow> 'k \<Rightarrow> ('k \<times> 'v) list \<Rightarrow> ('k \<times> 'v) list" where
  "lru_front noatime k xs =
     (case map_of xs k of Some v \<Rightarrow> if noatime then xs else (k, v) # without k xs | None \<Rightarrow> xs)"

fun walk :: "('k \<Rightarrow> 'v \<Rightarrow> 's \<Rightarrow> bool \<times> 's) \<Rightarrow> ('k \<times> 'v) list \<Rightarrow> 's \<Rightarrow> 's" where
  "walk h [] s = s"
| "walk h ((k, v) # xs) s = (let (stop, s) = h k v s in if stop then s else walk h xs s)"

definition noatime :: "('k, 'v) lru_tree \<Rightarrow> bool" where
  "noatime lt \<longleftrightarrow> lt_flags lt AND LTO_NOATIME \<noteq> 0"

context gcompare
begin

lemma rep_inj:
  assumes "rep cmp okk lt as"
  shows "distinct (map (\<lambda>a. fst (entry lt a)) as)"
proof -
  have "distinct (map (node_key lt) (lt_base lt))"
    using ok_distinct [OF repD(5) [OF assms]] by (simp only: rb_view_keys)
  then have "inj_on (node_key lt) (set as)" using repD(3) [OF assms] by (simp add: distinct_map)
  then show ?thesis using repD(2) [OF assms] by (simp add: distinct_map node_key_entry inj_on_def)
qed

lemma rep_okk: "rep cmp okk lt as \<Longrightarrow> a \<in> set as \<Longrightarrow> okk (fst (entry lt a))"
proof -
  assume r: "rep cmp okk lt as" and "a \<in> set as"
  then have "fst (entry lt a) \<in> fst ` set (rb_view lt)"
    using repD(3) [OF r] by (force simp: rb_view_def node_key_entry)
  then show ?thesis by (rule ok_okk [OF repD(5) [OF r]])
qed

lemma find_Some:
  assumes r: "rep cmp okk lt as" and k: "okk k" and f: "rb_find cmp lt k = Some a"
  obtains xs ys where "as = xs @ a # ys" "fst (entry lt a) = k"
    "map_of (map (entry lt) as) k = Some (snd (entry lt a))"
    "without k (map (entry lt) as) = map (entry lt) (xs @ ys)"
proof -
  have "map_of (rb_view lt) k = Some a"
    using lookup_map_of [OF repD(5) [OF r] k] f by (simp add: rb_find_def)
  then have "(k, a) \<in> set (rb_view lt)" by (rule map_of_SomeD)
  then have a: "a \<in> set as" and ka: "fst (entry lt a) = k"
    using repD(3) [OF r] by (auto simp: rb_view_def node_key_entry)
  obtain xs ys where as: "as = xs @ a # ys" using a by (meson split_list)
  have d: "distinct (map (\<lambda>a. fst (entry lt a)) (xs @ a # ys))" using rep_inj [OF r] as by simp
  have n: "k \<notin> fst ` entry lt ` set xs" "k \<notin> fst ` entry lt ` set ys"
    using d ka by (auto simp: image_image)
  have "entry lt a = (k, snd (entry lt a))" using ka by (metis prod.collapse)
  moreover have "map_of (map (entry lt) xs) k = None" using n(1) by (simp add: map_of_eq_None_iff)
  ultimately have "map_of (map (entry lt) as) k = Some (snd (entry lt a))"
    unfolding as using ka by (simp add: map_add_def)
  moreover have "without k (map (entry lt) as) = map (entry lt) (xs @ ys)"
    using n ka unfolding as without_def by (auto simp: filter_keys_id)
  ultimately show thesis using that as ka by blast
qed

lemma find_None:
  assumes r: "rep cmp okk lt as" and k: "okk k" and f: "rb_find cmp lt k = None"
  shows "map_of (map (entry lt) as) k = None" and "without k (map (entry lt) as) = map (entry lt) as"
proof -
  have "map_of (rb_view lt) k = None"
    using lookup_map_of [OF repD(5) [OF r] k] f by (simp add: rb_find_def)
  then have "k \<notin> fst ` set (rb_view lt)" by (simp add: map_of_eq_None_iff)
  then have n: "k \<notin> fst ` set (map (entry lt) as)"
    using repD(3) [OF r] by (auto simp: rb_view_def node_key_entry image_iff)
  then show "map_of (map (entry lt) as) k = None" by (simp add: map_of_eq_None_iff)
  show "without k (map (entry lt) as) = map (entry lt) as"
    unfolding without_def by (rule filter_keys_id [OF n])
qed

lemma represents_distinct: "represents cmp okk lt xs \<Longrightarrow> distinct (map fst xs)"
  using rep_inj by (auto simp: represents_def comp_def)

lemma represents_okk:
  assumes "represents cmp okk lt xs" and "k \<in> fst ` set xs"
  shows "okk k"
proof -
  obtain as where r: "rep cmp okk lt as" and "xs = map (entry lt) as"
    using assms(1) by (auto simp: represents_def)
  then obtain a where "a \<in> set as" and "k = fst (entry lt a)" using assms(2) by auto
  then show ?thesis using rep_okk [OF r] by simp
qed

lemma represents_count: "represents cmp okk lt xs \<Longrightarrow> lru_tree_count lt = int (length xs)"
  using repD(6) by (auto simp: represents_def lru_tree_count_def)

lemma represents_create: "represents cmp okk (lru_tree_create kf vf opt) []"
  by (simp add: represents_def rep_def queue_def lru_tree_create_def rb_view_def ok_Nil)

lemma get_spec:
  assumes "represents cmp okk lt xs" and k: "okk k"
  shows "fst (lru_tree_get cmp lt k) = map_of xs k"
    and "represents cmp okk (snd (lru_tree_get cmp lt k)) (lru_front (noatime lt) k xs)"
    and "lt_flags (snd (lru_tree_get cmp lt k)) = lt_flags lt"
proof -
  obtain as where r: "rep cmp okk lt as" and xs: "xs = map (entry lt) as"
    using assms by (auto simp: represents_def)
  have "fst (lru_tree_get cmp lt k) = map_of xs k \<and>
    represents cmp okk (snd (lru_tree_get cmp lt k)) (lru_front (noatime lt) k xs) \<and>
    lt_flags (snd (lru_tree_get cmp lt k)) = lt_flags lt"
  proof (cases "rb_find cmp lt k")
    case None
    then show ?thesis using find_None [OF r k None] r xs
      by (auto simp: lru_tree_get_def lru_front_def represents_def)
  next
    case (Some a)
    then obtain us vs where f: "as = us @ a # vs" "fst (entry lt a) = k"
      "map_of xs k = Some (snd (entry lt a))" "without k xs = map (entry lt) (us @ vs)"
      unfolding xs by (rule find_Some [OF r k])
    have fill: "stored lt a = Some (Some k, Some (snd (entry lt a)))"
      using repD(7) [OF r, of a] f(1,2) by (auto simp: filled_entry)
    show ?thesis
    proof (cases "noatime lt")
      case True
      have "nv (node_at lt a) = Some (snd (entry lt a))"
        using fill by (auto simp: stored_def node_at_def)
      then show ?thesis using True Some f(3) r xs
        by (auto simp: lru_tree_get_def lru_touch_def noatime_def lru_front_def represents_def)
    next
      case False
      let ?lt = "node_deq_push_front a (node_deq_extract a lt)"
      have t: "lru_touch a lt = ?lt" using False by (simp add: lru_touch_def noatime_def)
      have "stored ?lt a = Some (Some k, Some (snd (entry lt a)))" using fill by simp
      then have "nv (node_at ?lt a) = Some (snd (entry lt a))"
        unfolding stored_def node_at_def by (auto simp del: push_front_fields extract_fields)
      moreover have "map (entry ?lt) (a # us @ vs) = (k, snd (entry lt a)) # without k xs"
        using represents_touch(2) [OF r [unfolded f(1)]] f(2,4) by (simp add: prod_eq_iff)
      ultimately show ?thesis
        using represents_touch(1) [OF r [unfolded f(1)]] Some f(3) False t
        by (auto simp: lru_tree_get_def Let_def lru_front_def represents_def)
    qed
  qed
  then show "fst (lru_tree_get cmp lt k) = map_of xs k"
    "represents cmp okk (snd (lru_tree_get cmp lt k)) (lru_front (noatime lt) k xs)"
    "lt_flags (snd (lru_tree_get cmp lt k)) = lt_flags lt" by blast+
qed

lemma insert_fresh_mset:
  "map_of t k = None \<Longrightarrow> okk k \<Longrightarrow> gtree_ok cmp okk t \<Longrightarrow>
     mset (g_tree_insert cmp t k x) = add_mset (k, x) (mset t)"
proof (induction t)
  case (Cons p t)
  obtain k' v' where p: "p = (k', v')" by fastforce
  have "cmp k k' \<noteq> 0" using cmp_zero [of k k'] Cons.prems p by (auto simp: ok_Cons split: if_splits)
  then show ?case using Cons p by (auto simp: ok_Cons split: if_splits)
qed simp

text \<open>A node that the tree does not hold yet, with the key and the value already in it.\<close>

lemma rep_add:
  assumes r: "rep cmp okk lt as" and k: "okk k" "map_of (rb_view lt) k = None"
    and st: "stored lt' = (stored lt)(a \<mapsto> (Some k, Some v))" and a: "stored lt a = None"
    and q: "queue lt' (a # as)" and b: "lt_base lt' = map snd (g_tree_insert cmp (rb_view lt) k a)"
    and f: "lt_count lt' = lt_count lt + 1" "a < next_addr lt'" "next_addr lt \<le> next_addr lt'"
  shows "rep cmp okk lt' (a # as)" and "map (entry lt') (a # as) = (k, v) # map (entry lt) as"
proof -
  let ?t = "g_tree_insert cmp (rb_view lt) k a"
  note m = insert_fresh_mset [OF k(2,1) repD(5) [OF r], of a]
  have na: "b \<noteq> a" if "b \<in> set as" for b using that a repD(7) [OF r, of b] by (auto simp: filled_def)
  have ea: "entry lt' a = (k, v)" by (rule entry_stored) (simp add: st)
  have eb: "entry lt' b = entry lt b" if "b \<in> set as" for b
    by (rule entry_cong) (use that na repD(7) [OF r] in \<open>simp_all add: st\<close>)
  show "map (entry lt') (a # as) = (k, v) # map (entry lt) as" using ea eb by simp
  have "rb_view lt' = map (\<lambda>p. (fst (entry lt' (snd p)), snd p)) ?t"
    by (simp add: rb_view_def b node_key_entry comp_def)
  also have "\<dots> = map id ?t"
  proof (rule map_cong [OF refl])
    fix p assume "p \<in> set ?t"
    then have "p = (k, a) \<or> p \<in> set (rb_view lt)" using mset_eq_setD [of ?t "(k, a) # rb_view lt"] m by simp
    then show "(fst (entry lt' (snd p)), snd p) = id p"
      using ea eb repD(3) [OF r] by (auto simp: rb_view_def node_key_entry)
  qed
  finally have view: "rb_view lt' = ?t" by simp
  have "mset (lt_base lt') = add_mset a (mset (lt_base lt))"
    using m mset_map [of snd "rb_view lt"] rb_view_keys(2) [of lt] by (simp add: b)
  then have "mset (lt_base lt') = mset (a # as)" using repD(9) [OF r] by simp
  moreover have "gtree_ok cmp okk (rb_view lt')" using view ok_insert [OF repD(5) [OF r] k(1)] by simp
  moreover have "\<forall>b \<in> set (a # as). filled lt' b" using repD(7) [OF r] by (auto simp: filled_def st)
  moreover have "b \<in> set (a # as) \<and> b < next_addr lt'" if "lt_nodes lt' b \<noteq> None" for b
  proof -
    have "stored lt' b \<noteq> None" using that by (metis stored_some_iff)
    then have "b = a \<or> lt_nodes lt b \<noteq> None" by (auto simp: st stored_def split: if_splits)
    then show ?thesis using f repD(8) [OF r, of b] by (metis list.set_intros order.strict_trans2)
  qed
  ultimately show "rep cmp okk lt' (a # as)" using q f(1) repD(6) [OF r] by (simp add: rep_def)
qed

lemma insert_new:
  assumes r: "rep cmp okk lt as" and k: "okk k" and n: "rb_find cmp lt k = None"
  shows "rep cmp okk (lru_tree_insert cmp lt k v) (next_addr lt # as)"
    and "map (entry (lru_tree_insert cmp lt k v)) (next_addr lt # as) = (k, v) # map (entry lt) as"
proof -
  let ?a = "next_addr lt"
  define lt1 where "lt1 = snd (node_create k v lt)"
  define lt2 where "lt2 = (rb_insert cmp ?a lt1)\<lparr>lt_count := lt_count lt + 1\<rparr>"
  note defs = lt2_def lt1_def rb_insert_def node_create_def Let_def
  have ins: "lru_tree_insert cmp lt k v = node_deq_push_front ?a lt2"
    using n by (simp add: lru_tree_insert_def defs)
  have na: "lt_nodes lt ?a = None" using repD(8) [OF r, of ?a] by blast
  have a: "?a \<notin> set as" using na repD(7) [OF r, of ?a] by (auto simp: filled_def stored_def)
  have n2: "lt_nodes lt2 = (lt_nodes lt)(?a \<mapsto> \<lparr>nprev = None, nnext = None, nk = Some k, nv = Some v\<rparr>)"
    by (simp add: defs)
  have view1: "rb_view lt1 = rb_view lt" unfolding rb_view_def
    by (rule map_cong) (use a repD(3) [OF r] in \<open>auto simp: lt1_def node_create_def Let_def node_key_def node_at_def\<close>)
  have k1: "node_key lt1 ?a = k" by (simp add: lt1_def node_create_def Let_def node_key_def node_at_def)
  have q2: "queue lt2 as" by (rule queue_frame [OF repD(1) [OF r] a n2]) (simp_all add: defs)
  have q: "queue (lru_tree_insert cmp lt k v) (?a # as)"
    unfolding ins by (rule queue_push_front [OF q2 a]) (simp add: n2)
  have m: "map_of (rb_view lt) k = None" using n lookup_map_of [OF repD(5) [OF r] k] by (simp add: rb_find_def)
  have st: "stored (lru_tree_insert cmp lt k v) = (stored lt)(?a \<mapsto> (Some k, Some v))"
  proof -
    have "stored (lru_tree_insert cmp lt k v) = stored lt2" unfolding ins by simp
    also have "\<dots> = (stored lt)(?a \<mapsto> (Some k, Some v))" by (auto simp: stored_def n2)
    finally show ?thesis .
  qed
  have b: "lt_base (lru_tree_insert cmp lt k v) = map snd (g_tree_insert cmp (rb_view lt) k ?a)"
    by (simp add: ins lt2_def rb_insert_def view1 k1)
  show "rep cmp okk (lru_tree_insert cmp lt k v) (?a # as)"
    by (rule rep_add(1) [OF r k m st _ q b]) (simp_all add: ins defs na stored_def)
  show "map (entry (lru_tree_insert cmp lt k v)) (?a # as) = (k, v) # map (entry lt) as"
    by (rule rep_add(2) [OF r k m st _ q b]) (simp_all add: ins defs na stored_def)
qed

text \<open>A key that the tree holds: its node gets the new key and value and goes to the front.\<close>

lemma insert_old:
  assumes r: "rep cmp okk lt (us @ a # vs)" and k: "fst (entry lt a) = k" and f: "rb_find cmp lt k = Some a"
  shows "rep cmp okk (lru_tree_insert cmp lt k v) (a # us @ vs)"
    and "map (entry (lru_tree_insert cmp lt k v)) (a # us @ vs) = (k, v) # map (entry lt) (us @ vs)"
proof -
  let ?lt = "lru_tree_insert cmp lt k v"
  define lt1 where "lt1 = node_update a k v (node_deq_extract a lt)"
  have ins: "?lt = node_deq_push_front a lt1" using f by (simp add: lru_tree_insert_def lt1_def)
  have a: "a \<notin> set (us @ vs)" using repD(2) [OF r] by auto
  have fill: "stored lt a = Some (Some k, Some (snd (entry lt a)))"
    using repD(7) [OF r, of a] k by (auto simp: filled_entry)
  then have "stored (node_deq_extract a lt) a \<noteq> None" by simp
  then obtain x where x: "lt_nodes (node_deq_extract a lt) a = Some x"
    unfolding stored_some_iff by blast
  have n1: "lt_nodes lt1 = (lt_nodes (node_deq_extract a lt))(a \<mapsto> x\<lparr>nk := Some k, nv := Some v\<rparr>)"
    by (simp add: lt1_def node_update_def x)
  have q1: "queue lt1 (us @ vs)"
    by (rule queue_frame [OF queue_extract [OF repD(1) [OF r]] a n1]) (simp_all add: lt1_def node_update_def)
  have q: "queue ?lt (a # us @ vs)" unfolding ins by (rule queue_push_front [OF q1 a]) (simp add: n1)
  have st: "stored ?lt = (stored lt)(a \<mapsto> (Some k, Some v))"
  proof -
    have "stored ?lt = stored lt1" unfolding ins by simp
    also have "\<dots> = (stored (node_deq_extract a lt))(a \<mapsto> (Some k, Some v))"
      by (auto simp: stored_def n1 simp del: extract_fields)
    finally show ?thesis by simp
  qed
  have ea: "entry ?lt a = (k, v)" by (rule entry_stored) (simp add: st)
  have eb: "entry ?lt b = entry lt b" if "b \<in> set (us @ vs)" for b
    by (rule entry_cong) (use that a repD(7) [OF r, of b] in \<open>auto simp: st\<close>)
  show "map (entry ?lt) (a # us @ vs) = (k, v) # map (entry lt) (us @ vs)" using ea eb by simp
  have fl: "lt_base ?lt = lt_base lt" "lt_count ?lt = lt_count lt" "next_addr ?lt = next_addr lt"
    by (simp_all add: ins lt1_def node_update_def)
  have view: "rb_view ?lt = rb_view lt" unfolding rb_view_def fl(1)
    by (rule map_cong [OF refl]) (use ea eb k repD(3) [OF r] in \<open>auto simp: node_key_entry\<close>)
  have n: "b \<in> set (a # us @ vs) \<and> b < next_addr ?lt" if "lt_nodes ?lt b \<noteq> None" for b
  proof -
    have "stored ?lt b \<noteq> None" using that by (metis stored_some_iff)
    then have "lt_nodes lt b \<noteq> None" using fill by (auto simp: st stored_def split: if_splits)
    then show ?thesis using repD(8) [OF r, of b] fl(3) by (auto simp: stored_some_iff)
  qed
  have "\<forall>b \<in> set (a # us @ vs). filled ?lt b" using repD(7) [OF r] by (auto simp: filled_def st)
  then show "rep cmp okk ?lt (a # us @ vs)"
    using q fl view n repD(5,6,9) [OF r] by (simp add: rep_def)
qed

lemma insert_spec:
  assumes "represents cmp okk lt xs" and k: "okk k"
  shows "represents cmp okk (lru_tree_insert cmp lt k v) ((k, v) # without k xs)"
proof -
  obtain as where r: "rep cmp okk lt as" and xs: "xs = map (entry lt) as"
    using assms by (auto simp: represents_def)
  show ?thesis
  proof (cases "rb_find cmp lt k")
    case None
    then show ?thesis using insert_new [OF r k None, of v] find_None(2) [OF r k None] xs
      unfolding represents_def by metis
  next
    case (Some a)
    then obtain us vs where f: "as = us @ a # vs" "fst (entry lt a) = k"
      "without k (map (entry lt) as) = map (entry lt) (us @ vs)" by (rule find_Some [OF r k])
    then show ?thesis using insert_old [OF r [unfolded f(1)] f(2) Some, of v] xs
      unfolding represents_def by metis
  qed
qed

lemma remove_spec:
  assumes "represents cmp okk lt xs" and k: "okk k"
  shows "fst (lru_tree_remove cmp lt k) \<longleftrightarrow> map_of xs k \<noteq> None"
    and "represents cmp okk (snd (lru_tree_remove cmp lt k)) (without k xs)"
    and "fst (lru_tree_steal cmp lt k) = map_of xs k"
    and "represents cmp okk (snd (lru_tree_steal cmp lt k)) (without k xs)"
proof -
  obtain as where r: "rep cmp okk lt as" and xs: "xs = map (entry lt) as"
    using assms by (auto simp: represents_def)
  have "(fst (lru_tree_remove cmp lt k) \<longleftrightarrow> map_of xs k \<noteq> None) \<and>
    represents cmp okk (snd (lru_tree_remove cmp lt k)) (without k xs) \<and>
    fst (lru_tree_steal cmp lt k) = map_of xs k \<and>
    represents cmp okk (snd (lru_tree_steal cmp lt k)) (without k xs)"
  proof (cases "rb_find cmp lt k")
    case None
    then show ?thesis using find_None [OF r k None] r xs
      by (auto simp: lru_tree_remove_def lru_tree_steal_def represents_def)
  next
    case (Some a)
    then obtain us vs where f: "as = us @ a # vs" "map_of xs k = Some (snd (entry lt a))"
      "without k xs = map (entry lt) (us @ vs)" "fst (entry lt a) = k" unfolding xs by (rule find_Some [OF r k])
    note ra = r [unfolded f(1)]
    note rem = rep_removed [OF ra repD(1) [OF ra] refl refl refl refl]
    let ?e = "node_deq_extract a (rb_remove a lt)"
    have "stored (rb_remove a lt) = stored lt" by (simp add: stored_def fun_eq_iff)
    then have "stored ?e a = Some (Some k, Some (snd (entry lt a)))"
      using repD(7) [OF ra, of a] f(4) by (auto simp: filled_entry)
    then have v: "nv (node_at ?e a) = Some (snd (entry lt a))"
      unfolding stored_def node_at_def by (auto simp del: extract_fields)
    have "represents cmp okk (snd (lru_tree_remove cmp lt k)) (map (entry lt) (us @ vs))"
      by (rule rem) (use Some in \<open>simp_all add: lru_tree_remove_def Let_def\<close>)
    moreover have "represents cmp okk (snd (lru_tree_steal cmp lt k)) (map (entry lt) (us @ vs))"
      by (rule rem) (use Some in \<open>simp_all add: lru_tree_steal_def Let_def\<close>)
    ultimately show ?thesis using Some f v by (simp add: lru_tree_remove_def lru_tree_steal_def Let_def node_at_def)
  qed
  then show "fst (lru_tree_remove cmp lt k) \<longleftrightarrow> map_of xs k \<noteq> None"
    "represents cmp okk (snd (lru_tree_remove cmp lt k)) (without k xs)"
    "fst (lru_tree_steal cmp lt k) = map_of xs k"
    "represents cmp okk (snd (lru_tree_steal cmp lt k)) (without k xs)" by blast+
qed

lemma lru_get_keep:
  assumes r: "rep cmp okk lt (us @ a # vs)"
  shows "fst (lru_get lt (Some a) steal) = Some (entry lt a)"
    and "represents cmp okk (snd (lru_get lt (Some a) False))
      (if noatime lt then map (entry lt) (us @ a # vs) else map (entry lt) (a # us @ vs))"
    and "represents cmp okk (snd (lru_get lt (Some a) True)) (map (entry lt) (us @ vs))"
proof -
  show "fst (lru_get lt (Some a) steal) = Some (entry lt a)"
    by (simp add: lru_get_def Let_def entry_def node_key_def)
  let ?lt = "node_deq_push_front a (node_deq_extract a lt)"
  have "map (entry ?lt) (a # us @ vs) = map (entry lt) (a # us @ vs)"
    using represents_touch(2) [OF r] by simp
  then show "represents cmp okk (snd (lru_get lt (Some a) False))
      (if noatime lt then map (entry lt) (us @ a # vs) else map (entry lt) (a # us @ vs))"
    using represents_touch(1) [OF r] r
    by (auto simp: lru_get_def Let_def lru_touch_def noatime_def represents_def simp del: list.map)
  define lt0 where "lt0 = set_node a (\<lambda>n. n\<lparr>nk := None, nv := None\<rparr>) lt"
  have q0: "queue lt0 (us @ a # vs)"
    using repD(1) [OF r] by (simp add: queue_def lt0_def seg_relabel)
  show "represents cmp okk (snd (lru_get lt (Some a) True)) (map (entry lt) (us @ vs))"
    by (rule rep_removed [OF r q0]) (simp_all add: lru_get_def Let_def lt0_def stored_def)
qed

lemma represents_last:
  assumes "represents cmp okk lt xs"
  obtains "xs = []" "lt_last lt = None" "lt_first lt = None"
  | us a where "rep cmp okk lt (us @ [a])" "xs = map (entry lt) (us @ [a])" "lt_last lt = Some a"
proof -
  obtain as where r: "rep cmp okk lt as" and xs: "xs = map (entry lt) as"
    using assms by (auto simp: represents_def)
  then show thesis using that repD(1) [OF r] by (cases as rule: rev_cases) (auto simp: queue_def)
qed

lemma represents_first:
  assumes "represents cmp okk lt xs"
  obtains "xs = []" "lt_first lt = None"
  | a vs where "rep cmp okk lt (a # vs)" "xs = map (entry lt) (a # vs)" "lt_first lt = Some a"
proof -
  obtain as where r: "rep cmp okk lt as" and xs: "xs = map (entry lt) as"
    using assms by (auto simp: represents_def)
  then show thesis using that repD(1) [OF r] by (cases as) (auto simp: queue_def)
qed

lemma get_last_spec:
  assumes "represents cmp okk lt xs"
  shows "fst (lru_tree_get_last lt) = (if xs = [] then None else Some (List.last xs)) \<and>
    represents cmp okk (snd (lru_tree_get_last lt))
      (if xs = [] \<or> noatime lt then xs else List.last xs # butlast xs)"
  using assms
proof (cases rule: represents_last)
  case 1
  then show ?thesis using assms by (simp add: lru_tree_get_last_def lru_get_def)
next
  case (2 us a)
  then show ?thesis using lru_get_keep(1,2) [OF 2(1)]
    by (cases "noatime lt") (simp_all add: lru_tree_get_last_def butlast_append)
qed

lemma steal_last_spec:
  assumes "represents cmp okk lt xs"
  shows "fst (lru_tree_steal_last lt) = (if xs = [] then None else Some (List.last xs)) \<and>
    represents cmp okk (snd (lru_tree_steal_last lt)) (butlast xs)"
  using assms
proof (cases rule: represents_last)
  case 1
  then show ?thesis using assms by (simp add: lru_tree_steal_last_def lru_get_def)
next
  case (2 us a)
  then show ?thesis using lru_get_keep(1,3) [OF 2(1)]
    by (simp add: lru_tree_steal_last_def butlast_append)
qed

lemma get_first_spec:
  assumes "represents cmp okk lt xs"
  shows "fst (lru_tree_get_first lt) = (if xs = [] then None else Some (hd xs)) \<and>
    represents cmp okk (snd (lru_tree_get_first lt)) xs"
  using assms
proof (cases rule: represents_first)
  case 1
  then show ?thesis using assms by (simp add: lru_tree_get_first_def lru_get_def)
next
  case (2 a vs)
  then show ?thesis using lru_get_keep(1,2) [of lt "[]"]
    by (cases "noatime lt") (simp_all add: lru_tree_get_first_def)
qed

lemma steal_first_spec:
  assumes "represents cmp okk lt xs"
  shows "fst (lru_tree_steal_first lt) = (if xs = [] then None else Some (hd xs)) \<and>
    represents cmp okk (snd (lru_tree_steal_first lt)) (tl xs)"
  using assms
proof (cases rule: represents_first)
  case 1
  then show ?thesis using assms by (simp add: lru_tree_steal_first_def lru_get_def)
next
  case (2 a vs)
  then show ?thesis using lru_get_keep(1,3) [of lt "[]"]
    by (simp add: lru_tree_steal_first_def)
qed

text \<open>The walks: every pair once, in the order of the queue or of the keys.\<close>

lemma foreach_DEQ_spec:
  assumes "represents cmp okk lt xs"
  shows "lru_tree_foreach_DEQ lt h s = Some (walk h xs s)"
proof -
  obtain as where r: "rep cmp okk lt as" and xs: "xs = map (entry lt) as"
    using assms by (auto simp: represents_def)
  have "seg (lt_nodes lt) p as None \<Longrightarrow> foreach_DEQ_loop h lt (first_of as None) s = Some (walk h (map (entry lt) as) s)" for p
  proof (induction as arbitrary: p s)
    case (Cons a as)
    then have "nnext (node_at lt a) = first_of as None" by (auto simp: node_at_def split: option.splits)
    with Cons show ?case
      by (subst foreach_DEQ_loop.simps) (auto simp: Let_def entry_def [of lt a] split: prod.splits)
  qed (simp add: foreach_DEQ_loop.simps)
  from this [of None] show ?thesis using repD(1) [OF r] xs by (simp add: queue_def lru_tree_foreach_DEQ_def)
qed

lemma foreach_TREE_spec:
  assumes "represents cmp okk lt xs"
  shows "\<exists>ys. mset ys = mset xs \<and> gtree_ok cmp okk ys \<and> lru_tree_foreach_TREE lt h s = walk h ys s"
proof -
  obtain as where r: "rep cmp okk lt as" and xs: "xs = map (entry lt) as"
    using assms by (auto simp: represents_def)
  let ?ys = "map (entry lt) (lt_base lt)"
  have "foreach_TREE_loop h lt bs s = walk h (map (entry lt) bs) s" for bs
    by (induction bs arbitrary: s) (auto simp: entry_def split: prod.splits)
  moreover have "gtree_ok cmp okk ?ys"
    using repD(5) [OF r] by (simp add: gtree_ok_def rb_view_def node_key_entry comp_def)
  moreover have "mset ?ys = mset xs" using repD(9) [OF r] xs by simp
  ultimately show ?thesis by (metis lru_tree_foreach_TREE_def)
qed

text \<open>The destruction: it ends, leaves no node behind, and releases every pair exactly once.\<close>

lemma destroy_loop:
  "\<lbrakk>distinct as; seg (lt_nodes lt) None as None; lt_first lt = first_of as None; \<forall>a \<in> set as. filled lt a;
     \<forall>a. lt_nodes lt a \<noteq> None \<longrightarrow> a \<in> set as; lt_kfree lt; lt_vfree lt\<rbrakk> \<Longrightarrow>
   \<exists>lt'. lru_tree_destroy lt = Some lt' \<and> lt_nodes lt' = (\<lambda>_. None) \<and>
     freed_k lt' = freed_k lt @ map (\<lambda>a. fst (entry lt a)) as \<and>
     freed_v lt' = freed_v lt @ map (\<lambda>a. snd (entry lt a)) as"
proof (induction as arbitrary: lt)
  case Nil
  then show ?case by (subst lru_tree_destroy.simps) auto
next
  case (Cons a as)
  let ?lt = "destroy_first a lt"
  obtain x where x: "lt_nodes lt a = Some x" "nnext x = first_of as None"
    using Cons.prems(2) by (auto split: option.splits)
  have en: "entry lt a = (the (nk x), the (nv x))" "nk x = Some (fst (entry lt a))" "nv x = Some (snd (entry lt a))"
    using Cons.prems(4) x(1) by (auto simp: filled_def stored_def entry_def node_key_def node_at_def)
  have sg: "seg (lt_nodes ?lt) None as None"
    using Cons.prems(1,2) x
    by (cases as) (auto simp: destroy_first_def node_at_def Let_def seg_frame split: option.splits)
  have st: "stored ?lt = (stored lt)(a := None)"
    using x by (cases as) (auto simp: destroy_first_def node_at_def Let_def stored_def fun_eq_iff option.map_comp comp_def)
  have fl: "lt_first ?lt = first_of as None" "lt_kfree ?lt" "lt_vfree ?lt"
    using Cons.prems(6,7) x by (cases as; simp add: destroy_first_def node_at_def Let_def)+
  have fr: "freed_k ?lt = freed_k lt @ [fst (entry lt a)]" "freed_v ?lt = freed_v lt @ [snd (entry lt a)]"
    using Cons.prems(1,6,7) x en(2,3) by (cases as; simp add: destroy_first_def node_at_def Let_def node_cleanup_freed)+
  have eb: "entry ?lt b = entry lt b" if "b \<in> set as" for b
    by (rule entry_cong) (use that Cons.prems(1,4) in \<open>auto simp: st\<close>)
  have "lru_tree_destroy lt = lru_tree_destroy ?lt"
    using Cons.prems(3) by (subst lru_tree_destroy.simps) simp
  moreover have "\<forall>b \<in> set as. filled ?lt b" using Cons.prems(1,4) by (auto simp: filled_def st)
  moreover have "\<forall>b. lt_nodes ?lt b \<noteq> None \<longrightarrow> b \<in> set as"
  proof (intro allI impI)
    fix b assume "lt_nodes ?lt b \<noteq> None"
    then have "stored ?lt b \<noteq> None" by (metis stored_some_iff)
    then have "b \<noteq> a \<and> lt_nodes lt b \<noteq> None" by (auto simp: st stored_def split: if_splits)
    then show "b \<in> set as" using Cons.prems(5) by auto
  qed
  ultimately show ?case using Cons.IH [of ?lt] Cons.prems(1) sg fl fr eb by auto
qed

lemma destroy_spec:
  assumes "represents cmp okk lt xs" and "lt_kfree lt" and "lt_vfree lt"
  shows "\<exists>lt'. lru_tree_destroy lt = Some lt' \<and> lt_nodes lt' = (\<lambda>_. None) \<and>
    freed_k lt' = freed_k lt @ map fst xs \<and> freed_v lt' = freed_v lt @ map snd xs"
proof -
  obtain as where r: "rep cmp okk lt as" and xs: "xs = map (entry lt) as"
    using assms by (auto simp: represents_def)
  show ?thesis
    using destroy_loop [of as lt] assms(2,3) r xs by (simp add: rep_def queue_def comp_def)
qed

end

subsection \<open>The interface of the tree\<close>

text \<open>
  Assignment through the pointer to a value that \<open>lru_tree_get\<close> returned: the callers
  that keep mutable objects in the tree change them in place.
\<close>

definition lru_poke ::
  "('k \<Rightarrow> 'k \<Rightarrow> int) \<Rightarrow> ('k, 'v) lru_tree \<Rightarrow> 'k \<Rightarrow> ('v \<Rightarrow> 'v) \<Rightarrow> ('k, 'v) lru_tree" where
  "lru_poke cmp lt k f =
     (case rb_find cmp lt k of
        None \<Rightarrow> lt
      | Some a \<Rightarrow> set_node a (\<lambda>n. n\<lparr>nv := map_option f (nv n)\<rparr>) lt)"

definition update_value :: "'k \<Rightarrow> ('v \<Rightarrow> 'v) \<Rightarrow> ('k \<times> 'v) list \<Rightarrow> ('k \<times> 'v) list" where
  "update_value k f xs = map (\<lambda>(k', v). (k', if k' = k then f v else v)) xs"

lemma map_of_update_value: "map_of (update_value k f xs) j = (if j = k then map_option f (map_of xs k) else map_of xs j)"
  by (induction xs) (auto simp: update_value_def)

lemma map_of_without: "map_of (without k xs) j = (if j = k then None else map_of xs j)"
  by (induction xs) (auto simp: without_def)

context gcompare
begin

lemma poke_spec:
  assumes "represents cmp okk lt xs" and k: "okk k"
  shows "represents cmp okk (lru_poke cmp lt k f) (update_value k f xs)"
proof -
  obtain as where r: "rep cmp okk lt as" and xs: "xs = map (entry lt) as"
    using assms by (auto simp: represents_def)
  show ?thesis
  proof (cases "rb_find cmp lt k")
    case None
    have "k \<notin> fst ` set xs" using find_None(1) [OF r k None] xs by (simp add: map_of_eq_None_iff)
    then have "update_value k f xs = xs" by (induction xs) (auto simp: update_value_def)
    then show ?thesis using None assms(1) by (simp add: lru_poke_def)
  next
    case (Some a)
    let ?lt = "set_node a (\<lambda>n. n\<lparr>nv := map_option f (nv n)\<rparr>) lt"
    obtain us vs where u: "as = us @ a # vs" "fst (entry lt a) = k" using Some by (rule find_Some [OF r k])
    have fill: "stored lt a = Some (Some k, Some (snd (entry lt a)))"
      using repD(7) [OF r, of a] u by (auto simp: filled_entry)
    have st: "stored ?lt = (stored lt)(a \<mapsto> (Some k, Some (f (snd (entry lt a)))))"
      using fill by (auto simp: stored_def fun_eq_iff)
    have ea: "entry ?lt a = (k, f (snd (entry lt a)))" by (rule entry_stored) (simp add: st)
    have eb: "entry ?lt b = entry lt b" if "b \<in> set as" "b \<noteq> a" for b
      by (rule entry_cong [OF _ repD(7) [OF r that(1)]]) (simp add: st that(2))
    have "inj_on (\<lambda>a. fst (entry lt a)) (set as)" using rep_inj [OF r] by (simp add: distinct_map)
    then have ne: "fst (entry lt b) \<noteq> k" if "b \<in> set as" "b \<noteq> a" for b
      using that u inj_onD [of "\<lambda>a. fst (entry lt a)" "set as" b a] by auto
    have "entry ?lt b = (\<lambda>(k', v). (k', if k' = k then f v else v)) (entry lt b)" if "b \<in> set as" for b
      using ea eb [OF that] ne [OF that] u(2) by (cases "b = a"; cases "entry lt b") auto
    then have m: "map (entry ?lt) as = update_value k f xs"
      unfolding update_value_def xs map_map comp_def by (rule map_cong [OF refl])
    have "fst (entry ?lt b) = fst (entry lt b)" if "b \<in> set as" for b
      using ea eb [OF that] u(2) by (cases "b = a") auto
    then have v: "rb_view ?lt = rb_view lt" unfolding rb_view_def node_key_entry set_node_simps
      using repD(3) [OF r] by auto
    have q: "queue ?lt as" using repD(1) [OF r] by (simp add: queue_def seg_relabel)
    have fl: "filled ?lt b" if "b \<in> set as" for b using repD(7) [OF r that] by (simp add: filled_def st)
    have "b \<in> set as \<and> b < next_addr ?lt" if "lt_nodes ?lt b \<noteq> None" for b
      using that repD(8) [OF r, of b] by (auto split: if_splits)
    then have "rep cmp okk ?lt as"
      unfolding rep_def using q v fl repD(5,6,9) [OF r] by simp
    then show ?thesis using Some m unfolding represents_def by (auto simp: lru_poke_def)
  qed
qed

end

text \<open>
  What the clients of the tree rely on: a map from keys to values, whose lookups keep it
  as a map, and which gives up its entries one by one.
\<close>

locale lru_store =
  fixes okk :: "'k \<Rightarrow> bool"
    and inv :: "'s \<Rightarrow> bool"
    and insert :: "'s \<Rightarrow> 'k \<Rightarrow> 'v \<Rightarrow> 's"
    and get :: "'s \<Rightarrow> 'k \<Rightarrow> 'v option \<times> 's"
    and remove :: "'s \<Rightarrow> 'k \<Rightarrow> bool \<times> 's"
    and poke :: "'s \<Rightarrow> 'k \<Rightarrow> ('v \<Rightarrow> 'v) \<Rightarrow> 's"
    and steal :: "'s \<Rightarrow> ('k \<times> 'v) option \<times> 's"
    and count :: "'s \<Rightarrow> int"
  assumes insert_law: "inv s \<Longrightarrow> okk k \<Longrightarrow> inv (insert s k v) \<and>
      (\<forall>j. okk j \<longrightarrow> fst (get (insert s k v) j) = (if j = k then Some v else fst (get s j)))"
    and get_law: "inv s \<Longrightarrow> okk k \<Longrightarrow> inv (snd (get s k)) \<and>
      (\<forall>j. okk j \<longrightarrow> fst (get (snd (get s k)) j) = fst (get s j))"
    and remove_law: "inv s \<Longrightarrow> okk k \<Longrightarrow> inv (snd (remove s k)) \<and>
      (\<forall>j. okk j \<longrightarrow> fst (get (snd (remove s k)) j) = (if j = k then None else fst (get s j)))"
    and poke_law: "inv s \<Longrightarrow> okk k \<Longrightarrow> inv (poke s k f) \<and>
      (\<forall>j. okk j \<longrightarrow> fst (get (poke s k f) j) = (if j = k then map_option f (fst (get s k)) else fst (get s j)))"
    and steal_law: "inv s \<Longrightarrow> inv (snd (steal s)) \<and>
      (\<forall>j. okk j \<longrightarrow> fst (get (snd (steal s)) j) \<in> {None, fst (get s j)})"
    and count_law: "inv s \<Longrightarrow> 0 \<le> count s" "inv s \<Longrightarrow> 0 < count s \<Longrightarrow> count (snd (steal s)) = count s - 1"
begin

lemma hit_after_insert: "inv s \<Longrightarrow> okk k \<Longrightarrow> fst (get (insert s k v) k) = Some v"
  using insert_law [of s k v] by simp

lemma miss_after_remove: "inv s \<Longrightarrow> okk k \<Longrightarrow> fst (get (snd (remove s k)) k) = None"
  using remove_law [of s k] by simp

text \<open>A lookup followed by a change of the value found, as the clients do.\<close>

lemma get_poke:
  assumes "inv s" and "okk k" and "okk j"
  shows "inv (poke (snd (get s k)) k f)"
    and "fst (get (poke (snd (get s k)) k f) j) = (if j = k then map_option f (fst (get s k)) else fst (get s j))"
proof -
  have g: "inv (snd (get s k))" "\<And>j. okk j \<Longrightarrow> fst (get (snd (get s k)) j) = fst (get s j)"
    using get_law [OF assms(1,2)] by auto
  show "inv (poke (snd (get s k)) k f)"
    "fst (get (poke (snd (get s k)) k f) j) = (if j = k then map_option f (fst (get s k)) else fst (get s j))"
    using poke_law [OF g(1) assms(2)] g(2) assms(2,3) by auto
qed

lemma steal_shrinks:
  assumes "inv s" and "okk j"
  shows "fst (get (snd (steal s)) j) = Some v \<Longrightarrow> fst (get s j) = Some v"
  using steal_law [OF assms(1)] assms(2) by fastforce

end

interpretation hlru: lru_store hashstr_wf "\<lambda>lt. \<exists>xs. represents hashstr_quick_cmp hashstr_wf lt xs"
  "lru_tree_insert hashstr_quick_cmp" "lru_tree_get hashstr_quick_cmp" "lru_tree_remove hashstr_quick_cmp"
  "lru_poke hashstr_quick_cmp" lru_tree_steal_last lru_tree_count
proof (unfold_locales, goal_cases)
  case (1 s k v)
  then obtain xs where x: "represents hashstr_quick_cmp hashstr_wf s xs" by blast
  note i = hstr.insert_spec [OF x 1(2), of v]
  then show ?case using hstr.get_spec(1) [OF i] hstr.get_spec(1) [OF x] by (auto simp: map_of_without)
next
  case (2 s k)
  then obtain xs where x: "represents hashstr_quick_cmp hashstr_wf s xs" by blast
  note i = hstr.get_spec(2) [OF x 2(2)]
  have "map_of (lru_front (noatime s) k xs) j = map_of xs j" for j
    by (auto simp: lru_front_def map_of_without split: option.split)
  then show ?case using hstr.get_spec(1) [OF i] hstr.get_spec(1) [OF x] i by auto
next
  case (3 s k)
  then obtain xs where x: "represents hashstr_quick_cmp hashstr_wf s xs" by blast
  note i = hstr.remove_spec(2) [OF x 3(2)]
  then show ?case using hstr.get_spec(1) [OF i] hstr.get_spec(1) [OF x] by (auto simp: map_of_without)
next
  case (4 s k f)
  then obtain xs where x: "represents hashstr_quick_cmp hashstr_wf s xs" by blast
  note i = hstr.poke_spec [OF x 4(2), of f]
  then show ?case using hstr.get_spec(1) [OF i] hstr.get_spec(1) [OF x] 4(2) by (auto simp: map_of_update_value)
next
  case (5 s)
  then obtain xs where x: "represents hashstr_quick_cmp hashstr_wf s xs" by blast
  have i: "represents hashstr_quick_cmp hashstr_wf (snd (lru_tree_steal_last s)) (butlast xs)"
    using hstr.steal_last_spec [OF x] by blast
  have "map_of (butlast xs) j = None \<or> map_of (butlast xs) j = map_of xs j" for j
    by (cases xs rule: rev_cases) (auto simp: map_add_def split: option.split)
  then show ?case using hstr.get_spec(1) [OF i] hstr.get_spec(1) [OF x] i by auto
next
  case (6 s)
  then show ?case using hstr.represents_count by fastforce
next
  case (7 s)
  then obtain xs where x: "represents hashstr_quick_cmp hashstr_wf s xs" by blast
  have i: "represents hashstr_quick_cmp hashstr_wf (snd (lru_tree_steal_last s)) (butlast xs)"
    using hstr.steal_last_spec [OF x] by blast
  then show ?case using hstr.represents_count [OF i] hstr.represents_count [OF x] 7(2) by auto
qed

subsection \<open>Runs of operations\<close>

datatype ('k, 'v) lru_op =
    Op_insert 'k 'v | Op_get 'k | Op_remove 'k | Op_steal 'k
  | Op_get_first | Op_get_last | Op_steal_first | Op_steal_last

datatype ('k, 'v) lru_result = R_none | R_value "'v option" | R_removed bool | R_pair "('k \<times> 'v) option"

fun lru_exec ::
  "('k \<Rightarrow> 'k \<Rightarrow> int) \<Rightarrow> ('k, 'v) lru_op \<Rightarrow> ('k, 'v) lru_tree \<Rightarrow> ('k, 'v) lru_result \<times> ('k, 'v) lru_tree" where
  "lru_exec cmp (Op_insert k v) lt = (R_none, lru_tree_insert cmp lt k v)"
| "lru_exec cmp (Op_get k) lt = map_prod R_value id (lru_tree_get cmp lt k)"
| "lru_exec cmp (Op_remove k) lt = map_prod R_removed id (lru_tree_remove cmp lt k)"
| "lru_exec cmp (Op_steal k) lt = map_prod R_value id (lru_tree_steal cmp lt k)"
| "lru_exec cmp Op_get_first lt = map_prod R_pair id (lru_tree_get_first lt)"
| "lru_exec cmp Op_get_last lt = map_prod R_pair id (lru_tree_get_last lt)"
| "lru_exec cmp Op_steal_first lt = map_prod R_pair id (lru_tree_steal_first lt)"
| "lru_exec cmp Op_steal_last lt = map_prod R_pair id (lru_tree_steal_last lt)"

text \<open>The specification: a list of pairs, most recently used first.\<close>

definition ends :: "(('k \<times> 'v) list \<Rightarrow> 'k \<times> 'v) \<Rightarrow> ('k \<times> 'v) list \<Rightarrow> ('k, 'v) lru_result" where
  "ends pick xs = R_pair (if xs = [] then None else Some (pick xs))"

fun lru_spec ::
  "bool \<Rightarrow> ('k, 'v) lru_op \<Rightarrow> ('k \<times> 'v) list \<Rightarrow> ('k, 'v) lru_result \<times> ('k \<times> 'v) list" where
  "lru_spec na (Op_insert k v) xs = (R_none, (k, v) # without k xs)"
| "lru_spec na (Op_get k) xs = (R_value (map_of xs k), lru_front na k xs)"
| "lru_spec na (Op_remove k) xs = (R_removed (map_of xs k \<noteq> None), without k xs)"
| "lru_spec na (Op_steal k) xs = (R_value (map_of xs k), without k xs)"
| "lru_spec na Op_get_first xs = (ends hd xs, xs)"
| "lru_spec na Op_get_last xs =
     (ends List.last xs, if xs = [] \<or> na then xs else List.last xs # butlast xs)"
| "lru_spec na Op_steal_first xs = (ends hd xs, tl xs)"
| "lru_spec na Op_steal_last xs = (ends List.last xs, butlast xs)"

fun run_ops :: "('o \<Rightarrow> 's \<Rightarrow> 'r \<times> 's) \<Rightarrow> 'o list \<Rightarrow> 's \<Rightarrow> 'r list \<times> 's" where
  "run_ops f [] s = ([], s)"
| "run_ops f (x # xs) s =
     (let (r, s) = f x s; (rs, s) = run_ops f xs s in (r # rs, s))"

fun op_key_ok :: "('k \<Rightarrow> bool) \<Rightarrow> ('k, 'v) lru_op \<Rightarrow> bool" where
  "op_key_ok okk (Op_insert k v) = okk k"
| "op_key_ok okk (Op_get k) = okk k"
| "op_key_ok okk (Op_remove k) = okk k"
| "op_key_ok okk (Op_steal k) = okk k"
| "op_key_ok okk _ = True"

lemma touch_flags [simp]: "lt_flags (lru_touch a lt) = lt_flags lt"
  by (simp add: lru_touch_def)

lemma exec_flags: "lt_flags (snd (lru_exec cmp x lt)) = lt_flags lt"
  by (cases x) (auto simp: lru_tree_insert_def lru_tree_get_def lru_tree_remove_def lru_tree_steal_def
      lru_tree_get_first_def lru_tree_get_last_def lru_tree_steal_first_def lru_tree_steal_last_def
      lru_get_def node_create_def rb_insert_def node_update_def Let_def split: option.split)

lemma exec_hooks:
  "lt_kfree (snd (lru_exec cmp x lt)) = lt_kfree lt" "lt_vfree (snd (lru_exec cmp x lt)) = lt_vfree lt"
  by (cases x; auto simp: lru_tree_insert_def lru_tree_get_def lru_tree_remove_def lru_tree_steal_def
      lru_tree_get_first_def lru_tree_get_last_def lru_tree_steal_first_def lru_tree_steal_last_def
      lru_get_def lru_touch_def node_create_def rb_insert_def node_update_def Let_def split: option.split)+

text \<open>The values an operation puts in, and those it hands over to its caller.\<close>

fun put_values :: "('k, 'v) lru_op \<Rightarrow> 'v list" where
  "put_values (Op_insert k v) = [v]"
| "put_values _ = []"

fun taken_values :: "('k, 'v) lru_op \<Rightarrow> ('k, 'v) lru_result \<Rightarrow> 'v list" where
  "taken_values (Op_steal k) (R_value (Some v)) = [v]"
| "taken_values Op_steal_first (R_pair (Some (k, v))) = [v]"
| "taken_values Op_steal_last (R_pair (Some (k, v))) = [v]"
| "taken_values _ _ = []"

text \<open>The value an operation releases.\<close>

fun dropped_values :: "('k, 'v) lru_op \<Rightarrow> ('k \<times> 'v) list \<Rightarrow> 'v list" where
  "dropped_values (Op_insert k v) xs = (case map_of xs k of Some v \<Rightarrow> [v] | None \<Rightarrow> [])"
| "dropped_values (Op_remove k) xs = (case map_of xs k of Some v \<Rightarrow> [v] | None \<Rightarrow> [])"
| "dropped_values _ _ = []"

lemma mset_chain:
  fixes p :: "'a multiset"
  assumes "p + x = t + d + x'" and "q + (f + d) + x' = s + f' + y"
  shows "p + q + f + x = t + s + f' + y"
proof -
  have "p + q + f + x = (p + x) + q + f" by (simp add: ac_simps)
  also have "\<dots> = t + (q + (f + d) + x')" unfolding assms(1) by (simp add: ac_simps)
  finally show ?thesis unfolding assms(2) by (simp add: ac_simps)
qed

lemma mset_without:
  "distinct (map fst xs) \<Longrightarrow>
     mset (map snd xs) = mset (map snd (without k xs)) + mset (case map_of xs k of Some v \<Rightarrow> [v] | None \<Rightarrow> [])"
proof (induction xs)
  case (Cons p xs)
  then show ?case by (cases "fst p = k") (auto simp: without_def filter_keys_id map_of_eq_None_iff split: option.splits)
qed (simp add: without_def)

lemma spec_conserves:
  assumes "distinct (map fst xs)"
  shows "mset (put_values x) + mset (map snd xs) =
    mset (taken_values x (fst (lru_spec na x xs))) + mset (dropped_values x xs) + mset (map snd (snd (lru_spec na x xs)))"
proof (cases x)
  case (Op_get k)
  then show ?thesis
    using mset_without [OF assms, of k] by (auto simp: lru_front_def split: option.splits)
next
  case (Op_insert k v)
  then show ?thesis using mset_without [OF assms, of k] by simp
next
  case (Op_remove k)
  then show ?thesis using mset_without [OF assms, of k] by simp
next
  case (Op_steal k)
  then show ?thesis using mset_without [OF assms, of k] by (simp split: option.split)
next
  case Op_get_last
  then show ?thesis by (cases xs rule: rev_cases) (auto simp: ends_def)
next
  case Op_steal_first
  then show ?thesis by (cases xs) (auto simp: ends_def)
next
  case Op_steal_last
  then show ?thesis by (cases xs rule: rev_cases) (auto simp: ends_def)
qed (simp add: ends_def)

context gcompare
begin

lemma exec_spec:
  assumes "represents cmp okk lt xs" and "op_key_ok okk x"
  shows "fst (lru_exec cmp x lt) = fst (lru_spec (noatime lt) x xs) \<and>
    represents cmp okk (snd (lru_exec cmp x lt)) (snd (lru_spec (noatime lt) x xs))"
  using assms(2) insert_spec [OF assms(1)] get_spec(1,2) [OF assms(1)] remove_spec [OF assms(1)]
    get_first_spec [OF assms(1)] steal_first_spec [OF assms(1)] get_last_spec [OF assms(1)]
    steal_last_spec [OF assms(1)]
  by (cases x) (auto simp: ends_def)

lemma found_freed:
  assumes "rep cmp okk lt as" and "okk k" and "rb_find cmp lt k = Some a" and "lt_vfree lt"
    and "stored lt' a = stored lt a" and "lt_vfree lt' = lt_vfree lt" and "freed_v lt' = freed_v lt"
  shows "freed_v (node_cleanup a lt') = 
    freed_v lt @ (case map_of (map (entry lt) as) k of Some v \<Rightarrow> [v] | None \<Rightarrow> [])"
proof -
  obtain us vs where f: "as = us @ a # vs" "map_of (map (entry lt) as) k = Some (snd (entry lt a))"
    using assms(1-3) by (rule find_Some)
  have "stored lt' a = Some (Some (fst (entry lt a)), Some (snd (entry lt a)))"
    using repD(7) [OF assms(1), of a] f(1) assms(5) by (auto simp: filled_entry)
  then obtain n where "lt_nodes lt' a = Some n" "nv n = Some (snd (entry lt a))" by (auto simp: stored_def)
  then show ?thesis using assms(4,6,7) f(2) by (simp add: node_cleanup_freed)
qed

lemma exec_freed:
  assumes "represents cmp okk lt xs" and "op_key_ok okk x" and v: "lt_vfree lt"
  shows "freed_v (snd (lru_exec cmp x lt)) = freed_v lt @ dropped_values x xs"
proof -
  obtain as where r: "rep cmp okk lt as" and xs: "xs = map (entry lt) as"
    using assms by (auto simp: represents_def)
  have stolen: "freed_v (node_cleanup a (node_deq_extract a (rb_remove a
      (set_node a (\<lambda>n. n\<lparr>nk := None, nv := None\<rparr>) lt)))) = freed_v lt" if "a \<in> set as" for a
  proof -
    let ?lt = "node_deq_extract a (rb_remove a (set_node a (\<lambda>n. n\<lparr>nk := None, nv := None\<rparr>) lt))"
    have "stored ?lt a = Some (None, None)" using repD(7) [OF r that] by (auto simp: filled_def) (auto simp: stored_def)
    then obtain n where "lt_nodes ?lt a = Some n" "nv n = None" by (auto simp: stored_def simp del: extract_fields)
    then show ?thesis by (simp add: node_cleanup_freed)
  qed
  show ?thesis
  proof (cases x)
    case (Op_insert k w)
    then show ?thesis
      using find_None [OF r, of k] found_freed [OF r, of k] assms(2) v xs
      by (cases "rb_find cmp lt k")
        (auto simp: lru_tree_insert_def node_create_def rb_insert_def node_update_def Let_def)
  next
    case (Op_remove k)
    then show ?thesis
      using find_None [OF r, of k] found_freed [OF r, of k] assms(2) v xs
      by (cases "rb_find cmp lt k") (auto simp: lru_tree_remove_def Let_def)
  next
    case (Op_steal k)
    have "freed_v (node_cleanup a (set_node a (nv_update (\<lambda>_. None)) lt')) = freed_v lt'"
      if "filled lt a" "stored lt' a = stored lt a" for a lt'
      using that by (auto simp: filled_def stored_def node_cleanup_freed)
    moreover have "filled lt a" if f: "rb_find cmp lt k = Some a" for a
      by (rule find_Some [OF r _ f]) (use Op_steal assms(2) repD(7) [OF r] in auto)
    ultimately show ?thesis using Op_steal
      by (cases "rb_find cmp lt k") (auto simp: lru_tree_steal_def Let_def)
  next
    case Op_steal_first
    have "a \<in> set as" if "lt_first lt = Some a" for a
      using that repD(1) [OF r] by (auto simp: queue_def dest: first_of_in [OF sym])
    then show ?thesis using Op_steal_first stolen
      by (cases "lt_first lt") (auto simp: lru_tree_steal_first_def lru_get_def Let_def)
  next
    case Op_steal_last
    have "a \<in> set as" if "lt_last lt = Some a" for a
      using that repD(1) [OF r] by (auto simp: queue_def dest: last_of_in [OF sym])
    then show ?thesis using Op_steal_last stolen
      by (cases "lt_last lt") (auto simp: lru_tree_steal_last_def lru_get_def Let_def)
  qed (auto simp: lru_tree_get_def lru_touch_def lru_tree_get_first_def lru_tree_get_last_def
      lru_get_def Let_def split: option.split)
qed

lemma run_conserves:
  assumes "represents cmp okk lt xs" and "\<forall>x \<in> set ops. op_key_ok okk x" and "lt_kfree lt" and "lt_vfree lt"
  shows "\<exists>ys. represents cmp okk (snd (run_ops (lru_exec cmp) ops lt)) ys \<and>
    lt_kfree (snd (run_ops (lru_exec cmp) ops lt)) \<and> lt_vfree (snd (run_ops (lru_exec cmp) ops lt)) \<and>
    mset (concat (map put_values ops)) + mset (freed_v lt) + mset (map snd xs) =
      mset (concat (map2 taken_values ops (fst (run_ops (lru_exec cmp) ops lt)))) +
      mset (freed_v (snd (run_ops (lru_exec cmp) ops lt))) + mset (map snd ys)"
  using assms
proof (induction ops arbitrary: lt xs)
  case (Cons x ops)
  let ?lt = "snd (lru_exec cmp x lt)" and ?xs = "snd (lru_spec (noatime lt) x xs)"
  have e: "fst (lru_exec cmp x lt) = fst (lru_spec (noatime lt) x xs)" "represents cmp okk ?lt ?xs"
    using exec_spec [OF Cons.prems(1)] Cons.prems(2) by simp_all
  have f: "freed_v ?lt = freed_v lt @ dropped_values x xs"
    using exec_freed [OF Cons.prems(1)] Cons.prems(2,4) by simp
  note m = spec_conserves [OF represents_distinct [OF Cons.prems(1)], of x "noatime lt"]
  have "\<forall>x \<in> set ops. op_key_ok okk x" "lt_kfree ?lt" "lt_vfree ?lt"
    using Cons.prems(2-4) by (simp_all add: exec_hooks)
  from Cons.IH [OF e(2) this] obtain ys where ys: "represents cmp okk (snd (run_ops (lru_exec cmp) ops ?lt)) ys"
    "lt_kfree (snd (run_ops (lru_exec cmp) ops ?lt))" "lt_vfree (snd (run_ops (lru_exec cmp) ops ?lt))"
    "mset (concat (map put_values ops)) + mset (freed_v ?lt) + mset (map snd ?xs) =
      mset (concat (map2 taken_values ops (fst (run_ops (lru_exec cmp) ops ?lt)))) +
      mset (freed_v (snd (run_ops (lru_exec cmp) ops ?lt))) + mset (map snd ys)" by blast
  from mset_chain [OF m, OF ys(4) [unfolded f mset_append]] ys(1-3) e(1)
  show ?case
    by (intro exI [of _ ys], cases "lru_exec cmp x lt"; cases "run_ops (lru_exec cmp) ops ?lt") simp
qed (simp, blast)

lemma run_spec:
  assumes "represents cmp okk lt xs" and "\<forall>x \<in> set ops. op_key_ok okk x"
  shows "fst (run_ops (lru_exec cmp) ops lt) = fst (run_ops (lru_spec (noatime lt)) ops xs) \<and>
    represents cmp okk (snd (run_ops (lru_exec cmp) ops lt)) (snd (run_ops (lru_spec (noatime lt)) ops xs))"
  using assms
proof (induction ops arbitrary: lt xs)
  case (Cons x ops)
  let ?lt = "snd (lru_exec cmp x lt)" and ?xs = "snd (lru_spec (noatime lt) x xs)"
  have e: "fst (lru_exec cmp x lt) = fst (lru_spec (noatime lt) x xs)" "represents cmp okk ?lt ?xs"
    using exec_spec [OF Cons.prems(1)] Cons.prems(2) by simp_all
  have "noatime ?lt = noatime lt" by (simp add: noatime_def exec_flags)
  with Cons.IH [OF e(2)] Cons.prems(2) e(1) show ?case by (simp add: case_prod_beta Let_def)
qed simp

end

subsection \<open>Properties\<close>

text \<open>
  C27: the tree with its queue refines a list, most recently used first. Over every run of
  operations on a new tree, on well-formed keys, each operation returns what the list
  operation returns, and afterwards a walk along the queue ends and meets exactly the pairs
  of the list in its order, and the count is its length.
\<close>

theorem lru_refines_list:
  assumes "\<forall>x \<in> set ops. op_key_ok hashstr_wf x"
  shows "case run_ops (lru_exec hashstr_quick_cmp) ops (lru_tree_create kf vf opt) of (rs, lt) \<Rightarrow>
    case run_ops (lru_spec (opt AND LTO_NOATIME \<noteq> 0)) ops [] of (rs', xs) \<Rightarrow>
      rs = rs' \<and> lru_tree_foreach_DEQ lt h s = Some (walk h xs s) \<and> lru_tree_count lt = int (length xs)"
proof -
  let ?c = "lru_tree_create kf vf opt" and ?na = "opt AND LTO_NOATIME \<noteq> 0"
  have n: "noatime ?c = ?na" by (simp add: noatime_def lru_tree_create_def)
  have r: "fst (run_ops (lru_exec hashstr_quick_cmp) ops ?c) = fst (run_ops (lru_spec ?na) ops [])"
    "represents hashstr_quick_cmp hashstr_wf (snd (run_ops (lru_exec hashstr_quick_cmp) ops ?c))
      (snd (run_ops (lru_spec ?na) ops []))"
    using hstr.run_spec [OF hstr.represents_create assms, of kf vf opt] unfolding n by simp_all
  then show ?thesis
    using hstr.foreach_DEQ_spec [OF r(2)] hstr.represents_count [OF r(2)]
    by (simp add: case_prod_beta)
qed

definition two_keys :: "(hashstr, nat) lru_op list" where
  "two_keys = [Op_insert (hashstr_create ''A'') 1, Op_insert (hashstr_create ''B'') 2,
     Op_get (hashstr_create ''A''), Op_get_last]"

theorem lru_refines_list_witness:
  "\<exists>rs lt. run_ops (lru_exec hashstr_quick_cmp) two_keys (lru_tree_create True True 0) = (rs, lt) \<and>
     rs = [R_none, R_none, R_value (Some 1), R_pair (Some (hashstr_create ''B'', 2))] \<and> lru_tree_count lt = 2"
proof -
  have ok: "\<forall>x \<in> set two_keys. op_key_ok hashstr_wf x"
    by (simp add: two_keys_def hashstr_create_wf NUL_def)
  have ne: "hashstr_create ''A'' \<noteq> hashstr_create ''B''" by code_simp
  have "run_ops (lru_spec False) two_keys [] =
     ([R_none, R_none, R_value (Some 1), R_pair (Some (hashstr_create ''B'', 2))],
      [(hashstr_create ''B'', 2), (hashstr_create ''A'', 1)])"
    using ne by (simp add: two_keys_def without_def lru_front_def ends_def)
  then show ?thesis
    using lru_refines_list [OF ok, where kf = True and vf = True and opt = 0 and h = "\<lambda>_ _ _. (False, ())" and s = "()"]
    by (simp add: case_prod_beta) (metis prod.collapse)
qed

text \<open>
  C28: no value is lost and none is released twice. Whatever the operations on a new tree,
  its destruction ends and leaves no node allocated, and the values put in the tree are, with
  their multiplicities, those the operations handed over to the caller (the steals) and
  those given to the release hook by then.
\<close>

theorem lru_releases_each_value_once:
  fixes ops :: "(hashstr, 'v) lru_op list"
  assumes "\<forall>x \<in> set ops. op_key_ok hashstr_wf x"
  shows "case run_ops (lru_exec hashstr_quick_cmp) ops (lru_tree_create True True opt) of (rs, lt) \<Rightarrow>
    \<exists>lt'. lru_tree_destroy lt = Some lt' \<and> lt_nodes lt' = (\<lambda>_. None) \<and>
      mset (concat (map put_values ops)) = mset (concat (map2 taken_values ops rs)) + mset (freed_v lt')"
proof -
  let ?c = "lru_tree_create True True opt :: (hashstr, 'v) lru_tree" and ?run = "run_ops (lru_exec hashstr_quick_cmp) ops"
  have c: "represents hashstr_quick_cmp hashstr_wf ?c []" "lt_kfree ?c" "lt_vfree ?c" "freed_v ?c = []"
    by (rule hstr.represents_create) (simp_all add: lru_tree_create_def)
  obtain xs where r: "represents hashstr_quick_cmp hashstr_wf (snd (?run ?c)) xs"
    and h: "lt_kfree (snd (?run ?c))" "lt_vfree (snd (?run ?c))"
    and m: "mset (concat (map put_values ops)) = mset (concat (map2 taken_values ops (fst (?run ?c)))) +
      mset (freed_v (snd (?run ?c))) + mset (map snd xs)"
    using hstr.run_conserves [OF c(1) assms c(2,3)] c(4) by auto
  show ?thesis using hstr.destroy_spec [OF r h] m by (auto simp: case_prod_beta)
qed

definition replaced :: "(hashstr, nat) lru_op list" where
  "replaced = [Op_insert (hashstr_create ''A'') 1, Op_insert (hashstr_create ''A'') 2, Op_steal_last]"

theorem lru_releases_each_value_once_witness:
  "case run_ops (lru_exec hashstr_quick_cmp) replaced (lru_tree_create True True 0) of (rs, lt) \<Rightarrow>
    \<exists>lt'. lru_tree_destroy lt = Some lt' \<and> lt_nodes lt' = (\<lambda>_. None) \<and>
      {#1, 2#} = mset (concat (map2 taken_values replaced rs)) + mset (freed_v lt')"
proof -
  have "\<forall>x \<in> set replaced. op_key_ok hashstr_wf x"
    by (simp add: replaced_def hashstr_create_wf NUL_def)
  from lru_releases_each_value_once [OF this, where opt = 0] show ?thesis
    by (auto simp: replaced_def case_prod_beta)
qed

end
