(* ===== verification/Hex.thy ===== *)
theory Hex
  imports Metautils
begin

section \<open>Hexadecimal strings and container identifiers\<close>

text \<open>
  Models the part of \<open>metautils/lib/utils_tools.c\<close> on binary identifiers: their hexadecimal
  form and back, and the identifier of a container name. A buffer of bytes is a list of
  characters. SHA-256 is the parameter \<open>sha256\<close>.
\<close>

subsection \<open>Definitions\<close>

definition HEXDIGITS :: string where
  "HEXDIGITS = ''0123456789ABCDEF''"

text \<open>The tables of the source: two digits for each byte, and the value of each digit.\<close>

definition b2h :: "char \<Rightarrow> string" where
  "b2h c = [HEXDIGITS ! (byte_of c div 16), HEXDIGITS ! (byte_of c mod 16)]"

definition hexa :: "char \<Rightarrow> int" where
  "hexa c =
     (if 48 \<le> byte_of c \<and> byte_of c \<le> 57 then int (byte_of c) - 48
      else if 65 \<le> byte_of c \<and> byte_of c \<le> 70 then int (byte_of c) - 55
      else if 97 \<le> byte_of c \<and> byte_of c \<le> 102 then int (byte_of c) - 87
      else -1)"

text \<open>
  \<open>_buffer2str\<close>: the bytes written before the final NUL, for a destination of \<open>dS\<close> bytes. The
  final NUL overwrites the last byte when the loop filled the destination.
\<close>

fun buffer2str_loop :: "string \<Rightarrow> nat \<Rightarrow> string \<Rightarrow> string" where
  "buffer2str_loop [] dS d = d"
| "buffer2str_loop (c # s) dS d =
     (if length d < dS - 1 then buffer2str_loop s dS (d @ b2h c) else d)"

definition buffer2str_sized :: "string \<Rightarrow> nat \<Rightarrow> string \<times> nat" where
  "buffer2str_sized s dS =
     (if s = [] \<or> dS = 0 then ([], 0)
      else let d = buffer2str_loop s dS []; j = length d
           in (take (if j < dS then j else dS - 1) d, j))"

definition buffer2str :: "string \<Rightarrow> nat \<Rightarrow> string" where
  "buffer2str s dS = fst (buffer2str_sized s dS)"

definition container_id_to_string :: "string \<Rightarrow> nat \<Rightarrow> string \<times> nat" where
  "container_id_to_string cid dstsize = buffer2str_sized cid dstsize"

definition hex_byte :: "int \<Rightarrow> int \<Rightarrow> char" where
  "hex_byte i0 i1 = char_of (nat ((i0 mod 16) * 16 + i1 mod 16))"

fun hex2bin_loop :: "string \<Rightarrow> nat \<Rightarrow> string option" where
  "hex2bin_loop s 0 = Some []"
| "hex2bin_loop (c0 # c1 # s) (Suc dS) =
     (let i0 = hexa c0; i1 = hexa c1
      in if i0 < 0 \<or> i1 < 0 then None
         else map_option (\<lambda>d. hex_byte i0 i1 # d) (hex2bin_loop s dS))"
| "hex2bin_loop _ (Suc dS) = None"

definition hex2bin :: "string \<Rightarrow> nat \<Rightarrow> string option" where
  "hex2bin s dS = (if length s < dS * 2 then None else hex2bin_loop s dS)"

definition container_id_hex2bin :: "string \<Rightarrow> string option" where
  "container_id_hex2bin s = hex2bin s 32"

definition g_ascii_isxdigit :: "char \<Rightarrow> bool" where
  "g_ascii_isxdigit c \<longleftrightarrow>
     48 \<le> byte_of c \<and> byte_of c \<le> 57 \<or> 65 \<le> byte_of c \<and> byte_of c \<le> 70 \<or> 97 \<le> byte_of c \<and> byte_of c \<le> 102"

fun metautils_str_ishexa :: "string \<Rightarrow> nat \<Rightarrow> bool" where
  "metautils_str_ishexa [] slen = (slen = 0)"
| "metautils_str_ishexa (c # s) 0 = False"
| "metautils_str_ishexa (c # s) (Suc slen) = (g_ascii_isxdigit c \<and> metautils_str_ishexa s slen)"

text \<open>
  The bytes digested for the identifier of a container: the name, after the namespace
  when it has a virtual part. \<open>name_to_id_v2\<close> is the older function for the same purpose.
\<close>

definition name_to_id :: "(string \<Rightarrow> string) \<Rightarrow> string \<Rightarrow> string" where
  "name_to_id sha256 name = sha256 name"

definition name_to_id_v2 :: "(string \<Rightarrow> string) \<Rightarrow> string \<Rightarrow> string option \<Rightarrow> string" where
  "name_to_id_v2 sha256 name vns =
     (case vns of
        None \<Rightarrow> name_to_id sha256 name
      | Some v \<Rightarrow> if CHR ''.'' \<notin> set v then name_to_id sha256 name else sha256 (v @ ''/'' @ name))"

definition meta1_name2hash :: "(string \<Rightarrow> string) \<Rightarrow> string option \<Rightarrow> string option \<Rightarrow> string" where
  "meta1_name2hash sha256 ns cname =
     (let sum = (case ns of Some n \<Rightarrow> if CHR ''.'' \<in> set n then n @ ''/'' else [] | None \<Rightarrow> []);
          sum = sum @ (case cname of Some c \<Rightarrow> c | None \<Rightarrow> [])
      in sha256 sum)"

definition container_id_equal :: "string \<Rightarrow> string \<Rightarrow> bool" where
  "container_id_equal k1 k2 \<longleftrightarrow> k1 = k2"

subsection \<open>Lemmas\<close>

lemma hexdigit_nth:
  assumes "n < 16"
  shows "byte_of (HEXDIGITS ! n) = (if n < 10 then 48 + n else 55 + n)"
proof -
  have "\<forall>n < 16. byte_of (HEXDIGITS ! n) = (if n < 10 then 48 + n else 55 + n)"
    unfolding HEXDIGITS_def byte_of_def by (simp add: All_less_Suc numeral_eq_Suc)
  then show ?thesis using assms by blast
qed

lemma hexa_digit: "n < 16 \<Longrightarrow> hexa (HEXDIGITS ! n) = int n"
  by (simp add: hexa_def hexdigit_nth)

lemma isxdigit_digit: "n < 16 \<Longrightarrow> g_ascii_isxdigit (HEXDIGITS ! n)"
  by (simp add: g_ascii_isxdigit_def hexdigit_nth)

lemma byte_div_16 [simp]: "byte_of c div 16 < 16"
  by (rule less_mult_imp_div_less) simp

lemma hex_byte_halves: "hex_byte (int (byte_of c div 16)) (int (byte_of c mod 16)) = c"
proof -
  have "int (byte_of c div 16) mod 16 = int (byte_of c div 16)" using byte_div_16 [of c] by simp
  moreover have "int (byte_of c mod 16) mod 16 = int (byte_of c mod 16)" by simp
  moreover have "int (byte_of c div 16) * 16 + int (byte_of c mod 16) = int (byte_of c)"
    by (simp add: zdiv_int zmod_int)
  ultimately show ?thesis unfolding hex_byte_def by (simp only: nat_int) (simp add: byte_of_def)
qed

lemma b2h_length [simp]: "length (b2h c) = 2"
  by (simp add: b2h_def)

lemma concat_b2h_length [simp]: "length (concat (map b2h s)) = 2 * length s"
  by (induction s) simp_all

lemma buffer2str_loop_fits:
  "length d + 2 * length s < dS + 1 \<Longrightarrow> buffer2str_loop s dS d = d @ concat (map b2h s)"
  by (induction s arbitrary: d) auto

lemma buffer2str_loop_bound: "length d \<le> dS \<Longrightarrow> 0 < dS \<Longrightarrow> even (length d) \<Longrightarrow> length (buffer2str_loop s dS d) \<le> dS"
  by (induction s arbitrary: d) (auto)

lemma buffer2str_loop_ge: "length d \<le> length (buffer2str_loop s dS d)"
proof (induction s arbitrary: d)
  case (Cons c s)
  then show ?case using Cons [of "d @ b2h c"] by simp
qed simp

lemma buffer2str_nonempty: "s \<noteq> [] \<Longrightarrow> 1 < dS \<Longrightarrow> buffer2str s dS \<noteq> []"
proof (cases s)
  case (Cons c t)
  assume "1 < dS"
  then show ?thesis using Cons buffer2str_loop_ge [of "b2h c" t dS]
    by (auto simp: buffer2str_def buffer2str_sized_def Let_def)
qed simp

lemma buffer2str_fits: "2 * length s < dS \<Longrightarrow> buffer2str s dS = concat (map b2h s)"
  by (cases s) (auto simp: buffer2str_def buffer2str_sized_def Let_def buffer2str_loop_fits simp del: buffer2str_loop.simps)

lemma hex2bin_loop_b2h: "hex2bin_loop (concat (map b2h s) @ t) (length s) = Some s"
proof (induction s)
  case (Cons c s)
  have "hexa (HEXDIGITS ! (byte_of c div 16)) = int (byte_of c div 16)"
    "hexa (HEXDIGITS ! (byte_of c mod 16)) = int (byte_of c mod 16)"
    by (rule hexa_digit; simp)+
  then show ?case using Cons hex_byte_halves [of c] by (simp add: b2h_def [of c] Let_def)
qed simp

lemma ishexa_b2h: "metautils_str_ishexa (concat (map b2h s)) (2 * length s)"
  by (induction s) (simp_all add: b2h_def [abs_def] isxdigit_digit)

subsection \<open>Properties\<close>

text \<open>
  C29: the hexadecimal form of a buffer. Whatever the sizes, \<open>buffer2str\<close> writes within its
  destination. When the destination has room for two digits per byte and a NUL, the
  result has only hexadecimal digits, two per byte, and decoding it gives the buffer back.
\<close>

theorem hex_round_trip:
  "(0 < dS \<longrightarrow> snd (buffer2str_sized s dS) \<le> dS \<and> length (buffer2str s dS) < dS) \<and>
   (2 * length s < dS \<longrightarrow>
      metautils_str_ishexa (buffer2str s dS) (2 * length s) \<and> hex2bin (buffer2str s dS) (length s) = Some s)"
proof (intro conjI impI)
  assume "0 < dS"
  then show "snd (buffer2str_sized s dS) \<le> dS" "length (buffer2str s dS) < dS"
    using buffer2str_loop_bound [of "[]" dS s] by (auto simp: buffer2str_def buffer2str_sized_def Let_def)
next
  assume "2 * length s < dS"
  then have b: "buffer2str s dS = concat (map b2h s)" by (rule buffer2str_fits)
  then show "metautils_str_ishexa (buffer2str s dS) (2 * length s)" by (simp add: ishexa_b2h)
  show "hex2bin (buffer2str s dS) (length s) = Some s"
    using hex2bin_loop_b2h [of s "[]"] by (simp add: hex2bin_def b)
qed

theorem hex_round_trip_witness:
  "buffer2str ''jfs'' 7 = ''6A6673'' \<and> hex2bin (buffer2str ''jfs'' 7) 3 = Some ''jfs'' \<and>
   length (buffer2str ''jfs'' 4) < 4"
proof -
  have "buffer2str ''jfs'' 7 = ''6A6673''" by code_simp
  then show ?thesis using hex_round_trip [of 7 "''jfs''"] hex_round_trip [of 4 "''jfs''"]
    by (simp add: numeral_eq_Suc)
qed

end
