(* ===== verification/Url.thy ===== *)
theory Url
  imports Hex
begin

section \<open>The URL of a content\<close>

text \<open>
  Models \<open>metautils/lib/hc_url.c\<close> and the string helpers it calls in \<open>utils_strings.c\<close>. A
  pointer into the string being parsed is the suffix that starts there, so a difference of
  pointers is a difference of lengths; a NULL string is \<open>None\<close>. The functions that fill the
  cached fields (\<open>whole\<close>, \<open>hexid\<close>) return the new URL. \<open>None\<close> as the result of a setter is a
  NULL dereference. SHA-256 is a parameter.
\<close>

subsection \<open>String helpers\<close>

text \<open>\<open>strchr\<close>: the suffix that starts at the first occurrence.\<close>

definition strchr :: "string \<Rightarrow> char \<Rightarrow> string option" where
  "strchr s c = (case dropWhile (\<lambda>x. x \<noteq> c) s of [] \<Rightarrow> None | r \<Rightarrow> Some r)"

text \<open>\<open>g_strndup (start, end - start)\<close> for two suffixes of a string.\<close>

definition strndup_to :: "string \<Rightarrow> string \<Rightarrow> string" where
  "strndup_to start end = take (length start - length end) start"

definition metautils_rstrip :: "string \<Rightarrow> char \<Rightarrow> string" where
  "metautils_rstrip s c = rev (dropWhile (\<lambda>x. x = c) (rev s))"

definition metautils_lstrip :: "string \<Rightarrow> char \<Rightarrow> string" where
  "metautils_lstrip s c = dropWhile (\<lambda>x. x = c) s"

text \<open>\<open>g_strsplit\<close> on one character, without limit; no token in the empty string.\<close>

fun split_on :: "char \<Rightarrow> string \<Rightarrow> string \<Rightarrow> string list" where
  "split_on c acc [] = [acc]"
| "split_on c acc (x # s) = (if x = c then acc # split_on c [] s else split_on c (acc @ [x]) s)"

definition g_strsplit :: "string \<Rightarrow> char \<Rightarrow> string list" where
  "g_strsplit s c = (if s = [] then [] else split_on c [] s)"

subsection \<open>The structure\<close>

datatype hc_url_field =
    HCURL_NS | HCURL_NSPHYS | HCURL_NSVIRT | HCURL_REFERENCE | HCURL_PATH | HCURL_OPTIONS
  | HCURL_VERSION | HCURL_SNAPSHOT | HCURL_WHOLE | HCURL_HEXID | HCURL_SNAPORVERS

record hc_url =
  ns :: "string option"
  refname :: "string option"
  path :: "string option"
  options :: "string list"
  pns :: "string option"
  vns :: "string option"
  whole :: "string option"
  url_id :: string
  hexid :: string

definition hc_url_empty :: hc_url where
  "hc_url_empty =
     \<lparr>ns = None, refname = None, path = None, options = [], pns = None, vns = None, whole = None,
      url_id = replicate 32 NUL, hexid = []\<rparr>"

subsection \<open>Parsing\<close>

definition parse_ns :: "hc_url \<Rightarrow> hc_url" where
  "parse_ns url =
     (case ns url of
        None \<Rightarrow> url
      | Some n \<Rightarrow>
          let url = (case strchr n (CHR ''.'') of
                       None \<Rightarrow> url\<lparr>pns := Some n\<rparr>
                     | Some dot \<Rightarrow> url\<lparr>pns := Some (strndup_to n dot), vns := Some dot\<rparr>)
          in url\<lparr>ns := map_option (\<lambda>s. metautils_rstrip s (CHR ''/'')) (ns url),
                 pns := map_option (\<lambda>s. metautils_rstrip s (CHR ''/'')) (pns url),
                 vns := map_option (\<lambda>s. metautils_rstrip s (CHR ''/'')) (vns url)\<rparr>)"

definition options_reset :: "hc_url \<Rightarrow> hc_url" where
  "options_reset u = u\<lparr>options := []\<rparr>"

text \<open>Whether a packed option has a key: the characters before its first \<open>=\<close>.\<close>

definition option_is :: "string \<Rightarrow> string \<Rightarrow> bool" where
  "option_is k packed =
     (case strchr packed (CHR ''='') of
        None \<Rightarrow> False
      | Some sep \<Rightarrow> length k = length packed - length sep \<and> take (length k) packed = k)"

fun options_get :: "string list \<Rightarrow> string \<Rightarrow> nat option" where
  "options_get [] k = None"
| "options_get (packed # l) k =
     (if option_is k packed then Some 0 else map_option Suc (options_get l k))"

text \<open>The C library prints a NULL string as \<open>(null)\<close>.\<close>

definition hc_url_set_option :: "hc_url \<Rightarrow> string \<Rightarrow> string option \<Rightarrow> hc_url" where
  "hc_url_set_option u k v =
     (let packed = k @ ''='' @ (case v of Some s \<Rightarrow> s | None \<Rightarrow> ''(null)'');
          u = (case options_get (options u) k of
                 None \<Rightarrow> u\<lparr>options := packed # options u\<rparr>
               | Some i \<Rightarrow> u\<lparr>options := (options u)[i := packed]\<rparr>)
      in u\<lparr>whole := None\<rparr>)"

definition add_option :: "hc_url \<Rightarrow> string \<Rightarrow> hc_url" where
  "add_option u option_str =
     (case strchr option_str (CHR ''='') of
        Some cursor \<Rightarrow> hc_url_set_option u (strndup_to option_str cursor) (Some (tl cursor))
      | None \<Rightarrow> u)"

definition parse_options :: "hc_url \<Rightarrow> string option \<Rightarrow> hc_url" where
  "parse_options u opts =
     (let u = options_reset u
      in case opts of
           None \<Rightarrow> u
         | Some s \<Rightarrow> if s = [] then u else foldl add_option u (g_strsplit s (CHR ''&'')))"

definition url_strip_prefix :: "string \<Rightarrow> string" where
  "url_strip_prefix str =
     (if has_prefix str ''grid://'' then drop 7 str
      else if has_prefix str ''hc://'' then drop 5 str
      else if has_prefix str ''redc://'' then drop 7 str
      else str)"

text \<open>\<open>++ p\<close>, and NULL when nothing is left.\<close>

definition next_or_null :: "string \<Rightarrow> string option" where
  "next_or_null p = (if tl p = [] then None else Some (tl p))"

text \<open>The cursors of the source in its order: \<open>refname\<close>, \<open>path\<close>, then \<open>options\<close>.\<close>

definition url_refname :: "string \<Rightarrow> string option" where
  "url_refname s = map_option (\<lambda>r. metautils_lstrip (tl r) (CHR ''/'')) (strchr s (CHR ''/''))"

definition url_path :: "string option \<Rightarrow> string option" where
  "url_path refn = Option.bind (Option.bind refn (\<lambda>r. strchr r (CHR ''/''))) next_or_null"

definition url_options :: "string option \<Rightarrow> string option \<Rightarrow> string option" where
  "url_options refn pth =
     (case pth of
        Some p \<Rightarrow> after_last (CHR ''?'') p
      | None \<Rightarrow> (case refn of Some r \<Rightarrow> after_last (CHR ''?'') r | None \<Rightarrow> None))"

definition parse_url :: "hc_url \<Rightarrow> string \<Rightarrow> bool \<times> hc_url" where
  "parse_url url str =
     (let s = metautils_lstrip (url_strip_prefix str) (CHR ''/'')
      in if s = [] then (False, url)
         else
           let refn = url_refname s;
               pth = url_path refn;
               found = url_options refn pth;
               opts = (case found of Some [] \<Rightarrow> None | _ \<Rightarrow> found);
               url = (if found \<noteq> None then parse_options (options_reset url) opts else url);
               url = (case refn of
                        Some r \<Rightarrow>
                          let url = url\<lparr>ns := Some (take (length s - length r - 1) s)\<rparr>
                          in (case pth of
                                Some p \<Rightarrow>
                                  url\<lparr>refname := Some (take (length r - length p - 1) r),
                                      path := Some (case opts of
                                                      Some q \<Rightarrow> take (length p - length q - 1) p
                                                    | None \<Rightarrow> p)\<rparr>
                              | None \<Rightarrow>
                                  (case opts of
                                     Some q \<Rightarrow> url\<lparr>refname := Some (take (length r - length q - 1) r)\<rparr>
                                   | None \<Rightarrow> url\<lparr>refname := Some r\<rparr>))
                      | None \<Rightarrow> url\<lparr>ns := Some s\<rparr>);
               url = parse_ns url
           in (True, url\<lparr>refname := map_option (\<lambda>x. metautils_rstrip x (CHR ''/'')) (refname url)\<rparr>))"

definition hc_url_init :: "string option \<Rightarrow> hc_url option" where
  "hc_url_init url =
     (case url of
        None \<Rightarrow> None
      | Some str \<Rightarrow> let (ok, u) = parse_url hc_url_empty str in if ok then Some u else None)"

definition hc_url_dup :: "hc_url \<Rightarrow> hc_url" where
  "hc_url_dup u = u\<lparr>options := rev (foldl (\<lambda>acc packed. packed # acc) [] (options u))\<rparr>"

subsection \<open>Accessors\<close>

definition compute_id :: "(string \<Rightarrow> string) \<Rightarrow> hc_url \<Rightarrow> bool \<times> hc_url" where
  "compute_id sha256 url =
     (case refname url of
        None \<Rightarrow> (False, url)
      | Some r \<Rightarrow>
          let i = meta1_name2hash sha256 (ns url) (Some r)
          in (True, url\<lparr>url_id := i, hexid := buffer2str i 65\<rparr>))"

definition hc_url_get_option_value :: "hc_url \<Rightarrow> string \<Rightarrow> string option" where
  "hc_url_get_option_value u k =
     (case options_get (options u) k of
        None \<Rightarrow> None
      | Some i \<Rightarrow> map_option tl (strchr (options u ! i) (CHR ''='')))"

definition hc_url_get_option_names :: "hc_url \<Rightarrow> string list" where
  "hc_url_get_option_names u = map (\<lambda>packed. strndup_to packed (the (strchr packed (CHR ''='')))) (options u)"

fun hc_url_has :: "hc_url \<Rightarrow> hc_url_field \<Rightarrow> bool" where
  "hc_url_has u HCURL_NS = (ns u \<noteq> None)"
| "hc_url_has u HCURL_NSPHYS = (pns u \<noteq> None)"
| "hc_url_has u HCURL_NSVIRT = (vns u \<noteq> None)"
| "hc_url_has u HCURL_REFERENCE = (refname u \<noteq> None)"
| "hc_url_has u HCURL_PATH = (path u \<noteq> None)"
| "hc_url_has u HCURL_OPTIONS = (options u \<noteq> [])"
| "hc_url_has u HCURL_VERSION = (options_get (options u) ''version'' \<noteq> None)"
| "hc_url_has u HCURL_SNAPSHOT = (options_get (options u) ''snapshot'' \<noteq> None)"
| "hc_url_has u HCURL_WHOLE = (whole u \<noteq> None \<or> ns u \<noteq> None \<and> refname u \<noteq> None)"
| "hc_url_has u HCURL_HEXID = (hexid u \<noteq> [] \<or> refname u \<noteq> None)"
| "hc_url_has u HCURL_SNAPORVERS =
     (options_get (options u) ''snapshot'' \<noteq> None \<or> options_get (options u) ''version'' \<noteq> None)"

definition url_get_hexid :: "(string \<Rightarrow> string) \<Rightarrow> hc_url \<Rightarrow> string option \<times> hc_url" where
  "url_get_hexid sha256 u =
     (if hexid u = [] then
        (case compute_id sha256 u of
           (False, u) \<Rightarrow> (None, u)
         | (True, u) \<Rightarrow> let u = u\<lparr>hexid := take 64 (buffer2str (url_id u) 65)\<rparr> in (Some (hexid u), u))
      else (Some (hexid u), u))"

definition append_url :: "(string \<Rightarrow> string) \<Rightarrow> string \<Rightarrow> hc_url \<Rightarrow> string \<times> hc_url" where
  "append_url sha256 gs u =
     (let gs = gs @ (case ns u of Some n \<Rightarrow> n | None \<Rightarrow> []);
          (gs, u) = (if hc_url_has u HCURL_REFERENCE then (gs @ ''/'' @ the (refname u), u)
                     else if hc_url_has u HCURL_HEXID then
                       (let (h, u) = url_get_hexid sha256 u in (gs @ ''/'' @ the h, u))
                     else (gs, u))
      in (gs @ (case path u of Some p \<Rightarrow> ''/'' @ p | None \<Rightarrow> []), u))"

fun append_options :: "bool \<Rightarrow> string \<Rightarrow> string list \<Rightarrow> string" where
  "append_options first gs [] = gs"
| "append_options first gs (packed # l) =
     append_options False (gs @ [if first then CHR ''?'' else CHR ''&''] @ packed) l"

definition url_get_whole :: "(string \<Rightarrow> string) \<Rightarrow> hc_url \<Rightarrow> string option \<times> hc_url" where
  "url_get_whole sha256 u =
     (if whole u = None then
        if \<not> hc_url_has u HCURL_NS \<or> (\<not> hc_url_has u HCURL_REFERENCE \<and> \<not> hc_url_has u HCURL_HEXID)
        then (None, u)
        else let (gs, u) = append_url sha256 [] u;
                 gs = append_options True gs (options u)
             in (Some gs, u\<lparr>whole := Some gs\<rparr>)
      else (whole u, u))"

fun hc_url_get :: "(string \<Rightarrow> string) \<Rightarrow> hc_url \<Rightarrow> hc_url_field \<Rightarrow> string option \<times> hc_url" where
  "hc_url_get sha256 u HCURL_NS = (ns u, u)"
| "hc_url_get sha256 u HCURL_NSPHYS = (pns u, u)"
| "hc_url_get sha256 u HCURL_NSVIRT = (vns u, u)"
| "hc_url_get sha256 u HCURL_REFERENCE = (refname u, u)"
| "hc_url_get sha256 u HCURL_PATH = (path u, u)"
| "hc_url_get sha256 u HCURL_OPTIONS = (None, u)"
| "hc_url_get sha256 u HCURL_VERSION = (hc_url_get_option_value u ''version'', u)"
| "hc_url_get sha256 u HCURL_SNAPSHOT = (hc_url_get_option_value u ''snapshot'', u)"
| "hc_url_get sha256 u HCURL_WHOLE = url_get_whole sha256 u"
| "hc_url_get sha256 u HCURL_HEXID = url_get_hexid sha256 u"
| "hc_url_get sha256 u HCURL_SNAPORVERS =
     (if hc_url_has u HCURL_SNAPSHOT then (hc_url_get_option_value u ''snapshot'', u)
      else if hc_url_has u HCURL_VERSION then (hc_url_get_option_value u ''version'', u)
      else (None, u))"

definition hc_url_get_id :: "(string \<Rightarrow> string) \<Rightarrow> hc_url \<Rightarrow> string option \<times> hc_url" where
  "hc_url_get_id sha256 u =
     (if hexid u = [] then
        (case compute_id sha256 u of (False, u) \<Rightarrow> (None, u) | (True, u) \<Rightarrow> (Some (url_id u), u))
      else (Some (url_id u), u))"

text \<open>\<open>pns.vns\<close> when both are set, \<open>pns\<close> otherwise.\<close>

definition join_ns :: "hc_url \<Rightarrow> string option" where
  "join_ns u =
     (case (vns u, pns u) of (Some v, Some p) \<Rightarrow> Some (p @ ''.'' @ v) | _ \<Rightarrow> pns u)"

definition url_set_hexid :: "hc_url \<Rightarrow> string \<Rightarrow> bool \<times> hc_url" where
  "url_set_hexid u v =
     (let u = u\<lparr>whole := None, hexid := []\<rparr>
      in if \<not> metautils_str_ishexa v 64 then (False, u)
         else let u = u\<lparr>hexid := v\<rparr>
              in case hex2bin v 32 of None \<Rightarrow> (False, u) | Some i \<Rightarrow> (True, u\<lparr>url_id := i\<rparr>))"

fun hc_url_set :: "hc_url \<Rightarrow> hc_url_field \<Rightarrow> string option \<Rightarrow> (bool \<times> hc_url) option" where
  "hc_url_set u HCURL_NS v =
     Some (True, parse_ns (u\<lparr>ns := v, pns := None, vns := None, whole := None, hexid := []\<rparr>))"
| "hc_url_set u HCURL_NSPHYS v =
     (let u = u\<lparr>ns := None, pns := v\<rparr> in Some (True, u\<lparr>ns := join_ns u, whole := None\<rparr>))"
| "hc_url_set u HCURL_NSVIRT v =
     (let u = u\<lparr>ns := None, vns := v\<rparr> in Some (True, u\<lparr>ns := join_ns u, whole := None, hexid := []\<rparr>))"
| "hc_url_set u HCURL_REFERENCE v = Some (True, u\<lparr>refname := v, whole := None, hexid := []\<rparr>)"
| "hc_url_set u HCURL_PATH v = Some (True, u\<lparr>path := v, whole := None\<rparr>)"
| "hc_url_set u HCURL_OPTIONS v = Some (True, parse_options u v)"
| "hc_url_set u HCURL_SNAPORVERS v = Some (True, hc_url_set_option u ''version'' v)"
| "hc_url_set u HCURL_VERSION v = Some (True, hc_url_set_option u ''version'' v)"
| "hc_url_set u HCURL_SNAPSHOT v = Some (True, hc_url_set_option u ''snapshot'' v)"
| "hc_url_set u HCURL_WHOLE v =
     map_option (parse_url (u\<lparr>ns := None, pns := None, vns := None, refname := None, path := None,
                             whole := None, hexid := []\<rparr>)) v"
| "hc_url_set u HCURL_HEXID v = map_option (url_set_hexid u) v"

subsection \<open>Lemmas on the string helpers\<close>

lemma strchr_app [simp]: "c \<notin> set p \<Longrightarrow> strchr (p @ c # r) c = Some (c # r)"
proof -
  assume "c \<notin> set p"
  then have "dropWhile (\<lambda>x. x \<noteq> c) (p @ c # r) = c # r" by (subst dropWhile_append2) auto
  then show ?thesis by (simp add: strchr_def)
qed

lemma strchr_None: "strchr s c = None \<longleftrightarrow> c \<notin> set s"
proof (cases "c \<in> set s")
  case True
  then show ?thesis by (metis option.distinct(1) split_list_first strchr_app)
next
  case False
  then have "dropWhile (\<lambda>x. x \<noteq> c) s = []" by (induction s) auto
  then have "strchr s c = None" unfolding strchr_def by (simp only: list.case)
  with False show ?thesis by simp
qed

lemma strchr_notin [simp]: "c \<notin> set s \<Longrightarrow> strchr s c = None"
  by (simp add: strchr_None)

lemma strchr_split:
  assumes "c \<in> set s"
  obtains p r where "s = p @ c # r" "c \<notin> set p"
  using assms split_list_first by metis

lemma strndup_to_app [simp]: "strndup_to (p @ r) r = p"
  by (simp add: strndup_to_def)

lemma rstrip_id [simp]: "c \<notin> set s \<Longrightarrow> metautils_rstrip s c = s"
  by (cases s rule: rev_cases) (auto simp: metautils_rstrip_def)

lemma rstrip_end: "metautils_rstrip (s @ [c]) c = metautils_rstrip s c"
  by (simp add: metautils_rstrip_def)

lemma lstrip_id [simp]: "s \<noteq> [] \<Longrightarrow> hd s \<noteq> c \<Longrightarrow> metautils_lstrip s c = s"
  by (cases s) (auto simp: metautils_lstrip_def)

lemma split_on_token: "c \<notin> set t \<Longrightarrow> split_on c acc (t @ c # s) = (acc @ t) # split_on c [] s"
  by (induction t arbitrary: acc) auto

lemma split_on_last: "c \<notin> set t \<Longrightarrow> split_on c acc t = [acc @ t]"
  by (induction t arbitrary: acc) auto

fun joined :: "char \<Rightarrow> string list \<Rightarrow> string" where
  "joined c [] = []"
| "joined c [t] = t"
| "joined c (t # ts) = t @ c # joined c ts"

lemma split_joined: "ts \<noteq> [] \<Longrightarrow> \<forall>t \<in> set ts. c \<notin> set t \<Longrightarrow> split_on c [] (joined c ts) = ts"
  by (induction c ts rule: joined.induct) (auto simp: split_on_token split_on_last)

lemma joined_eq_Nil: "joined c ts = [] \<Longrightarrow> \<forall>t \<in> set ts. t \<noteq> [] \<Longrightarrow> ts = []"
  by (cases ts; cases "tl ts") auto

lemma joined_notin: "\<forall>t \<in> set ts. x \<notin> set t \<Longrightarrow> x \<noteq> c \<Longrightarrow> x \<notin> set (joined c ts)"
  by (induction c ts rule: joined.induct) auto

lemma append_options_rest: "append_options False gs ts = gs @ concat (map (\<lambda>t. CHR ''&'' # t) ts)"
  by (induction ts arbitrary: gs) auto

lemma joined_concat: "joined c (t # ts) = t @ concat (map (\<lambda>t. c # t) ts)"
  by (induction ts arbitrary: t) auto

lemma append_options_eq:
  "append_options True gs ts = gs @ (if ts = [] then [] else CHR ''?'' # joined (CHR ''&'') ts)"
  by (cases ts) (simp_all add: append_options_rest joined_concat)

subsection \<open>Options\<close>

definition packed_key :: "string \<Rightarrow> string" where
  "packed_key packed = takeWhile (\<lambda>x. x \<noteq> CHR ''='') packed"

definition option_ok :: "string \<Rightarrow> bool" where
  "option_ok packed \<longleftrightarrow> CHR ''='' \<in> set packed"

lemma packed_key_app: "CHR ''='' \<notin> set k \<Longrightarrow> packed_key (k @ ''='' @ v) = k"
  unfolding packed_key_def by (subst takeWhile_append2) auto

lemma option_is_iff: "option_is k packed \<longleftrightarrow> option_ok packed \<and> packed_key packed = k"
proof (cases "option_ok packed")
  case True
  then obtain p r where s: "packed = p @ CHR ''='' # r" "CHR ''='' \<notin> set p"
    unfolding option_ok_def by (rule strchr_split)
  then have "packed_key packed = p" using packed_key_app [of p r] by simp
  then show ?thesis using s True by (auto simp: option_is_def)
next
  case False
  then show ?thesis by (auto simp: option_is_def option_ok_def simp flip: strchr_None)
qed

lemma options_get_Some:
  "options_get l k = Some i \<Longrightarrow> i < length l \<and> option_is k (l ! i) \<and> (\<forall>j < i. \<not> option_is k (l ! j))"
  by (induction l arbitrary: i) (auto split: if_splits simp: nth_Cons' less_Suc_eq_0_disj)

lemma options_get_None: "options_get l k = None \<longleftrightarrow> (\<forall>packed \<in> set l. \<not> option_is k packed)"
  by (induction l) auto

lemma option_value_set:
  assumes "CHR ''='' \<notin> set k"
  shows "hc_url_get_option_value (hc_url_set_option u k (Some v)) k' =
    (if k' = k then Some v else hc_url_get_option_value u k')"
proof -
  let ?p = "k @ ''='' @ v"
  have p: "option_is x ?p \<longleftrightarrow> x = k" for x
    using packed_key_app [OF assms, of v] by (auto simp: option_is_iff option_ok_def)
  have val: "map_option tl (strchr ?p (CHR ''='')) = Some v" using assms strchr_app [of _ k v] by simp
  have set_other: "options_get (l[i := ?p]) k' = options_get l k'"
    if "options_get l k = Some i" "k' \<noteq> k" for l i
    using that
  proof (induction l arbitrary: i)
    case (Cons a l)
    then show ?case using p [of k'] option_is_iff [of k a] option_is_iff [of k' a]
      by (cases "option_is k a") auto
  qed simp
  have set_same: "options_get (l[i := ?p]) k = Some i" if "options_get l k = Some i" for l i
    using that p [of k] by (induction l arbitrary: i) (auto split: if_splits)
  show ?thesis
  proof (cases "options_get (options u) k")
    case None
    then show ?thesis using p val
      by (auto simp: hc_url_set_option_def hc_url_get_option_value_def split: option.split)
  next
    case (Some i)
    note i = options_get_Some [OF Some]
    have "j \<noteq> i" if "options_get (options u) k' = Some j" "k' \<noteq> k" for j
      using that i options_get_Some [OF that(1)] by (auto simp: option_is_iff)
    then show ?thesis using Some i val set_same [OF Some] set_other [OF Some]
      by (auto simp: hc_url_set_option_def hc_url_get_option_value_def split: option.split)
  qed
qed

text \<open>
  an option that was set is the one that is read. Setting an option whose name has no
  \<open>=\<close> makes a later read of this name give the value set, whatever characters it has, and
  leaves every other option of the URL as it was.
\<close>

theorem option_set_get:
  assumes "CHR ''='' \<notin> set k"
  shows "hc_url_get_option_value (hc_url_set_option u k (Some v)) k = Some v \<and>
    (\<forall>k'. k' \<noteq> k \<longrightarrow>
       hc_url_get_option_value (hc_url_set_option u k (Some v)) k' = hc_url_get_option_value u k')"
  using option_value_set [OF assms] by simp

theorem option_set_get_witness:
  "hc_url_get_option_value
     (hc_url_set_option (hc_url_set_option hc_url_empty ''version'' (Some ''1'')) ''k'' (Some ''a=b'')) ''version'' = Some ''1''"
proof -
  have "CHR ''='' \<notin> set ''k''" by simp
  from option_set_get [OF this, of "hc_url_set_option hc_url_empty ''version'' (Some ''1'')" "''a=b''"]
  have "hc_url_get_option_value
     (hc_url_set_option (hc_url_set_option hc_url_empty ''version'' (Some ''1'')) ''k'' (Some ''a=b'')) ''version'' =
     hc_url_get_option_value (hc_url_set_option hc_url_empty ''version'' (Some ''1'')) ''version''" by simp
  also have "\<dots> = Some ''1''" by code_simp
  finally show ?thesis .
qed

subsection \<open>Parsing what was printed\<close>

definition split_ns :: "string \<Rightarrow> string \<times> string option" where
  "split_ns n = (case strchr n (CHR ''.'') of None \<Rightarrow> (n, None) | Some dot \<Rightarrow> (strndup_to n dot, Some dot))"

text \<open>
  A URL that can be printed and read back: a namespace and a reference without slashes,
  options with pairwise distinct names, no \<open>?\<close> where the parser would take it for the start
  of the options, and, without a path, no slash in the options, where the parser would
  find a path.
\<close>

definition url_ok :: "hc_url \<Rightarrow> bool" where
  "url_ok u \<longleftrightarrow>
     (\<exists>n r. ns u = Some n \<and> refname u = Some r \<and> n \<noteq> [] \<and> CHR ''/'' \<notin> set n \<and> r \<noteq> [] \<and> CHR ''/'' \<notin> set r \<and>
        pns u = Some (fst (split_ns n)) \<and> vns u = snd (split_ns n) \<and>
        (options u = [] \<longrightarrow> CHR ''?'' \<notin> set (case path u of Some p \<Rightarrow> p | None \<Rightarrow> r))) \<and>
     (path u = None \<longrightarrow> (\<forall>packed \<in> set (options u). CHR ''/'' \<notin> set packed)) \<and>
     path u \<noteq> Some [] \<and> distinct (map packed_key (options u)) \<and>
     (\<forall>packed \<in> set (options u). option_ok packed \<and> CHR ''&'' \<notin> set packed \<and> CHR ''?'' \<notin> set packed)"

lemma add_options:
  assumes "\<forall>packed \<in> set l. option_ok packed" and "distinct (map packed_key l)"
    and "\<forall>packed \<in> set l. options_get (options u) (packed_key packed) = None"
  shows "options (foldl add_option u l) = rev l @ options u"
  using assms
proof (induction l arbitrary: u)
  case (Cons packed l)
  obtain k v where s: "packed = k @ CHR ''='' # v" "CHR ''='' \<notin> set k"
    using Cons.prems(1) unfolding option_ok_def by (metis list.set_intros(1) strchr_split)
  have k: "packed_key packed = k" using packed_key_app [OF s(2), of v] s(1) by simp
  have "options (add_option u packed) = packed # options u"
    using Cons.prems(3) s k by (simp add: add_option_def hc_url_set_option_def)
  moreover from this have "\<forall>q \<in> set l. options_get (options (add_option u packed)) (packed_key q) = None"
    using Cons.prems(2,3) by (auto simp: option_is_iff)
  ultimately show ?case using Cons.IH [of "add_option u packed"] Cons.prems by simp
qed simp

lemma add_option_fields:
  "ns (add_option u x) = ns u" "refname (add_option u x) = refname u" "path (add_option u x) = path u"
  "pns (add_option u x) = pns u" "vns (add_option u x) = vns u" "hexid (add_option u x) = hexid u"
  "url_id (add_option u x) = url_id u"
  by (simp_all add: add_option_def hc_url_set_option_def Let_def split: option.split)

lemma add_options_fields:
  "ns (foldl add_option u l) = ns u" "refname (foldl add_option u l) = refname u"
  "path (foldl add_option u l) = path u" "pns (foldl add_option u l) = pns u"
  "vns (foldl add_option u l) = vns u" "hexid (foldl add_option u l) = hexid u"
  "url_id (foldl add_option u l) = url_id u"
  by (induction l arbitrary: u) (simp_all add: add_option_fields)

lemma parse_options_fields [simp]:
  "ns (parse_options u x) = ns u" "refname (parse_options u x) = refname u"
  "path (parse_options u x) = path u" "pns (parse_options u x) = pns u"
  "vns (parse_options u x) = vns u" "hexid (parse_options u x) = hexid u"
  "url_id (parse_options u x) = url_id u"
  by (simp_all add: parse_options_def options_reset_def add_options_fields Let_def split: option.split)

lemma parse_options_joined:
  assumes "\<forall>packed \<in> set l. option_ok packed \<and> CHR ''&'' \<notin> set packed" and "distinct (map packed_key l)" and "l \<noteq> []"
  shows "options (parse_options u (Some (joined (CHR ''&'') l))) = rev l"
proof -
  have "\<forall>t \<in> set l. t \<noteq> []" using assms(1) by (auto simp: option_ok_def)
  then have "joined (CHR ''&'') l \<noteq> []" using joined_eq_Nil assms(3) by blast
  moreover have "split_on (CHR ''&'') [] (joined (CHR ''&'') l) = l"
    using assms by (intro split_joined) auto
  ultimately show ?thesis
    using add_options [of l "options_reset u"] assms(1,2)
    by (simp add: parse_options_def g_strsplit_def options_reset_def)
qed

lemma parse_ns_plain:
  assumes "ns u = Some n" and "CHR ''/'' \<notin> set n" and "pns u = None" and "vns u = None"
  shows "parse_ns u = u\<lparr>pns := Some (fst (split_ns n)), vns := snd (split_ns n)\<rparr>"
proof (cases "CHR ''.'' \<in> set n")
  case True
  then obtain p v where n: "n = p @ CHR ''.'' # v" "CHR ''.'' \<notin> set p" by (rule strchr_split)
  then show ?thesis using assms by (simp add: parse_ns_def split_ns_def Let_def)
next
  case False
  then have d: "strchr n (CHR ''.'') = None" by simp
  show ?thesis using assms by (simp add: parse_ns_def split_ns_def Let_def d)
qed

text \<open>The string that \<open>url_ok\<close> URLs print to, cut as the parser cuts it.\<close>

lemma url_cursors:
  assumes n: "n \<noteq> []" "CHR ''/'' \<notin> set n" and r: "r \<noteq> []" "CHR ''/'' \<notin> set r" and p: "p \<noteq> Some []"
    and t: "CHR ''/'' \<notin> set t \<or> p \<noteq> None"
  defines "s \<equiv> n @ CHR ''/'' # r @ (case p of Some p \<Rightarrow> CHR ''/'' # p | None \<Rightarrow> []) @ t"
  shows "metautils_lstrip (url_strip_prefix s) (CHR ''/'') = s"
    and "url_refname s = Some (r @ (case p of Some p \<Rightarrow> CHR ''/'' # p | None \<Rightarrow> []) @ t)"
    and "url_path (url_refname s) = (case p of Some p \<Rightarrow> Some (p @ t) | None \<Rightarrow> None)"
proof -
  let ?rest = "r @ (case p of Some p \<Rightarrow> CHR ''/'' # p | None \<Rightarrow> []) @ t"
  have "url_strip_prefix s = s"
  proof -
    have no: "\<not> has_prefix s (x @ ''://'')" if "CHR ''/'' \<notin> set x" for x
    proof
      assume "has_prefix s (x @ ''://'')"
      then obtain y where y: "s = x @ CHR '':'' # CHR ''/'' # CHR ''/'' # y"
        unfolding has_prefix_def by (metis append.assoc append_Cons append_Nil append_take_drop_id)
      have "takeWhile (\<lambda>c. c \<noteq> CHR ''/'') s = n" "dropWhile (\<lambda>c. c \<noteq> CHR ''/'') s = CHR ''/'' # ?rest"
        using n(2) by (auto simp: s_def takeWhile_append dropWhile_append)
      moreover have "dropWhile (\<lambda>c. c \<noteq> CHR ''/'') s = CHR ''/'' # CHR ''/'' # y"
        using that by (auto simp: y dropWhile_append)
      ultimately have "?rest = CHR ''/'' # y" by simp
      then have "hd ?rest = CHR ''/''" by (metis list.sel(1))
      then show False using r by (cases r) auto
    qed
    have "\<not> has_prefix s ''grid://''" "\<not> has_prefix s ''hc://''" "\<not> has_prefix s ''redc://''"
      using no [of "''grid''"] no [of "''hc''"] no [of "''redc''"] by simp_all
    then show ?thesis by (simp add: url_strip_prefix_def)
  qed
  moreover have "hd s \<noteq> CHR ''/''" "s \<noteq> []" using n by (cases n; auto simp: s_def)+
  ultimately show "metautils_lstrip (url_strip_prefix s) (CHR ''/'') = s" by simp
  have "?rest \<noteq> []" "hd ?rest \<noteq> CHR ''/''" using r by (cases r; auto)+
  then show rn: "url_refname s = Some ?rest"
    using n(2) by (simp add: url_refname_def s_def)
  show "url_path (url_refname s) = (case p of Some p \<Rightarrow> Some (p @ t) | None \<Rightarrow> None)"
  proof (cases p)
    case None
    then have "strchr (r @ t) (CHR ''/'') = None" using r t by simp
    then show ?thesis using None rn by (simp add: url_path_def)
  next
    case (Some q)
    then show ?thesis using rn r p by (simp add: url_path_def next_or_null_def)
  qed
qed

lemma parse_url_printed:
  assumes n: "n \<noteq> []" "CHR ''/'' \<notin> set n" and r: "r \<noteq> []" "CHR ''/'' \<notin> set r" and p: "p \<noteq> Some []"
    and q: "l = [] \<Longrightarrow> CHR ''?'' \<notin> set (case p of Some p \<Rightarrow> p | None \<Rightarrow> r)"
    and l: "\<forall>packed \<in> set l. option_ok packed \<and> CHR ''?'' \<notin> set packed"
    and nl: "p = None \<Longrightarrow> \<forall>packed \<in> set l. CHR ''/'' \<notin> set packed"
  shows "parse_url hc_url_empty (n @ CHR ''/'' # r @ (case p of Some p \<Rightarrow> CHR ''/'' # p | None \<Rightarrow> []) @
      (if l = [] then [] else CHR ''?'' # joined (CHR ''&'') l)) =
    (True, (if l = [] then hc_url_empty else parse_options hc_url_empty (Some (joined (CHR ''&'') l)))
       \<lparr>ns := Some n, refname := Some r, path := p, pns := Some (fst (split_ns n)), vns := snd (split_ns n)\<rparr>)"
    (is "parse_url hc_url_empty ?s = _")
proof -
  let ?j = "joined (CHR ''&'') l" and ?t = "if l = [] then [] else CHR ''?'' # joined (CHR ''&'') l"
  have jq: "CHR ''?'' \<notin> set ?j" using l by (intro joined_notin) auto
  have "\<forall>t \<in> set l. t \<noteq> []" using l by (auto simp: option_ok_def)
  then have jne: "?j \<noteq> []" if "l \<noteq> []" using that joined_eq_Nil by blast
  have js: "CHR ''/'' \<notin> set ?t \<or> p \<noteq> None" using nl joined_notin [of l "CHR ''/''" "CHR ''&''"] by (cases p) auto
  note cur = url_cursors [OF n r p js]
  note cur3 = cur(3) [unfolded cur(2)]
  have opts: "url_options (url_refname ?s) (url_path (url_refname ?s)) = (if l = [] then None else Some ?j)"
  proof (cases p)
    case None
    then show ?thesis unfolding cur(2) cur3 using q jq by (simp add: url_options_def after_last_def [of _ r])
  next
    case (Some x)
    then show ?thesis unfolding cur(2) cur3 using q jq by (simp add: url_options_def after_last_def [of _ x])
  qed
  have [simp]: "options_reset hc_url_empty = hc_url_empty" by (simp add: options_reset_def hc_url_empty_def)
  have e: "pns hc_url_empty = None" "vns hc_url_empty = None" "path hc_url_empty = None" by (simp_all add: hc_url_empty_def)
  have ne: "?s \<noteq> []" by simp
  show ?thesis
  proof (cases p)
    case None
    show ?thesis
      unfolding parse_url_def Let_def cur(1) opts unfolding cur(2) cur3 using None ne r jne n e
      by (auto simp: parse_ns_plain split: list.split)
  next
    case (Some x)
    show ?thesis
      unfolding parse_url_def Let_def cur(1) opts unfolding cur(2) cur3 using Some ne r jne n e
      by (auto simp: parse_ns_plain split: list.split)
  qed
qed

lemma add_option_whole: "whole u = None \<Longrightarrow> whole (add_option u x) = None"
  by (simp add: add_option_def hc_url_set_option_def Let_def split: option.split)

lemma add_options_whole: "whole u = None \<Longrightarrow> whole (foldl add_option u l) = None"
  by (induction l arbitrary: u) (simp_all add: add_option_whole)

lemma parse_options_whole: "whole u = None \<Longrightarrow> whole (parse_options u x) = None"
  by (simp add: parse_options_def options_reset_def add_options_whole Let_def split: option.split)

text \<open>
  C30: a URL printed and parsed again. For a URL with a namespace and a reference that the
  syntax can carry, parsing what \<open>hc_url_get (u, HCURL_WHOLE)\<close> prints gives the same
  namespaces, reference and path, and the same options in the reverse order: printing and
  parsing twice is needed to get the order back.
\<close>

theorem url_round_trip:
  assumes "url_ok u" and "whole u = None"
  shows "hc_url_init (fst (hc_url_get sha256 u HCURL_WHOLE)) =
    Some (u\<lparr>options := rev (options u), url_id := replicate 32 NUL, hexid := []\<rparr>)"
proof -
  obtain n r where u: "ns u = Some n" "refname u = Some r" "n \<noteq> []" "CHR ''/'' \<notin> set n" "r \<noteq> []"
    "CHR ''/'' \<notin> set r" "pns u = Some (fst (split_ns n))" "vns u = snd (split_ns n)"
    "options u = [] \<longrightarrow> CHR ''?'' \<notin> set (case path u of Some p \<Rightarrow> p | None \<Rightarrow> r)"
    using assms(1) unfolding url_ok_def by blast
  have l: "path u = None \<longrightarrow> (\<forall>packed \<in> set (options u). CHR ''/'' \<notin> set packed)" "path u \<noteq> Some []"
    "distinct (map packed_key (options u))"
    "\<forall>packed \<in> set (options u). option_ok packed \<and> CHR ''&'' \<notin> set packed \<and> CHR ''?'' \<notin> set packed"
    using assms(1) unfolding url_ok_def by blast+
  let ?l = "options u"
  have "fst (hc_url_get sha256 u HCURL_WHOLE) = Some (n @ CHR ''/'' # r @
      (case path u of Some p \<Rightarrow> CHR ''/'' # p | None \<Rightarrow> []) @ (if ?l = [] then [] else CHR ''?'' # joined (CHR ''&'') ?l))"
    using u(1,2) assms(2) by (simp add: url_get_whole_def append_url_def append_options_eq Let_def split: option.split)
  moreover have "parse_url hc_url_empty (n @ CHR ''/'' # r @
      (case path u of Some p \<Rightarrow> CHR ''/'' # p | None \<Rightarrow> []) @ (if ?l = [] then [] else CHR ''?'' # joined (CHR ''&'') ?l)) =
      (True, u\<lparr>options := rev ?l, url_id := replicate 32 NUL, hexid := []\<rparr>)"
  proof -
    have "options (if ?l = [] then hc_url_empty else parse_options hc_url_empty (Some (joined (CHR ''&'') ?l))) = rev ?l"
      using parse_options_joined [of ?l hc_url_empty] l(3,4) by (auto simp: hc_url_empty_def)
    moreover have "whole (if ?l = [] then hc_url_empty else parse_options hc_url_empty (Some (joined (CHR ''&'') ?l))) = None"
      by (auto intro!: parse_options_whole simp: hc_url_empty_def)
    ultimately show ?thesis
      using parse_url_printed [OF u(3-6) l(2), of ?l] u l assms(2) by (auto simp: hc_url_empty_def)
  qed
  ultimately show ?thesis by (simp add: hc_url_init_def)
qed

definition sample_url :: hc_url where
  "sample_url = hc_url_empty
     \<lparr>ns := Some ''NS.v'', refname := Some ''REF'', path := Some ''a/b?c'', pns := Some ''NS'', vns := Some ''.v'',
      options := [''k=1'', ''version=x=y'']\<rparr>"

theorem url_round_trip_witness:
  "fst (hc_url_get id sample_url HCURL_WHOLE) = Some ''NS.v/REF/a/b?c?k=1&version=x=y'' \<and>
   hc_url_init (fst (hc_url_get id sample_url HCURL_WHOLE)) = Some (sample_url\<lparr>options := [''version=x=y'', ''k=1'']\<rparr>)"
proof -
  have n: "split_ns ''NS.v'' = (''NS'', Some ''.v'')" by code_simp
  have "url_ok sample_url" unfolding url_ok_def
    by (simp add: sample_url_def n hc_url_empty_def packed_key_def option_ok_def)
  moreover have "whole sample_url = None" by (simp add: sample_url_def hc_url_empty_def)
  ultimately have "hc_url_init (fst (hc_url_get id sample_url HCURL_WHOLE)) =
    Some (sample_url\<lparr>options := rev (options sample_url), url_id := replicate 32 NUL, hexid := []\<rparr>)"
    by (rule url_round_trip)
  moreover have "fst (hc_url_get id sample_url HCURL_WHOLE) = Some ''NS.v/REF/a/b?c?k=1&version=x=y''" by code_simp
  ultimately show ?thesis by (simp add: sample_url_def hc_url_empty_def)
qed

subsection \<open>Runs of accesses\<close>

datatype url_op =
    Url_set hc_url_field "string option" | Url_set_option string "string option"
  | Url_get hc_url_field | Url_get_id

fun url_exec :: "(string \<Rightarrow> string) \<Rightarrow> url_op \<Rightarrow> hc_url option \<Rightarrow> hc_url option" where
  "url_exec sha256 op None = None"
| "url_exec sha256 (Url_set f v) (Some u) = map_option snd (hc_url_set u f v)"
| "url_exec sha256 (Url_set_option k v) (Some u) = Some (hc_url_set_option u k v)"
| "url_exec sha256 (Url_get f) (Some u) = Some (snd (hc_url_get sha256 u f))"
| "url_exec sha256 Url_get_id (Some u) = Some (snd (hc_url_get_id sha256 u))"

text \<open>What \<open>HCURL_WHOLE\<close> is made of, and the invariant of the cached string.\<close>

definition printed :: "(string \<Rightarrow> string) \<Rightarrow> hc_url \<Rightarrow> string" where
  "printed sha256 u = append_options True (fst (append_url sha256 [] u)) (options u)"

definition printable :: "hc_url \<Rightarrow> bool" where
  "printable u \<longleftrightarrow> hc_url_has u HCURL_NS \<and> (hc_url_has u HCURL_REFERENCE \<or> hc_url_has u HCURL_HEXID)"

definition whole_ok :: "(string \<Rightarrow> string) \<Rightarrow> hc_url option \<Rightarrow> bool" where
  "whole_ok sha256 x \<longleftrightarrow> (\<forall>u. x = Some u \<longrightarrow> whole u \<noteq> None \<longrightarrow> printable u \<and> whole u = Some (printed sha256 u))"

lemma parse_ns_keeps [simp]:
  "whole (parse_ns u) = whole u" "hexid (parse_ns u) = hexid u" "url_id (parse_ns u) = url_id u"
  "options (parse_ns u) = options u" "refname (parse_ns u) = refname u" "path (parse_ns u) = path u"
  by (simp_all add: parse_ns_def Let_def split: option.split)

lemma parse_url_whole: "whole u = None \<Longrightarrow> whole (snd (parse_url u s)) = None"
  by (simp add: parse_url_def Let_def parse_options_whole options_reset_def split: option.split)

lemma parse_url_hexid: "hexid (snd (parse_url u s)) = hexid u"
  by (simp add: parse_url_def Let_def options_reset_def split: option.split)

lemma parse_url_hexid': "parse_url u s = (b, u') \<Longrightarrow> hexid u' = hexid u"
  using parse_url_hexid [of u s] by simp

lemma set_option_keeps:
  "whole (hc_url_set_option u k v) = None" "hexid (hc_url_set_option u k v) = hexid u"
  "url_id (hc_url_set_option u k v) = url_id u" "ns (hc_url_set_option u k v) = ns u"
  "refname (hc_url_set_option u k v) = refname u"
  by (simp_all add: hc_url_set_option_def Let_def split: option.split)

lemma set_whole_None: "f \<noteq> HCURL_OPTIONS \<Longrightarrow> hc_url_set u f v = Some r \<Longrightarrow> whole (snd r) = None"
  by (cases f) (auto simp: set_option_keeps url_set_hexid_def Let_def intro: parse_url_whole split: option.splits)

text \<open>What the accessors that fill the cache of the identifier change.\<close>

lemma get_id_state:
  "snd (hc_url_get_id sha256 u) =
     (if hexid u = [] then snd (compute_id sha256 u) else u)"
  by (auto simp: hc_url_get_id_def split: prod.split bool.split)

lemma get_hexid_state:
  "snd (url_get_hexid sha256 u) =
     (if hexid u = [] \<and> refname u \<noteq> None then
        (snd (compute_id sha256 u))\<lparr>hexid := take 64 (buffer2str (url_id (snd (compute_id sha256 u))) 65)\<rparr>
      else u)"
  by (auto simp: url_get_hexid_def compute_id_def Let_def split: option.split)

lemma printed_cong:
  "refname u' = refname u \<Longrightarrow> refname u \<noteq> None \<Longrightarrow> ns u' = ns u \<Longrightarrow> path u' = path u \<Longrightarrow> options u' = options u \<Longrightarrow>
     printed sha256 u' = printed sha256 u \<and> printable u' = printable u"
  by (auto simp: printed_def printable_def append_url_def Let_def)

lemma compute_id_keeps:
  "whole (snd (compute_id sha256 u)) = whole u" "refname (snd (compute_id sha256 u)) = refname u"
  "ns (snd (compute_id sha256 u)) = ns u" "path (snd (compute_id sha256 u)) = path u"
  "options (snd (compute_id sha256 u)) = options u"
  "refname u = None \<Longrightarrow> snd (compute_id sha256 u) = u"
  by (simp_all add: compute_id_def Let_def split: option.split)

lemma get_whole_state:
  "snd (url_get_whole sha256 u) =
     (if whole u = None \<and> printable u then u\<lparr>whole := Some (printed sha256 u)\<rparr> else u)"
  "fst (url_get_whole sha256 u) =
     (if whole u = None then if printable u then Some (printed sha256 u) else None else whole u)"
proof -
  have "snd (append_url sha256 [] u) = u"
    by (auto simp: append_url_def url_get_hexid_def Let_def split: prod.split)
  then show "snd (url_get_whole sha256 u) =
     (if whole u = None \<and> printable u then u\<lparr>whole := Some (printed sha256 u)\<rparr> else u)"
    "fst (url_get_whole sha256 u) =
     (if whole u = None then if printable u then Some (printed sha256 u) else None else whole u)"
    by (auto simp: url_get_whole_def printable_def printed_def Let_def split: prod.split)
qed

lemma printed_whole [simp]: "printed sha256 (u\<lparr>whole := w\<rparr>) = printed sha256 u" "printable (u\<lparr>whole := w\<rparr>) = printable u"
  by (auto simp: printed_def printable_def append_url_def url_get_hexid_def compute_id_def Let_def split: option.split prod.split)

lemma get_keeps_whole_ok:
  assumes "whole_ok sha256 (Some u)"
  shows "whole_ok sha256 (Some (snd (hc_url_get_id sha256 u)))" "whole_ok sha256 (Some (snd (hc_url_get sha256 u f)))"
proof -
  have c: "whole_ok sha256 (Some u')" if "refname u \<noteq> None" "refname u' = refname u" "ns u' = ns u" "path u' = path u"
    "options u' = options u" "whole u' = whole u" for u'
    using assms that printed_cong [of u' u sha256] by (simp add: whole_ok_def)
  have i: "whole_ok sha256 (Some (snd (compute_id sha256 u)))"
    using assms c by (cases "refname u") (simp_all add: compute_id_keeps)
  show "whole_ok sha256 (Some (snd (hc_url_get_id sha256 u)))"
    using assms i by (simp add: get_id_state)
  have "whole_ok sha256 (Some (snd (url_get_hexid sha256 u)))"
    using assms c by (simp add: get_hexid_state compute_id_keeps)
  moreover have "whole_ok sha256 (Some (snd (url_get_whole sha256 u)))"
    using assms by (simp add: get_whole_state whole_ok_def)
  ultimately show "whole_ok sha256 (Some (snd (hc_url_get sha256 u f)))"
    using assms by (cases f) simp_all
qed

definition sets_options :: "url_op \<Rightarrow> bool" where
  "sets_options op \<longleftrightarrow> (case op of Url_set f v \<Rightarrow> f = HCURL_OPTIONS | _ \<Rightarrow> False)"

interpretation url_whole: event_machine "url_exec sha256" "\<lambda>op. \<not> sets_options op" "whole_ok sha256" for sha256
proof
  fix e and x :: "hc_url option" assume e: "\<not> sets_options e" and x: "whole_ok sha256 x"
  show "whole_ok sha256 (url_exec sha256 e x)"
  proof (cases x)
    case (Some u)
    then show ?thesis
    proof (cases e)
      case (Url_set f v)
      then show ?thesis using e Some set_whole_None [of f u v]
        by (auto simp: sets_options_def whole_ok_def)
    qed (use Some x get_keeps_whole_ok in \<open>simp_all add: whole_ok_def [of _ "Some (hc_url_set_option _ _ _)"] set_option_keeps\<close>)
  qed (simp add: whole_ok_def)
qed

text \<open>
  C31: the printed URL is never stale. Over every sequence of accesses to a URL that does not
  set \<open>HCURL_OPTIONS\<close> as a whole, \<open>hc_url_get (u, HCURL_WHOLE)\<close> gives what the current
  fields print to, or NULL when they do not make a URL.
\<close>

theorem whole_always_current:
  assumes "\<forall>op \<in> set ops. \<not> sets_options op"
    and "run_events (url_exec sha256) ops (Some hc_url_empty) = Some u"
  shows "fst (hc_url_get sha256 u HCURL_WHOLE) = (if printable u then Some (printed sha256 u) else None)"
proof -
  have "whole_ok sha256 (Some hc_url_empty)" by (simp add: whole_ok_def hc_url_empty_def)
  then have "whole_ok sha256 (Some u)" using url_whole.run_inv [OF assms(1), of sha256] assms(2) by metis
  then show ?thesis by (auto simp: whole_ok_def get_whole_state)
qed

definition sample_accesses :: "url_op list" where
  "sample_accesses =
     [Url_set HCURL_WHOLE (Some ''NS/REF/P?a=1''), Url_get HCURL_WHOLE, Url_set HCURL_PATH (Some ''Q''),
      Url_set_option ''a'' (Some ''2''), Url_get_id]"

theorem whole_always_current_witness:
  "\<exists>u. run_events (url_exec id) sample_accesses (Some hc_url_empty) = Some u \<and>
     fst (hc_url_get id u HCURL_WHOLE) = Some ''NS/REF/Q?a=2''"
proof -
  have "map_option (\<lambda>u. (printable u, printed id u)) (run_events (url_exec id) sample_accesses (Some hc_url_empty)) =
    Some (True, ''NS/REF/Q?a=2'')" by code_simp
  then obtain u where u: "run_events (url_exec id) sample_accesses (Some hc_url_empty) = Some u"
    "printable u" "printed id u = ''NS/REF/Q?a=2''" by auto
  moreover have "\<forall>op \<in> set sample_accesses. \<not> sets_options op" by (simp add: sample_accesses_def sets_options_def)
  ultimately show ?thesis using whole_always_current [of sample_accesses id u] by auto
qed

text \<open>
  The options set as a whole are the exception: emptying them leaves the old string, with
  the old options.
\<close>

lemma emptied_options_still_printed:
  "\<exists>u. run_events (url_exec id) [Url_set HCURL_WHOLE (Some ''NS/REF?a=1''), Url_get HCURL_WHOLE,
       Url_set HCURL_OPTIONS (Some [])] (Some hc_url_empty) = Some u \<and>
     options u = [] \<and> fst (hc_url_get id u HCURL_WHOLE) = Some ''NS/REF?a=1''"
proof -
  have "map_option (\<lambda>u. (options u, fst (hc_url_get id u HCURL_WHOLE)))
     (run_events (url_exec id) [Url_set HCURL_WHOLE (Some ''NS/REF?a=1''), Url_get HCURL_WHOLE,
        Url_set HCURL_OPTIONS (Some [])] (Some hc_url_empty)) = Some ([], Some ''NS/REF?a=1'')" by code_simp
  then show ?thesis by auto
qed

text \<open>The cached identifier is the one of the current namespace and reference.\<close>

definition ident_ok :: "(string \<Rightarrow> string) \<Rightarrow> hc_url option \<Rightarrow> bool" where
  "ident_ok sha256 x \<longleftrightarrow>
     (\<forall>u. x = Some u \<longrightarrow> hexid u \<noteq> [] \<longrightarrow>
        (\<exists>r. refname u = Some r \<and> url_id u = meta1_name2hash sha256 (ns u) (Some r)))"

definition sets_id_or_phys :: "url_op \<Rightarrow> bool" where
  "sets_id_or_phys op \<longleftrightarrow> (case op of Url_set f v \<Rightarrow> f = HCURL_HEXID \<or> f = HCURL_NSPHYS | _ \<Rightarrow> False)"

lemma set_keeps_ident:
  assumes "ident_ok sha256 (Some u)" and "f \<noteq> HCURL_HEXID" and "f \<noteq> HCURL_NSPHYS"
  shows "ident_ok sha256 (map_option snd (hc_url_set u f v))"
  using assms
  by (cases f) (auto simp: ident_ok_def set_option_keeps Let_def dest: parse_url_hexid' split: option.splits)

lemma get_keeps_ident:
  assumes "ident_ok sha256 (Some u)"
  shows "ident_ok sha256 (Some (snd (hc_url_get sha256 u f)))" "ident_ok sha256 (Some (snd (hc_url_get_id sha256 u)))"
proof -
  have c: "ident_ok sha256 (Some (snd (compute_id sha256 u)))"
    using assms by (auto simp: ident_ok_def compute_id_def Let_def split: option.split)
  then show "ident_ok sha256 (Some (snd (hc_url_get_id sha256 u)))" using assms by (simp add: get_id_state)
  have "ident_ok sha256 (Some (snd (url_get_hexid sha256 u)))"
    using assms by (auto simp: get_hexid_state ident_ok_def compute_id_def Let_def)
  moreover have "ident_ok sha256 (Some (snd (url_get_whole sha256 u)))"
    using assms by (simp add: get_whole_state ident_ok_def)
  ultimately show "ident_ok sha256 (Some (snd (hc_url_get sha256 u f)))" using assms by (cases f) simp_all
qed

interpretation url_ident: event_machine "url_exec sha256" "\<lambda>op. \<not> sets_id_or_phys op" "ident_ok sha256" for sha256
proof
  fix e and x :: "hc_url option" assume e: "\<not> sets_id_or_phys e" and x: "ident_ok sha256 x"
  show "ident_ok sha256 (url_exec sha256 e x)"
  proof (cases x)
    case (Some u)
    then show ?thesis
    proof (cases e)
      case (Url_set f v)
      then show ?thesis using e x Some set_keeps_ident by (simp add: sets_id_or_phys_def)
    next
      case (Url_set_option k v)
      then show ?thesis using x Some by (simp add: ident_ok_def set_option_keeps)
    qed (use Some x get_keeps_ident in simp_all)
  qed (simp add: ident_ok_def)
qed

text \<open>
  C32: the identifier of a container follows its URL. Over every sequence of accesses that
  neither imposes the identifier nor sets the physical namespace alone, the identifier
  \<open>hc_url_get_id\<close> returns is the digest for the current namespace and reference, cached
  or not.
\<close>

theorem id_always_current:
  assumes "\<forall>op \<in> set ops. \<not> sets_id_or_phys op"
    and "run_events (url_exec sha256) ops (Some hc_url_empty) = Some u" and "refname u = Some r"
  shows "fst (hc_url_get_id sha256 u) = Some (meta1_name2hash sha256 (ns u) (Some r))"
proof -
  have "ident_ok sha256 (Some hc_url_empty)" by (simp add: ident_ok_def hc_url_empty_def)
  then have "ident_ok sha256 (Some u)" using url_ident.run_inv [OF assms(1), of sha256] assms(2) by metis
  then show ?thesis using assms(3) by (auto simp: ident_ok_def hc_url_get_id_def compute_id_def Let_def)
qed

theorem id_always_current_witness:
  "\<exists>u. run_events (url_exec id) [Url_set HCURL_WHOLE (Some ''NS.v/REF''), Url_get_id, Url_set HCURL_NS (Some ''M.w'')]
       (Some hc_url_empty) = Some u \<and> fst (hc_url_get_id id u) = Some ''M.w/REF''"
proof -
  let ?ops = "[Url_set HCURL_WHOLE (Some ''NS.v/REF''), Url_get_id, Url_set HCURL_NS (Some ''M.w'')]"
  have "map_option (\<lambda>u. (refname u, meta1_name2hash id (ns u) (Some ''REF''))) (run_events (url_exec id) ?ops (Some hc_url_empty)) =
    Some (Some ''REF'', ''M.w/REF'')" by code_simp
  then obtain u where u: "run_events (url_exec id) ?ops (Some hc_url_empty) = Some u" "refname u = Some ''REF''"
    "meta1_name2hash id (ns u) (Some ''REF'') = ''M.w/REF''" by auto
  moreover have "\<forall>op \<in> set ?ops. \<not> sets_id_or_phys op" by (simp add: sets_id_or_phys_def)
  ultimately show ?thesis using id_always_current [of ?ops id u "''REF''"] by auto
qed

text \<open>
  C33: setting the physical namespace of a URL that has a virtual one breaks it. The parser
  keeps the dot in the virtual namespace and the setter adds another: even with the
  physical namespace it already has, the namespace \<open>p.v\<close> becomes \<open>p..v\<close>. And an identifier that
  was computed before is not computed again.
\<close>

theorem nsphys_breaks_namespace:
  assumes "p \<noteq> []" and "CHR ''.'' \<notin> set p" and "CHR ''/'' \<notin> set p" and "CHR ''/'' \<notin> set v"
    and "r \<noteq> []" and "CHR ''/'' \<notin> set r" and "CHR ''?'' \<notin> set r" and "sha256 (p @ ''.'' @ v @ ''/'' @ r) \<noteq> []"
  shows "\<exists>u u' u''. hc_url_init (Some (p @ ''.'' @ v @ ''/'' @ r)) = Some u \<and> ns u = Some (p @ ''.'' @ v) \<and>
    hc_url_get_id sha256 u = (Some (sha256 (p @ ''.'' @ v @ ''/'' @ r)), u') \<and>
    hc_url_set u' HCURL_NSPHYS (Some q) = Some (True, u'') \<and> ns u'' = Some (q @ ''..'' @ v) \<and>
    fst (hc_url_get_id sha256 u'') = Some (sha256 (p @ ''.'' @ v @ ''/'' @ r))"
proof -
  let ?n = "p @ ''.'' @ v"
  let ?u = "hc_url_empty\<lparr>ns := Some ?n, refname := Some r, path := None, pns := Some p, vns := Some (CHR ''.'' # v)\<rparr>"
  have n: "split_ns ?n = (p, Some (CHR ''.'' # v))" using assms(2) by (simp add: split_ns_def)
  have i: "hc_url_init (Some (p @ ''.'' @ v @ ''/'' @ r)) = Some ?u"
    using parse_url_printed [of ?n r None "[]"] assms n by (simp add: hc_url_init_def)
  have "buffer2str (sha256 (p @ ''.'' @ v @ ''/'' @ r)) 65 \<noteq> []"
    by (rule buffer2str_nonempty [OF assms(8)]) simp
  then show ?thesis using i
    by (simp add: hc_url_get_id_def compute_id_def meta1_name2hash_def join_ns_def Let_def hc_url_empty_def)
qed

theorem nsphys_breaks_namespace_witness:
  "\<exists>u u' u''. hc_url_init (Some ''NS.v/REF'') = Some u \<and> ns u = Some ''NS.v'' \<and>
    hc_url_get_id id u = (Some ''NS.v/REF'', u') \<and>
    hc_url_set u' HCURL_NSPHYS (Some ''NS'') = Some (True, u'') \<and> ns u'' = Some ''NS..v'' \<and>
    fst (hc_url_get_id id u'') = Some ''NS.v/REF''"
  using nsphys_breaks_namespace [of "''NS''" "''v''" "''REF''" id "''NS''"] by simp

end
