(* ===== verification/Resolver.thy ===== *)
theory Resolver
  imports Lru Url
begin

section \<open>The resolver of services\<close>

text \<open>
  Models \<open>resolver/hc_resolver.c\<close>: the two caches of a client (\<open>csm0\<close> for what the conscience
  and the meta0 answer, \<open>services\<close> for what the meta1 answer), on top of the tree of the
  theory \<open>Lru\<close>, and the resolution of the services of a URL through them. The conscience,
  the meta0 and the meta1 are remote: what they answer to the \<open>n\<close>-th call, and the \<open>n\<close>-th
  random number, is the environment \<open>renv\<close>. Every request is recorded. The mutex of the
  resolver does not appear. A URL is read through the accessors of the theory \<open>Url\<close>; what
  they cache in it is left out.
\<close>

subsection \<open>Types\<close>

record cached_element =
  elt_use :: int
  elt_count :: u32
  elt_s :: string

record lru_ext =
  le_cache :: "(hashstr, cached_element) lru_tree"
  le_ttl :: int
  le_max :: nat

record hc_resolver =
  services :: lru_ext
  csm0 :: lru_ext
  bogonow :: int
  r_flags :: u32

definition HC_RESOLVER_NOCACHE :: u32 where
  "HC_RESOLVER_NOCACHE = 0x01"

definition HC_RESOLVER_NOATIME :: u32 where
  "HC_RESOLVER_NOATIME = 0x02"

datatype rcall =
    Call_conscience string
  | Call_meta0 string string
  | Call_meta1 string string string string

text \<open>
  A listing of services is their types and addresses; a NULL list is empty, and may come
  with an error. A request to a meta1 gives either an error or an array.
\<close>

record renv =
  re_sha256 :: "string \<Rightarrow> string"
  re_rand :: "nat \<Rightarrow> nat"
  re_conscience :: "nat \<Rightarrow> string \<Rightarrow> (string \<times> string) list \<times> gerror option"
  re_meta0 :: "nat \<Rightarrow> string \<Rightarrow> string \<Rightarrow> string list \<times> gerror option"
  re_meta1 :: "nat \<Rightarrow> string \<Rightarrow> string \<Rightarrow> string \<Rightarrow> string \<Rightarrow> gerror + string list"

record rstate =
  rs_res :: hc_resolver
  rs_tick :: nat
  rs_calls :: "rcall list"

subsection \<open>Packing of arrays\<close>

definition strv_total_length :: "string list \<Rightarrow> nat" where
  "strv_total_length v = sum_list (map (\<lambda>s. 1 + length s) v)"

definition strv_concat :: "string list \<Rightarrow> string" where
  "strv_concat src = concat (map (\<lambda>s. s @ [NUL]) src)"

fun strv_pointers :: "string \<Rightarrow> nat \<Rightarrow> string list" where
  "strv_pointers src 0 = []"
| "strv_pointers src (Suc cnt) = cstr src # strv_pointers (drop (length (cstr src) + 1) src) cnt"

definition hc_resolver_element_extract :: "cached_element \<Rightarrow> string list" where
  "hc_resolver_element_extract elt = strv_pointers (elt_s elt) (unat (elt_count elt))"

definition hc_resolver_element_create :: "string list \<Rightarrow> cached_element" where
  "hc_resolver_element_create value =
     \<lparr>elt_use = 0, elt_count = of_nat (length value), elt_s = strv_concat value\<rparr>"

subsection \<open>The caches\<close>

text \<open>Which of the two trees a function works on.\<close>

datatype cache_sel = CSM0 | SERVICES

fun ext_of :: "hc_resolver \<Rightarrow> cache_sel \<Rightarrow> lru_ext" where
  "ext_of r CSM0 = csm0 r"
| "ext_of r SERVICES = services r"

fun set_ext :: "cache_sel \<Rightarrow> lru_ext \<Rightarrow> hc_resolver \<Rightarrow> hc_resolver" where
  "set_ext CSM0 l r = r\<lparr>csm0 := l\<rparr>"
| "set_ext SERVICES l r = r\<lparr>services := l\<rparr>"

abbreviation lru_of :: "hc_resolver \<Rightarrow> cache_sel \<Rightarrow> (hashstr, cached_element) lru_tree" where
  "lru_of r sel \<equiv> le_cache (ext_of r sel)"

definition set_lru :: "cache_sel \<Rightarrow> (hashstr, cached_element) lru_tree \<Rightarrow> hc_resolver \<Rightarrow> hc_resolver" where
  "set_lru sel lt r = set_ext sel ((ext_of r sel)\<lparr>le_cache := lt\<rparr>) r"

definition hc_resolver_create1 :: "int \<Rightarrow> hc_resolver" where
  "hc_resolver_create1 now =
     \<lparr>services = \<lparr>le_cache = lru_tree_create True True 0, le_ttl = 3600, le_max = 200000\<rparr>,
      csm0 = \<lparr>le_cache = lru_tree_create True True 0, le_ttl = 0, le_max = 0\<rparr>,
      bogonow = now, r_flags = 0\<rparr>"

definition hc_resolver_destroy :: "hc_resolver \<Rightarrow> ((hashstr, cached_element) lru_tree \<times> (hashstr, cached_element) lru_tree) option" where
  "hc_resolver_destroy r =
     Option.bind (lru_tree_destroy (le_cache (csm0 r)))
       (\<lambda>c. map_option (Pair c) (lru_tree_destroy (le_cache (services r))))"

definition hc_resolver_get_cached ::
  "hc_resolver \<Rightarrow> cache_sel \<Rightarrow> hashstr \<Rightarrow> string list option \<times> hc_resolver" where
  "hc_resolver_get_cached r sel k =
     (case lru_tree_get hashstr_quick_cmp (lru_of r sel) k of
        (None, lt) \<Rightarrow> (None, set_lru sel lt r)
      | (Some elt, lt) \<Rightarrow>
          let lt = (if r_flags r AND HC_RESOLVER_NOATIME = 0
                    then lru_poke hashstr_quick_cmp lt k (\<lambda>e. e\<lparr>elt_use := bogonow r\<rparr>) else lt)
          in (Some (hc_resolver_element_extract elt), set_lru sel lt r))"

definition hc_resolver_store :: "hc_resolver \<Rightarrow> cache_sel \<Rightarrow> hashstr \<Rightarrow> string list \<Rightarrow> hc_resolver" where
  "hc_resolver_store r sel key v =
     (if r_flags r AND HC_RESOLVER_NOCACHE \<noteq> 0 then r
      else let elt = (hc_resolver_element_create v)\<lparr>elt_use := bogonow r\<rparr>;
               k = hashstr_dup key
           in set_lru sel (lru_tree_insert hashstr_quick_cmp (lru_of r sel) k elt) r)"

definition hc_resolver_forget :: "hc_resolver \<Rightarrow> cache_sel \<Rightarrow> hashstr \<Rightarrow> hc_resolver" where
  "hc_resolver_forget r sel k =
     set_lru sel (snd (lru_tree_remove hashstr_quick_cmp (lru_of r sel) k)) r"

subsection \<open>Resolution\<close>

definition rtock :: "rstate \<Rightarrow> rstate" where
  "rtock st = st\<lparr>rs_tick := rs_tick st + 1\<rparr>"

definition rlog :: "rcall \<Rightarrow> rstate \<Rightarrow> rstate" where
  "rlog c st = (rtock st)\<lparr>rs_calls := rs_calls st @ [c]\<rparr>"

definition on_cache :: "cache_sel \<Rightarrow> hashstr \<Rightarrow> rstate \<Rightarrow> string list option \<times> rstate" where
  "on_cache sel k st = map_prod id (\<lambda>r. st\<lparr>rs_res := r\<rparr>) (hc_resolver_get_cached (rs_res st) sel k)"

definition to_cache :: "cache_sel \<Rightarrow> hashstr \<Rightarrow> string list \<Rightarrow> rstate \<Rightarrow> rstate" where
  "to_cache sel k v st = st\<lparr>rs_res := hc_resolver_store (rs_res st) sel k v\<rparr>"

definition srvlit_to_urlv :: "(string \<times> string) list \<Rightarrow> string list" where
  "srvlit_to_urlv l = map (\<lambda>(t, addr). ''1|'' @ t @ ''|'' @ addr @ ''|'') l"

definition hashstr_printf :: "string \<Rightarrow> hashstr" where
  "hashstr_printf s = hashstr_create_from_gstring s"

definition key_meta0 :: "string \<Rightarrow> hashstr" where
  "key_meta0 nsphys = hashstr_printf (''meta0|'' @ nsphys)"

definition resolve_meta0 :: "renv \<Rightarrow> string \<Rightarrow> rstate \<Rightarrow> (gerror + string list) \<times> rstate" where
  "resolve_meta0 E nsphys st =
     (let hk = key_meta0 nsphys
      in case on_cache CSM0 hk st of
           (Some v, st) \<Rightarrow> (Inr v, st)
         | (None, st) \<Rightarrow>
             let (allm0, err) = re_conscience E (rs_tick st) nsphys;
                 st = rlog (Call_conscience nsphys) st
             in if allm0 = [] then (Inl (case err of Some e \<Rightarrow> e | None \<Rightarrow> 500), st)
                else let v = srvlit_to_urlv allm0 in (Inr v, to_cache CSM0 hk v st))"

definition m0list_to_urlv :: "string list \<Rightarrow> string list" where
  "m0list_to_urlv l = map (\<lambda>addr. ''1|meta1|'' @ addr @ ''|'') l"

definition resolve_m1_through_one_m0 ::
  "renv \<Rightarrow> string \<Rightarrow> string \<Rightarrow> rstate \<Rightarrow> (gerror + string list) \<times> rstate" where
  "resolve_m1_through_one_m0 E m0 prefix st =
     (let (lmap, err) = re_meta0 E (rs_tick st) m0 prefix;
          st = rlog (Call_meta0 m0 prefix) st
      in if lmap = [] then (Inl (case err of Some e \<Rightarrow> e | None \<Rightarrow> 500), st)
         else (Inr (m0list_to_urlv lmap), st))"

text \<open>The exchange of the URL just tried with the last one still to try.\<close>

definition swap_last :: "string list \<Rightarrow> nat \<Rightarrow> nat \<Rightarrow> string list" where
  "swap_last urlv i l = urlv[i := urlv ! l, l := urlv ! i]"

fun resolve_m1_through_many_m0 ::
  "renv \<Rightarrow> string list \<Rightarrow> nat \<Rightarrow> string \<Rightarrow> rstate \<Rightarrow> (gerror + string list) \<times> rstate" where
  "resolve_m1_through_many_m0 E urlv 0 prefix st = (Inl 500, st)"
| "resolve_m1_through_many_m0 E urlv (Suc l) prefix st =
     (let i = re_rand E (rs_tick st) mod Suc l
      in case resolve_m1_through_one_m0 E (urlv ! i) prefix (rtock st) of
           (Inr v, st) \<Rightarrow> (Inr v, st)
         | (Inl err, st) \<Rightarrow> resolve_m1_through_many_m0 E (swap_last urlv i l) l prefix st)"

definition url_nsphys :: "hc_url \<Rightarrow> string" where
  "url_nsphys u = (case pns u of Some p \<Rightarrow> p | None \<Rightarrow> ''(null)'')"

definition url_hex :: "renv \<Rightarrow> hc_url \<Rightarrow> string" where
  "url_hex E u = (case fst (hc_url_get (re_sha256 E) u HCURL_HEXID) of Some h \<Rightarrow> h | None \<Rightarrow> ''(null)'')"

definition url_bin :: "renv \<Rightarrow> hc_url \<Rightarrow> string" where
  "url_bin E u = (case fst (hc_url_get_id (re_sha256 E) u) of Some i \<Rightarrow> i | None \<Rightarrow> [])"

definition key_meta1 :: "renv \<Rightarrow> hc_url \<Rightarrow> hashstr" where
  "key_meta1 E u = hashstr_printf (''meta1|'' @ url_nsphys u @ ''|'' @ take 4 (url_hex E u))"

definition resolve_meta1 :: "renv \<Rightarrow> hc_url \<Rightarrow> rstate \<Rightarrow> (gerror + string list) \<times> rstate" where
  "resolve_meta1 E u st =
     (let hk = key_meta1 E u
      in case on_cache CSM0 hk st of
           (Some v, st) \<Rightarrow> (Inr v, st)
         | (None, st) \<Rightarrow>
             (case resolve_meta0 E (url_nsphys u) st of
                (Inl err, st) \<Rightarrow> (Inl err, st)
              | (Inr m0urlv, st) \<Rightarrow>
                  (case resolve_m1_through_many_m0 E m0urlv (length m0urlv) (url_bin E u) st of
                     (Inl err, st) \<Rightarrow> (Inl err, st)
                   | (Inr v, st) \<Rightarrow> (Inr v, to_cache CSM0 hk v st))))"

definition resolve_service_through_one_m1 ::
  "renv \<Rightarrow> string \<Rightarrow> hc_url \<Rightarrow> string \<Rightarrow> rstate \<Rightarrow> (gerror + string list) \<times> rstate" where
  "resolve_service_through_one_m1 E m1 u s st =
     (let n = (case ns u of Some x \<Rightarrow> x | None \<Rightarrow> [])
      in (re_meta1 E (rs_tick st) m1 n (url_bin E u) s, rlog (Call_meta1 m1 n (url_bin E u) s) st))"

fun resolve_service_through_many_meta1 ::
  "renv \<Rightarrow> string list \<Rightarrow> nat \<Rightarrow> hc_url \<Rightarrow> string \<Rightarrow> rstate \<Rightarrow> (gerror + string list) \<times> rstate" where
  "resolve_service_through_many_meta1 E urlv 0 u s st = (Inl 500, st)"
| "resolve_service_through_many_meta1 E urlv (Suc l) u s st =
     (let i = re_rand E (rs_tick st) mod Suc l
      in case resolve_service_through_one_m1 E (urlv ! i) u s (rtock st) of
           (Inr v, st) \<Rightarrow> (Inr v, st)
         | (Inl err, st) \<Rightarrow>
             if err \<ge> 100 then (Inl err, st)
             else resolve_service_through_many_meta1 E (swap_last urlv i l) l u s st)"

definition resolve_reference_service ::
  "renv \<Rightarrow> hashstr \<Rightarrow> hc_url \<Rightarrow> string \<Rightarrow> rstate \<Rightarrow> (gerror + string list) \<times> rstate" where
  "resolve_reference_service E hk u s st =
     (case on_cache SERVICES hk st of
        (Some v, st) \<Rightarrow> (Inr v, st)
      | (None, st) \<Rightarrow>
          (case resolve_meta1 E u st of
             (Inl err, st) \<Rightarrow> (Inl err, st)
           | (Inr m1urlv, st) \<Rightarrow>
               (case resolve_service_through_many_meta1 E m1urlv (length m1urlv) u s st of
                  (Inl err, st) \<Rightarrow> (Inl err, st)
                | (Inr v, st) \<Rightarrow>
                    (Inr v, if r_flags (rs_res st) AND HC_RESOLVER_NOCACHE = 0
                            then to_cache SERVICES hk v st else st))))"

definition incomplete_url :: "renv \<Rightarrow> hc_url \<Rightarrow> bool" where
  "incomplete_url E url \<longleftrightarrow> fst (hc_url_get_id (re_sha256 E) url) = None \<or> \<not> hc_url_has url HCURL_NS"

definition hc_resolve_reference_directory ::
  "renv \<Rightarrow> hc_url \<Rightarrow> rstate \<Rightarrow> (gerror + string list) \<times> rstate" where
  "hc_resolve_reference_directory E url st =
     (if incomplete_url E url then (Inl 400, st) else resolve_meta1 E url st)"

definition key_service :: "renv \<Rightarrow> hc_url \<Rightarrow> string \<Rightarrow> hashstr" where
  "key_service E url srvtype = hashstr_printf (srvtype @ ''|'' @ url_nsphys url @ ''|'' @ url_hex E url)"

definition hc_resolve_reference_service ::
  "renv \<Rightarrow> hc_url \<Rightarrow> string \<Rightarrow> rstate \<Rightarrow> (gerror + string list) \<times> rstate" where
  "hc_resolve_reference_service E url srvtype st =
     (if incomplete_url E url then (Inl 400, st)
      else resolve_reference_service E (key_service E url srvtype) url srvtype st)"

subsection \<open>Cache control\<close>

definition hc_decache_reference :: "renv \<Rightarrow> hc_url \<Rightarrow> hc_resolver \<Rightarrow> hc_resolver" where
  "hc_decache_reference E url r =
     (if r_flags r AND HC_RESOLVER_NOCACHE \<noteq> 0 then r
      else hc_resolver_forget (hc_resolver_forget r CSM0 (key_meta0 (url_nsphys url))) CSM0 (key_meta1 E url))"

definition hc_decache_reference_service :: "renv \<Rightarrow> hc_url \<Rightarrow> string \<Rightarrow> hc_resolver \<Rightarrow> hc_resolver" where
  "hc_decache_reference_service E url srvtype r =
     (if r_flags r AND HC_RESOLVER_NOCACHE \<noteq> 0 then r
      else hc_resolver_forget r SERVICES (key_service E url srvtype))"

definition hc_resolver_set_now :: "int \<Rightarrow> hc_resolver \<Rightarrow> hc_resolver" where
  "hc_resolver_set_now now r = r\<lparr>bogonow := now\<rparr>"

partial_function (option) resolver_expire ::
  "(hashstr, cached_element) lru_tree \<Rightarrow> int \<Rightarrow> nat \<Rightarrow> (nat \<times> (hashstr, cached_element) lru_tree) option" where
  "resolver_expire lru oldest cnt =
     (case lru_tree_get_last lru of
        (None, lru) \<Rightarrow> Some (cnt, lru)
      | (Some (k, elt), lru) \<Rightarrow>
          if oldest \<le> elt_use elt then Some (cnt, lru)
          else resolver_expire (snd (lru_tree_steal_last lru)) oldest (cnt + 1))"

definition LRU_expire :: "cache_sel \<Rightarrow> hc_resolver \<Rightarrow> (nat \<times> hc_resolver) option" where
  "LRU_expire sel r =
     (let l = ext_of r sel
      in if le_ttl l > 0
         then map_option (\<lambda>(n, lt). (n, set_lru sel lt r)) (resolver_expire (le_cache l) (bogonow r - le_ttl l) 0)
         else Some (0, r))"

definition hc_resolver_expire :: "hc_resolver \<Rightarrow> (nat \<times> hc_resolver) option" where
  "hc_resolver_expire r =
     Option.bind (LRU_expire CSM0 r)
       (\<lambda>(n, r). map_option (\<lambda>(m, r). (n + m, r)) (LRU_expire SERVICES r))"

partial_function (option) resolver_purge ::
  "(hashstr, cached_element) lru_tree \<Rightarrow> nat \<Rightarrow> nat \<Rightarrow> (nat \<times> (hashstr, cached_element) lru_tree) option" where
  "resolver_purge lru umax cnt =
     (if int umax < lru_tree_count lru
      then resolver_purge (snd (lru_tree_steal_last lru)) umax (cnt + 1)
      else Some (cnt, lru))"

definition LRU_purge :: "cache_sel \<Rightarrow> hc_resolver \<Rightarrow> (nat \<times> hc_resolver) option" where
  "LRU_purge sel r =
     (let l = ext_of r sel
      in if le_max l > 0
         then map_option (\<lambda>(n, lt). (n, set_lru sel lt r)) (resolver_purge (le_cache l) (le_max l) 0)
         else Some (0, r))"

definition hc_resolver_purge :: "hc_resolver \<Rightarrow> (nat \<times> hc_resolver) option" where
  "hc_resolver_purge r =
     Option.bind (LRU_purge CSM0 r)
       (\<lambda>(n, r). map_option (\<lambda>(m, r). (n + m, r)) (LRU_purge SERVICES r))"

partial_function (option) lru_flush ::
  "(hashstr, cached_element) lru_tree \<Rightarrow> (hashstr, cached_element) lru_tree option" where
  "lru_flush lru =
     (case lru_tree_get_last lru of
        (None, lru) \<Rightarrow> Some lru
      | (Some p, lru) \<Rightarrow> lru_flush (snd (lru_tree_steal_last lru)))"

definition hc_resolver_flush_csm0 :: "hc_resolver \<Rightarrow> hc_resolver option" where
  "hc_resolver_flush_csm0 r = map_option (\<lambda>lt. set_lru CSM0 lt r) (lru_flush (lru_of r CSM0))"

definition hc_resolver_flush_services :: "hc_resolver \<Rightarrow> hc_resolver option" where
  "hc_resolver_flush_services r = map_option (\<lambda>lt. set_lru SERVICES lt r) (lru_flush (lru_of r SERVICES))"

definition LRU_set_max :: "cache_sel \<Rightarrow> nat \<Rightarrow> hc_resolver \<Rightarrow> hc_resolver" where
  "LRU_set_max sel v r = set_ext sel ((ext_of r sel)\<lparr>le_max := v\<rparr>) r"

definition LRU_set_ttl :: "cache_sel \<Rightarrow> int \<Rightarrow> hc_resolver \<Rightarrow> hc_resolver" where
  "LRU_set_ttl sel v r = set_ext sel ((ext_of r sel)\<lparr>le_ttl := v\<rparr>) r"

definition hc_resolver_set_max_services :: "nat \<Rightarrow> hc_resolver \<Rightarrow> hc_resolver" where
  "hc_resolver_set_max_services d r = LRU_set_max SERVICES d r"

definition hc_resolver_set_ttl_services :: "int \<Rightarrow> hc_resolver \<Rightarrow> hc_resolver" where
  "hc_resolver_set_ttl_services d r = LRU_set_ttl SERVICES d r"

definition hc_resolver_set_max_csm0 :: "nat \<Rightarrow> hc_resolver \<Rightarrow> hc_resolver" where
  "hc_resolver_set_max_csm0 d r = LRU_set_max CSM0 d r"

definition hc_resolver_set_ttl_csm0 :: "int \<Rightarrow> hc_resolver \<Rightarrow> hc_resolver" where
  "hc_resolver_set_ttl_csm0 d r = LRU_set_ttl CSM0 d r"

record hc_resolver_stats =
  st_clock :: int
  st_csm0 :: "int \<times> nat \<times> int"
  st_services :: "int \<times> nat \<times> int"

definition hc_resolver_info :: "hc_resolver \<Rightarrow> hc_resolver_stats" where
  "hc_resolver_info r =
     \<lparr>st_clock = bogonow r,
      st_csm0 = (lru_tree_count (lru_of r CSM0), le_max (csm0 r), le_ttl (csm0 r)),
      st_services = (lru_tree_count (lru_of r SERVICES), le_max (services r), le_ttl (services r))\<rparr>"

subsection \<open>Packing is lossless\<close>

definition strings :: "string list \<Rightarrow> bool" where
  "strings v \<longleftrightarrow> (\<forall>s \<in> set v. NUL \<notin> set s) \<and> length v < 2 ^ 32"

lemma cstr_app: "NUL \<notin> set s \<Longrightarrow> cstr (s @ NUL # t) = s"
  unfolding cstr_def by (subst takeWhile_append2) auto

lemma strv_pointers_concat: "\<forall>s \<in> set v. NUL \<notin> set s \<Longrightarrow> strv_pointers (strv_concat v) (length v) = v"
proof (induction v)
  case (Cons s v)
  have "strv_concat (s # v) = s @ NUL # strv_concat v" by (simp add: strv_concat_def)
  then show ?case using Cons cstr_app [of s "strv_concat v"] by simp
qed simp

lemma element_round_trip:
  assumes "strings v"
  shows "hc_resolver_element_extract ((hc_resolver_element_create v)\<lparr>elt_use := t\<rparr>) = v"
proof -
  have "unat (of_nat (length v) :: u32) = length v"
    using assms by (simp add: strings_def unat_of_nat)
  then show ?thesis
    using assms strv_pointers_concat [of v]
    by (simp add: strings_def hc_resolver_element_extract_def hc_resolver_element_create_def)
qed

lemma strv_concat_length: "length (strv_concat v) = strv_total_length v"
  by (induction v) (simp_all add: strv_concat_def strv_total_length_def)

lemma extract_use [simp]: "hc_resolver_element_extract (e\<lparr>elt_use := t\<rparr>) = hc_resolver_element_extract e"
  by (simp add: hc_resolver_element_extract_def)

subsection \<open>The caches as lists of entries\<close>

abbreviation holds :: "(hashstr, cached_element) lru_tree \<Rightarrow> (hashstr \<times> cached_element) list \<Rightarrow> bool" where
  "holds \<equiv> represents hashstr_quick_cmp hashstr_wf"

definition resolver_ok :: "hc_resolver \<Rightarrow> bool" where
  "resolver_ok r \<longleftrightarrow> (\<forall>sel. (\<exists>xs. holds (lru_of r sel) xs) \<and> \<not> noatime (lru_of r sel))"

lemma set_ext_simps [simp]:
  "ext_of (set_ext sel l r) sel' = (if sel' = sel then l else ext_of r sel')"
  "r_flags (set_ext sel l r) = r_flags r" "bogonow (set_ext sel l r) = bogonow r"
  by (cases sel; cases sel'; simp)+

lemma set_lru_simps [simp]:
  "lru_of (set_lru sel lt r) sel' = (if sel' = sel then lt else lru_of r sel')"
  "r_flags (set_lru sel lt r) = r_flags r" "bogonow (set_lru sel lt r) = bogonow r"
  "le_ttl (ext_of (set_lru sel lt r) sel') = le_ttl (ext_of r sel')"
  "le_max (ext_of (set_lru sel lt r) sel') = le_max (ext_of r sel')"
  by (simp_all add: set_lru_def)

lemma ext_of_eqs: "csm0 r = ext_of r CSM0" "services r = ext_of r SERVICES"
  by simp_all

lemma op_flags:
  "noatime (snd (lru_tree_get cmp lt k)) = noatime lt" "noatime (lru_tree_insert cmp lt k v) = noatime lt"
  "noatime (snd (lru_tree_remove cmp lt k)) = noatime lt" "noatime (snd (lru_tree_get_last lt)) = noatime lt"
  "noatime (snd (lru_tree_steal_last lt)) = noatime lt" "noatime (lru_poke cmp lt k f) = noatime lt"
  using exec_flags [of cmp "Op_get k" lt] exec_flags [of cmp "Op_insert k v" lt]
    exec_flags [of cmp "Op_remove k" lt] exec_flags [of cmp Op_get_last lt]
    exec_flags [of cmp Op_steal_last lt]
  by (simp_all add: noatime_def lru_poke_def split: option.split)

lemma created_ok: "resolver_ok (hc_resolver_create1 now)"
proof -
  have "holds (lru_of (hc_resolver_create1 now) sel) []" for sel
    using hstr.represents_create by (cases sel) (simp_all add: hc_resolver_create1_def)
  moreover have "\<not> noatime (lru_of (hc_resolver_create1 now) sel)" for sel
    by (cases sel) (simp_all add: hc_resolver_create1_def lru_tree_create_def noatime_def)
  ultimately show ?thesis unfolding resolver_ok_def by blast
qed

lemma ok_set_lru:
  "resolver_ok r \<Longrightarrow> holds lt xs \<Longrightarrow> \<not> noatime lt \<Longrightarrow> resolver_ok (set_lru sel lt r)"
  by (auto simp: resolver_ok_def)

lemma ok_holds: "resolver_ok r \<Longrightarrow> \<exists>xs. holds (lru_of r sel) xs"
  by (simp add: resolver_ok_def)

lemma ok_atime: "resolver_ok r \<Longrightarrow> \<not> noatime (lru_of r sel)"
  by (simp add: resolver_ok_def)

text \<open>The entry a cache has for a key.\<close>

definition cached :: "hc_resolver \<Rightarrow> cache_sel \<Rightarrow> hashstr \<Rightarrow> string list option" where
  "cached r sel k =
     map_option hc_resolver_element_extract (fst (lru_tree_get hashstr_quick_cmp (lru_of r sel) k))"

lemma get_cached_spec:
  assumes "resolver_ok r" and "hashstr_wf k"
  shows "fst (hc_resolver_get_cached r sel k) = cached r sel k"
    and "resolver_ok (snd (hc_resolver_get_cached r sel k))"
    and "hashstr_wf j \<Longrightarrow> cached (snd (hc_resolver_get_cached r sel k)) sel' j = cached r sel' j"
    and "r_flags (snd (hc_resolver_get_cached r sel k)) = r_flags r"
proof -
  let ?lt = "lru_of r sel" and ?g = "lru_tree_get hashstr_quick_cmp (lru_of r sel) k"
  let ?p = "lru_poke hashstr_quick_cmp (snd ?g) k (\<lambda>e. e\<lparr>elt_use := bogonow r\<rparr>)"
  have h: "\<exists>xs. holds ?lt xs" by (rule ok_holds [OF assms(1)])
  have n: "\<not> noatime ?lt" by (rule ok_atime [OF assms(1)])
  have g: "\<exists>xs. holds (snd ?g) xs" "\<And>j. hashstr_wf j \<Longrightarrow> fst (lru_tree_get hashstr_quick_cmp (snd ?g) j) = fst (lru_tree_get hashstr_quick_cmp ?lt j)"
    using hlru.get_law [OF h assms(2)] by auto
  have p: "\<exists>xs. holds ?p xs"
    using hlru.get_poke(1) [OF h assms(2) assms(2)] .
  have pj: "map_option hc_resolver_element_extract (fst (lru_tree_get hashstr_quick_cmp ?p j)) =
      map_option hc_resolver_element_extract (fst (lru_tree_get hashstr_quick_cmp ?lt j))" if "hashstr_wf j" for j
    using hlru.get_poke(2) [OF h assms(2) that] by (cases "fst ?g") auto
  have s: "snd (hc_resolver_get_cached r sel k) = set_lru sel (if fst ?g \<noteq> None \<and> r_flags r AND HC_RESOLVER_NOATIME = 0 then ?p else snd ?g) r"
    by (cases ?g; cases "fst ?g") (simp_all add: hc_resolver_get_cached_def Let_def)
  show "fst (hc_resolver_get_cached r sel k) = cached r sel k"
    by (cases ?g; cases "fst ?g") (simp_all add: hc_resolver_get_cached_def cached_def Let_def)
  show "resolver_ok (snd (hc_resolver_get_cached r sel k))"
    unfolding s using ok_set_lru [OF assms(1)] g(1) p n by (auto simp: op_flags)
  show "r_flags (snd (hc_resolver_get_cached r sel k)) = r_flags r" unfolding s by simp
  show "cached (snd (hc_resolver_get_cached r sel k)) sel' j = cached r sel' j" if "hashstr_wf j"
    unfolding s cached_def using g(2) [OF that] pj [OF that] by auto
qed

lemma store_spec:
  assumes "resolver_ok r" and "hashstr_wf k" and "r_flags r AND HC_RESOLVER_NOCACHE = 0" and "strings v"
  shows "resolver_ok (hc_resolver_store r sel k v)"
    and "hashstr_wf j \<Longrightarrow> cached (hc_resolver_store r sel k v) sel' j = (if sel' = sel \<and> j = k then Some v else cached r sel' j)"
    and "r_flags (hc_resolver_store r sel k v) = r_flags r"
proof -
  let ?e = "(hc_resolver_element_create v)\<lparr>elt_use := bogonow r\<rparr>"
  have s: "hc_resolver_store r sel k v = set_lru sel (lru_tree_insert hashstr_quick_cmp (lru_of r sel) k ?e) r"
    using assms(2,3) by (simp add: hc_resolver_store_def hashstr_dup_wf Let_def)
  note i = hlru.insert_law [OF ok_holds [OF assms(1)] assms(2), of sel ?e]
  show "resolver_ok (hc_resolver_store r sel k v)"
    unfolding s using ok_set_lru [OF assms(1)] i ok_atime [OF assms(1)] by (auto simp: op_flags)
  show "cached (hc_resolver_store r sel k v) sel' j = (if sel' = sel \<and> j = k then Some v else cached r sel' j)" if "hashstr_wf j"
    unfolding s cached_def using i that element_round_trip [OF assms(4)] by auto
  show "r_flags (hc_resolver_store r sel k v) = r_flags r" unfolding s by simp
qed

lemma forget_spec:
  assumes "resolver_ok r" and "hashstr_wf k"
  shows "resolver_ok (hc_resolver_forget r sel k)"
    and "hashstr_wf j \<Longrightarrow> cached (hc_resolver_forget r sel k) sel' j = (if sel' = sel \<and> j = k then None else cached r sel' j)"
    and "r_flags (hc_resolver_forget r sel k) = r_flags r"
proof -
  note i = hlru.remove_law [OF ok_holds [OF assms(1)] assms(2), of sel]
  show "resolver_ok (hc_resolver_forget r sel k)"
    unfolding hc_resolver_forget_def using ok_set_lru [OF assms(1)] i ok_atime [OF assms(1)] by (auto simp: op_flags)
  show "cached (hc_resolver_forget r sel k) sel' j = (if sel' = sel \<and> j = k then None else cached r sel' j)" if "hashstr_wf j"
    unfolding hc_resolver_forget_def cached_def using i that by auto
  show "r_flags (hc_resolver_forget r sel k) = r_flags r" by (simp add: hc_resolver_forget_def)
qed

subsection \<open>Resolutions\<close>

text \<open>What the remote services answer are arrays of C strings.\<close>

definition answers_ok :: "renv \<Rightarrow> bool" where
  "answers_ok E \<longleftrightarrow>
     (\<forall>n x. strings (srvlit_to_urlv (fst (re_conscience E n x)))) \<and>
     (\<forall>n x p. strings (m0list_to_urlv (fst (re_meta0 E n x p)))) \<and>
     (\<forall>n x y i t v. re_meta1 E n x y i t = Inr v \<longrightarrow> strings v)"

text \<open>A state that differs from another in the requests made and in the cache \<open>csm0\<close> only.\<close>

definition same_services :: "rstate \<Rightarrow> rstate \<Rightarrow> bool" where
  "same_services st st' \<longleftrightarrow>
     resolver_ok (rs_res st') \<and> r_flags (rs_res st') = r_flags (rs_res st) \<and>
     (\<forall>j. hashstr_wf j \<longrightarrow> cached (rs_res st') SERVICES j = cached (rs_res st) SERVICES j) \<and>
     (\<exists>cs. rs_calls st' = rs_calls st @ cs)"

lemma same_services_refl: "resolver_ok (rs_res st) \<Longrightarrow> same_services st st"
  by (simp add: same_services_def)

lemma same_services_trans: "same_services a b \<Longrightarrow> same_services b c \<Longrightarrow> same_services a c"
  by (force simp: same_services_def)

lemma same_services_ok: "same_services a b \<Longrightarrow> resolver_ok (rs_res b)"
  by (simp add: same_services_def)

lemma rlog_simps [simp]:
  "rs_res (rlog c st) = rs_res st" "rs_calls (rlog c st) = rs_calls st @ [c]"
  "rs_res (rtock st) = rs_res st" "rs_calls (rtock st) = rs_calls st"
  by (simp_all add: rlog_def rtock_def)

lemma same_services_log: "resolver_ok (rs_res st) \<Longrightarrow> same_services st (rlog c st)" "resolver_ok (rs_res st) \<Longrightarrow> same_services st (rtock st)"
  by (simp_all add: same_services_def)

lemma on_cache_spec:
  assumes "resolver_ok (rs_res st)" and "hashstr_wf k"
  shows "fst (on_cache sel k st) = cached (rs_res st) sel k" and "same_services st (snd (on_cache sel k st))"
    and "rs_calls (snd (on_cache sel k st)) = rs_calls st"
  using get_cached_spec [OF assms]
  by (auto simp: on_cache_def same_services_def)

lemma to_cache_csm0:
  assumes "resolver_ok (rs_res st)" and "hashstr_wf k" and "strings v"
  shows "same_services st (to_cache CSM0 k v st)"
proof (cases "r_flags (rs_res st) AND HC_RESOLVER_NOCACHE = 0")
  case True
  then show ?thesis using store_spec [OF assms(1,2) True assms(3)] by (simp add: to_cache_def same_services_def)
next
  case False
  then show ?thesis using assms(1) by (simp add: to_cache_def hc_resolver_store_def same_services_def)
qed

lemma resolve_meta0_spec:
  assumes "answers_ok E" and "resolver_ok (rs_res st)" and "hashstr_wf (key_meta0 n)"
  shows "same_services st (snd (resolve_meta0 E n st))"
proof -
  note c = on_cache_spec [OF assms(2,3), of CSM0]
  let ?st = "snd (on_cache CSM0 (key_meta0 n) st)"
  let ?a = "re_conscience E (rs_tick ?st) n" and ?st1 = "rlog (Call_conscience n) (snd (on_cache CSM0 (key_meta0 n) st))"
  have s1: "same_services st ?st1"
    by (rule same_services_trans [OF c(2) same_services_log(1) [OF same_services_ok [OF c(2)]]])
  have "same_services st (to_cache CSM0 (key_meta0 n) (srvlit_to_urlv (fst ?a)) ?st1)"
    by (rule same_services_trans [OF s1 to_cache_csm0 [OF same_services_ok [OF s1] assms(3)]])
      (use assms(1) in \<open>simp add: answers_ok_def\<close>)
  then show ?thesis using c(2) s1
    by (auto simp: resolve_meta0_def Let_def split: prod.split option.split)
qed

lemma through_many_m0_spec:
  assumes "answers_ok E"
  shows "resolver_ok (rs_res st) \<Longrightarrow> same_services st (snd (resolve_m1_through_many_m0 E urlv l prefix st)) \<and>
    (\<forall>v. fst (resolve_m1_through_many_m0 E urlv l prefix st) = Inr v \<longrightarrow> strings v)"
proof (induction l arbitrary: urlv st)
  case (Suc l)
  let ?i = "re_rand E (rs_tick st) mod Suc l"
  let ?st = "snd (resolve_m1_through_one_m0 E (urlv ! ?i) prefix (rtock st))"
  have s: "same_services st ?st"
    using Suc.prems by (auto simp: resolve_m1_through_one_m0_def Let_def same_services_def split: prod.split)
  have v: "strings v" if "fst (resolve_m1_through_one_m0 E (urlv ! ?i) prefix (rtock st)) = Inr v" for v
    using that assms
    by (cases "re_meta0 E (rs_tick (rtock st)) (urlv ! ?i) prefix")
      (auto simp: resolve_m1_through_one_m0_def answers_ok_def Let_def split: if_splits, metis fst_conv)
  have n: "same_services st (snd (resolve_m1_through_many_m0 E (swap_last urlv ?i l) l prefix ?st))"
    by (rule same_services_trans [OF s]) (use Suc.IH [OF same_services_ok [OF s]] in blast)
  show ?case
  proof (cases "fst (resolve_m1_through_one_m0 E (urlv ! ?i) prefix (rtock st))")
    case (Inl e)
    then have "resolve_m1_through_many_m0 E urlv (Suc l) prefix st =
      resolve_m1_through_many_m0 E (swap_last urlv ?i l) l prefix ?st"
      by (cases "resolve_m1_through_one_m0 E (urlv ! ?i) prefix (rtock st)") simp
    then show ?thesis using n Suc.IH [OF same_services_ok [OF s]] by metis
  next
    case (Inr w)
    then have "resolve_m1_through_many_m0 E urlv (Suc l) prefix st = (Inr w, ?st)"
      by (cases "resolve_m1_through_one_m0 E (urlv ! ?i) prefix (rtock st)") simp
    then show ?thesis using s v [OF Inr] by simp
  qed
qed (simp add: same_services_refl)

lemma resolve_meta1_spec:
  assumes "answers_ok E" and "resolver_ok (rs_res st)" and "hashstr_wf (key_meta0 (url_nsphys u))" and "hashstr_wf (key_meta1 E u)"
  shows "same_services st (snd (resolve_meta1 E u st))"
proof -
  note c = on_cache_spec [OF assms(2,4), of CSM0]
  let ?st = "snd (on_cache CSM0 (key_meta1 E u) st)"
  let ?m = "resolve_meta0 E (url_nsphys u) ?st"
  note s1 = same_services_trans [OF c(2) resolve_meta0_spec [OF assms(1) same_services_ok [OF c(2)] assms(3)]]
  show ?thesis
  proof (cases "fst (on_cache CSM0 (key_meta1 E u) st)")
    case (Some v)
    then show ?thesis using c(2) by (auto simp: resolve_meta1_def Let_def split: prod.split)
  next
    case None
    have r: "resolve_meta1 E u st = (case ?m of (Inl err, st) \<Rightarrow> (Inl err, st) | (Inr m0urlv, st) \<Rightarrow>
        (case resolve_m1_through_many_m0 E m0urlv (length m0urlv) (url_bin E u) st of
           (Inl err, st) \<Rightarrow> (Inl err, st) | (Inr v, st) \<Rightarrow> (Inr v, to_cache CSM0 (key_meta1 E u) v st)))"
      using None by (cases "on_cache CSM0 (key_meta1 E u) st") (simp add: resolve_meta1_def Let_def)
    show ?thesis
    proof (cases "fst ?m")
      case (Inl e)
      then show ?thesis unfolding r using s1 by (cases ?m) simp
    next
      case (Inr w)
      let ?t = "resolve_m1_through_many_m0 E w (length w) (url_bin E u) (snd ?m)"
      have t: "same_services st (snd ?t)" "\<And>v. fst ?t = Inr v \<Longrightarrow> strings v"
        using through_many_m0_spec [OF assms(1) same_services_ok [OF s1]] same_services_trans [OF s1] by blast+
      have "same_services st (to_cache CSM0 (key_meta1 E u) v (snd ?t))" if "fst ?t = Inr v" for v
        by (rule same_services_trans [OF t(1) to_cache_csm0 [OF same_services_ok [OF t(1)] assms(4) t(2) [OF that]]])
      then show ?thesis unfolding r using Inr t(1) by (cases ?m; cases ?t; cases "fst ?t") auto
    qed
  qed
qed

text \<open>The request that gave a result, among those made since a state.\<close>

definition url_ns :: "hc_url \<Rightarrow> string" where
  "url_ns u = (case ns u of Some x \<Rightarrow> x | None \<Rightarrow> [])"

definition answered :: "renv \<Rightarrow> hc_url \<Rightarrow> string \<Rightarrow> rstate \<Rightarrow> rstate \<Rightarrow> string list \<Rightarrow> bool" where
  "answered E u s st st' v \<longleftrightarrow>
     (\<exists>n m1. Call_meta1 m1 (url_ns u) (url_bin E u) s \<in> set (drop (length (rs_calls st)) (rs_calls st')) \<and>
        re_meta1 E n m1 (url_ns u) (url_bin E u) s = Inr v)"

lemma answered_earlier: "same_services st0 st \<Longrightarrow> answered E u s st st' v \<Longrightarrow> answered E u s st0 st' v"
proof -
  assume "same_services st0 st" and a: "answered E u s st st' v"
  then have "length (rs_calls st0) \<le> length (rs_calls st)" by (auto simp: same_services_def)
  then have "set (drop (length (rs_calls st)) (rs_calls st')) \<subseteq> set (drop (length (rs_calls st0)) (rs_calls st'))"
    by (rule set_drop_subset_set_drop)
  then show ?thesis using a unfolding answered_def by blast
qed

lemma through_many_meta1_spec:
  "resolver_ok (rs_res st) \<Longrightarrow>
     same_services st (snd (resolve_service_through_many_meta1 E urlv l u s st)) \<and>
     (\<forall>v. fst (resolve_service_through_many_meta1 E urlv l u s st) = Inr v \<longrightarrow>
        answered E u s st (snd (resolve_service_through_many_meta1 E urlv l u s st)) v)"
proof (induction l arbitrary: urlv st)
  case (Suc l)
  let ?i = "re_rand E (rs_tick st) mod Suc l"
  let ?one = "resolve_service_through_one_m1 E (urlv ! ?i) u s (rtock st)"
  have s: "same_services st (snd ?one)"
    using Suc.prems by (simp add: resolve_service_through_one_m1_def Let_def same_services_def)
  note IH = Suc.IH [OF same_services_ok [OF s]]
  show ?case
  proof (cases "fst ?one")
    case (Inr w)
    then have r: "resolve_service_through_many_meta1 E urlv (Suc l) u s st = (Inr w, snd ?one)"
      by (cases ?one) simp
    have "answered E u s st (snd ?one) w"
      using Inr by (auto simp: resolve_service_through_one_m1_def answered_def url_ns_def Let_def)
    then show ?thesis unfolding r using s by simp
  next
    case (Inl e)
    show ?thesis
    proof (cases "e \<ge> 100")
      case True
      then have "resolve_service_through_many_meta1 E urlv (Suc l) u s st = (Inl e, snd ?one)"
        using Inl by (cases ?one) simp
      then show ?thesis using s by simp
    next
      case False
      then have r: "resolve_service_through_many_meta1 E urlv (Suc l) u s st =
          resolve_service_through_many_meta1 E (swap_last urlv ?i l) l u s (snd ?one)"
        using Inl by (cases ?one) simp
      show ?thesis unfolding r using IH same_services_trans [OF s] answered_earlier [OF s] by blast
    qed
  qed
qed (simp add: same_services_refl)

text \<open>The keys of a request are hashed strings of the program.\<close>

definition keys_ok :: "renv \<Rightarrow> hc_url \<Rightarrow> string \<Rightarrow> bool" where
  "keys_ok E u s \<longleftrightarrow>
     hashstr_wf (key_meta0 (url_nsphys u)) \<and> hashstr_wf (key_meta1 E u) \<and> hashstr_wf (key_service E u s)"

text \<open>The outcome of a resolution, from what the cache of the services had.\<close>

lemma resolve_service_spec:
  assumes "answers_ok E" and "resolver_ok (rs_res st)" and "keys_ok E u s" and "\<not> incomplete_url E u"
    and "hc_resolve_reference_service E u s st = (Inr v, st')"
  shows "cached (rs_res st) SERVICES (key_service E u s) = Some v \<and> same_services st st' \<and> rs_calls st' = rs_calls st \<or>
    cached (rs_res st) SERVICES (key_service E u s) = None \<and>
    (\<exists>st1. same_services st st1 \<and> answered E u s st st1 v \<and> rs_calls st' = rs_calls st1 \<and>
       rs_res st' = (if r_flags (rs_res st) AND HC_RESOLVER_NOCACHE = 0
                     then hc_resolver_store (rs_res st1) SERVICES (key_service E u s) v else rs_res st1))"
proof -
  let ?k = "key_service E u s"
  have k: "hashstr_wf ?k" "hashstr_wf (key_meta0 (url_nsphys u))" "hashstr_wf (key_meta1 E u)"
    using assms(3) by (simp_all add: keys_ok_def)
  note c = on_cache_spec [OF assms(2) k(1), of SERVICES]
  have r: "resolve_reference_service E ?k u s st = (Inr v, st')"
    using assms(4,5) by (simp add: hc_resolve_reference_service_def)
  show ?thesis
  proof (cases "cached (rs_res st) SERVICES ?k")
    case (Some w)
    then have "on_cache SERVICES ?k st = (Some w, snd (on_cache SERVICES ?k st))" using c(1) by (metis prod.collapse)
    then have "w = v" "st' = snd (on_cache SERVICES ?k st)" using r
      by (simp_all add: resolve_reference_service_def split: prod.splits)
    then show ?thesis using Some c(2,3) by simp
  next
    case None
    obtain st0 where st0: "on_cache SERVICES ?k st = (None, st0)"
      using None c(1) by (cases "on_cache SERVICES ?k st") simp
    have s0: "same_services st st0" using c(2) st0 by simp
    note m = resolve_meta1_spec [OF assms(1) same_services_ok [OF s0] k(2,3)]
    obtain x st2 where x: "resolve_meta1 E u st0 = (x, st2)" by (metis surj_pair)
    have s1: "same_services st st2" using same_services_trans [OF s0 m] x by simp
    have r1: "(case (x, st2) of (Inl err, st) \<Rightarrow> (Inl err, st) | (Inr m1urlv, st) \<Rightarrow>
        (case resolve_service_through_many_meta1 E m1urlv (length m1urlv) u s st of
           (Inl err, st) \<Rightarrow> (Inl err, st)
         | (Inr v, st) \<Rightarrow> (Inr v, if r_flags (rs_res st) AND HC_RESOLVER_NOCACHE = 0
                            then to_cache SERVICES ?k v st else st))) = (Inr v, st')"
      using r unfolding resolve_reference_service_def st0 prod.case option.case x .
    then obtain w where w: "x = Inr w" by (cases x) auto
    obtain y st3 where y: "resolve_service_through_many_meta1 E w (length w) u s st2 = (y, st3)" by (metis surj_pair)
    have r2: "(case (y, st3) of (Inl err, st) \<Rightarrow> (Inl err, st)
         | (Inr v, st) \<Rightarrow> (Inr v, if r_flags (rs_res st) AND HC_RESOLVER_NOCACHE = 0
                            then to_cache SERVICES ?k v st else st)) = (Inr v, st')"
      using r1 unfolding w prod.case sum.case y .
    then have e: "y = Inr v" "st' = (if r_flags (rs_res st3) AND HC_RESOLVER_NOCACHE = 0
        then to_cache SERVICES ?k v st3 else st3)" by (cases y; auto)+
    have t: "same_services st2 st3" "answered E u s st2 st3 v"
      using through_many_meta1_spec [OF same_services_ok [OF s1], of E w "length w" u s] y e(1) by simp_all
    note s3 = same_services_trans [OF s1 t(1)]
    then have "r_flags (rs_res st3) = r_flags (rs_res st)" by (simp add: same_services_def)
    then show ?thesis
      using None e(2) s3 answered_earlier [OF s1 t(2)]
      by (intro disjI2 conjI exI [of _ st3]) (auto simp: to_cache_def)
  qed
qed

lemma answered_strings: "answers_ok E \<Longrightarrow> answered E u s st st' v \<Longrightarrow> strings v"
  by (auto simp: answers_ok_def answered_def)

subsection \<open>Properties of the resolutions\<close>

text \<open>
  A namespace with one meta0 and one meta1, and a URL in it, for the examples. The digest of
  a name is a letter.
\<close>

definition small_env :: renv where
  "small_env =
     \<lparr>re_sha256 = (\<lambda>_. ''Z''), re_rand = (\<lambda>n. n),
      re_conscience = (\<lambda>_ _. ([(''meta0'', ''M0'')], None)),
      re_meta0 = (\<lambda>_ _ _. ([''M1''], None)),
      re_meta1 = (\<lambda>n _ _ _ _. Inr [''1|svc|S|''])\<rparr>"

definition small_url :: hc_url where
  "small_url = hc_url_empty\<lparr>ns := Some ''NS'', pns := Some ''NS'', refname := Some ''REF''\<rparr>"

definition small_state :: rstate where
  "small_state = \<lparr>rs_res = hc_resolver_create1 0, rs_tick = 0, rs_calls = []\<rparr>"

lemma small_hex: "url_hex small_env small_url = ''5A''" "url_nsphys small_url = ''NS''"
proof -
  show "url_hex small_env small_url = ''5A''" by code_simp
  show "url_nsphys small_url = ''NS''" by (simp add: url_nsphys_def small_url_def)
qed

lemma printf_wf: "NUL \<notin> set s \<Longrightarrow> length s < 2 ^ 32 \<Longrightarrow> hashstr_wf (hashstr_printf s)"
  unfolding hashstr_printf_def by (rule hashstr_create_len_wf)

lemma small_ok:
  "answers_ok small_env" "resolver_ok (rs_res small_state)" "keys_ok small_env small_url ''svc''"
  "\<not> incomplete_url small_env small_url" "r_flags (rs_res small_state) AND HC_RESOLVER_NOCACHE = 0"
proof -
  show "answers_ok small_env"
    by (simp add: answers_ok_def small_env_def strings_def srvlit_to_urlv_def m0list_to_urlv_def NUL_def)
  show "resolver_ok (rs_res small_state)" using created_ok by (simp add: small_state_def)
  show "keys_ok small_env small_url ''svc''"
    unfolding keys_ok_def key_meta0_def key_meta1_def key_service_def small_hex
    by (intro conjI printf_wf) (simp_all add: NUL_def)
  show "\<not> incomplete_url small_env small_url"
    by (simp add: incomplete_url_def small_url_def hc_url_get_id_def compute_id_def hc_url_empty_def Let_def)
  show "r_flags (rs_res small_state) AND HC_RESOLVER_NOCACHE = 0"
    by (simp add: small_state_def hc_resolver_create1_def)
qed

text \<open>
  C34: a service resolved once is then served from the cache. Unless the cache is disabled,
  after a resolution that succeeded, resolving the same service of the same URL
  succeeds with the same result and makes no request, whatever the remote services
  would answer.
\<close>

theorem second_resolution_from_cache:
  assumes "answers_ok E" and "resolver_ok (rs_res st)" and "keys_ok E u s"
    and "r_flags (rs_res st) AND HC_RESOLVER_NOCACHE = 0"
    and "hc_resolve_reference_service E u s st = (Inr v, st')"
    and "re_sha256 E' = re_sha256 E"
  shows "\<exists>st''. hc_resolve_reference_service E' u s st' = (Inr v, st'') \<and> rs_calls st'' = rs_calls st'"
proof -
  let ?k = "key_service E u s"
  have c: "\<not> incomplete_url E u" using assms(5) by (auto simp: hc_resolve_reference_service_def split: if_splits)
  have k: "hashstr_wf ?k" using assms(3) by (simp add: keys_ok_def)
  have E': "incomplete_url E' u = incomplete_url E u" "key_service E' u s = ?k"
    using assms(6) by (simp_all add: incomplete_url_def key_service_def url_hex_def)
  have hit: "cached (rs_res st') SERVICES ?k = Some v \<and> resolver_ok (rs_res st')"
    using resolve_service_spec [OF assms(1,2,3) c assms(5)]
  proof (elim disjE conjE exE)
    assume "cached (rs_res st) SERVICES ?k = Some v" and "same_services st st'"
    then show ?thesis using k by (simp add: same_services_def)
  next
    fix st1 assume s: "same_services st st1" and a: "answered E u s st st1 v"
      and r: "rs_res st' = (if r_flags (rs_res st) AND HC_RESOLVER_NOCACHE = 0
        then hc_resolver_store (rs_res st1) SERVICES ?k v else rs_res st1)"
    have "r_flags (rs_res st1) AND HC_RESOLVER_NOCACHE = 0" using s assms(4) by (simp add: same_services_def)
    from store_spec [OF same_services_ok [OF s] k this answered_strings [OF assms(1) a], where sel = SERVICES] r
    show ?thesis using assms(4) k by simp
  qed
  have o: "fst (on_cache SERVICES ?k st') = Some v" "rs_calls (snd (on_cache SERVICES ?k st')) = rs_calls st'"
    using on_cache_spec [OF _ k, of st' SERVICES] hit by auto
  obtain st'' where "on_cache SERVICES ?k st' = (Some v, st'')" using o(1) by (cases "on_cache SERVICES ?k st'") simp
  then show ?thesis using o(2) c E' by (simp add: hc_resolve_reference_service_def resolve_reference_service_def)
qed

definition dead_env :: renv where
  "dead_env = small_env\<lparr>re_conscience := (\<lambda>_ _. ([], Some 1)), re_meta0 := (\<lambda>_ _ _. ([], Some 1)), re_meta1 := (\<lambda>_ _ _ _ _. Inl 1)\<rparr>"

lemma fresh_miss: "rs_res st = hc_resolver_create1 t \<Longrightarrow> on_cache sel k st = (None, st)"
proof -
  assume "rs_res st = hc_resolver_create1 t"
  moreover have "hc_resolver_get_cached (hc_resolver_create1 t) sel k = (None, hc_resolver_create1 t)"
    by (cases sel) (simp_all add: hc_resolver_get_cached_def hc_resolver_create1_def lru_tree_get_def
        rb_find_def rb_view_def lru_tree_create_def set_lru_def)
  ultimately show ?thesis by (simp add: on_cache_def)
qed

text \<open>The first resolution by a new resolver goes through the three kinds of services.\<close>

lemma small_resolution:
  assumes "rs_res st = hc_resolver_create1 t" and "rs_calls st = []"
  shows "\<exists>st'. hc_resolve_reference_service small_env small_url ''svc'' st = (Inr [''1|svc|S|''], st') \<and>
     rs_calls st' = [Call_conscience ''NS'', Call_meta0 ''1|meta0|M0|'' ''Z'', Call_meta1 ''1|meta1|M1|'' ''NS'' ''Z'' ''svc'']"
proof -
  have b: "url_bin small_env small_url = ''Z''"
    by (simp add: url_bin_def hc_url_get_id_def compute_id_def small_url_def hc_url_empty_def small_env_def
        meta1_name2hash_def Let_def)
  have n: "ns small_url = Some ''NS''" by (simp add: small_url_def)
  have e: "re_conscience small_env = (\<lambda>_ _. ([(''meta0'', ''M0'')], None))" "re_meta0 small_env = (\<lambda>_ _ _. ([''M1''], None))"
    "re_meta1 small_env = (\<lambda>n _ _ _ _. Inr [''1|svc|S|''])" by (simp_all add: small_env_def)
  show ?thesis
    using small_ok(4) fresh_miss [OF assms(1)] assms(2)
    by (simp add: hc_resolve_reference_service_def resolve_reference_service_def resolve_meta1_def resolve_meta0_def
        resolve_m1_through_one_m0_def resolve_service_through_one_m1_def e b n small_hex Let_def to_cache_def
        srvlit_to_urlv_def m0list_to_urlv_def)
qed

theorem second_resolution_from_cache_witness:
  "\<exists>st' st''. hc_resolve_reference_service small_env small_url ''svc'' small_state = (Inr [''1|svc|S|''], st') \<and>
     hc_resolve_reference_service dead_env small_url ''svc'' st' = (Inr [''1|svc|S|''], st'') \<and>
     rs_calls st'' = rs_calls st' \<and> length (rs_calls st') = 3"
proof -
  obtain st' where st': "hc_resolve_reference_service small_env small_url ''svc'' small_state = (Inr [''1|svc|S|''], st')"
    "rs_calls st' = [Call_conscience ''NS'', Call_meta0 ''1|meta0|M0|'' ''Z'', Call_meta1 ''1|meta1|M1|'' ''NS'' ''Z'' ''svc'']"
    using small_resolution [of small_state 0] by (auto simp: small_state_def)
  have "re_sha256 dead_env = re_sha256 small_env" by (simp add: dead_env_def)
  from second_resolution_from_cache [OF small_ok(1,2,3,5) st'(1) this] show ?thesis
    using st' by (auto simp: numeral_eq_Suc)
qed

text \<open>
  a service removed from the cache is asked for again. After \<open>hc_decache_reference_service\<close>, a
  resolution that succeeds returns what a meta1 answered to a request made during this
  resolution, never an older result.
\<close>

theorem decache_forces_request:
  assumes "answers_ok E" and "resolver_ok (rs_res st)" and "keys_ok E u s"
    and "r_flags (rs_res st) AND HC_RESOLVER_NOCACHE = 0"
    and "hc_resolve_reference_service E u s
      (st\<lparr>rs_res := hc_decache_reference_service E u s (rs_res st)\<rparr>) = (Inr v, st')"
  shows "\<exists>n m1. Call_meta1 m1 (url_ns u) (url_bin E u) s \<in> set (drop (length (rs_calls st)) (rs_calls st')) \<and>
    re_meta1 E n m1 (url_ns u) (url_bin E u) s = Inr v"
proof -
  let ?st = "st\<lparr>rs_res := hc_decache_reference_service E u s (rs_res st)\<rparr>"
  have c: "\<not> incomplete_url E u" using assms(5) by (auto simp: hc_resolve_reference_service_def split: if_splits)
  have k: "hashstr_wf (key_service E u s)" using assms(3) by (simp add: keys_ok_def)
  have d: "rs_res ?st = hc_resolver_forget (rs_res st) SERVICES (key_service E u s)"
    using assms(4) by (simp add: hc_decache_reference_service_def)
  note f = forget_spec [OF assms(2) k, where sel = SERVICES]
  have ok: "resolver_ok (rs_res ?st)" using f(1) d by simp
  have "cached (rs_res ?st) SERVICES (key_service E u s) = None" using f(2) [OF k] unfolding d by simp
  then obtain st1 where "answered E u s ?st st1 v" "rs_calls st' = rs_calls st1"
    using resolve_service_spec [OF assms(1) ok assms(3) c assms(5)] by auto
  then show ?thesis by (simp add: answered_def)
qed

theorem decache_forces_request_witness:
  "\<exists>st' n m1. hc_resolve_reference_service small_env small_url ''svc''
      (small_state\<lparr>rs_res := hc_decache_reference_service small_env small_url ''svc'' (rs_res small_state)\<rparr>) = (Inr [''1|svc|S|''], st') \<and>
    Call_meta1 m1 (url_ns small_url) (url_bin small_env small_url) ''svc'' \<in> set (drop 0 (rs_calls st')) \<and>
    re_meta1 small_env n m1 (url_ns small_url) (url_bin small_env small_url) ''svc'' = Inr [''1|svc|S|'']"
proof -
  let ?st = "small_state\<lparr>rs_res := hc_decache_reference_service small_env small_url ''svc'' (rs_res small_state)\<rparr>"
  have "hc_decache_reference_service small_env small_url ''svc'' (hc_resolver_create1 0) = hc_resolver_create1 0"
    by (simp add: hc_decache_reference_service_def hc_resolver_forget_def hc_resolver_create1_def lru_tree_remove_def
        rb_find_def rb_view_def lru_tree_create_def set_lru_def)
  then have "rs_res ?st = hc_resolver_create1 0" "rs_calls ?st = []" by (simp_all add: small_state_def)
  from small_resolution [OF this] obtain st' where st': "hc_resolve_reference_service small_env small_url ''svc'' ?st = (Inr [''1|svc|S|''], st')"
    by blast
  from decache_forces_request [OF small_ok(1,2,3,5) st'] st' show ?thesis by (auto simp: small_state_def)
qed

text \<open>The exchange moves the URL just tried out of those still to try, and only it.\<close>

lemma swap_last_mset:
  assumes "i \<le> l" and "l < length urlv"
  shows "add_mset (urlv ! i) (mset (take l (swap_last urlv i l))) = mset (take (Suc l) urlv)"
proof -
  have t: "take (Suc l) urlv = take l urlv @ [urlv ! l]" using assms(2) by (rule take_Suc_conv_app_nth)
  have s: "take l (swap_last urlv i l) = (take l urlv)[i := urlv ! l]"
    by (simp add: swap_last_def take_update_swap list_update_beyond)
  show ?thesis
  proof (cases "i = l")
    case True
    then show ?thesis unfolding s t by (simp add: list_update_beyond)
  next
    case False
    then have i: "i < length (take l urlv)" using assms by simp
    then have "urlv ! i \<in># mset (take l urlv)" using nth_mem [OF i] assms False by (simp add: in_set_conv_nth)
    then show ?thesis unfolding s t using mset_update [OF i, of "urlv ! l"] assms False by simp
  qed
qed

lemma swap_last_length [simp]: "length (swap_last urlv i l) = length urlv"
  by (simp add: swap_last_def)

lemma many_m0_failed:
  "l \<le> length urlv \<Longrightarrow> fst (resolve_m1_through_many_m0 E urlv l prefix st) = Inl e \<Longrightarrow>
     \<exists>us. rs_calls (snd (resolve_m1_through_many_m0 E urlv l prefix st)) = rs_calls st @ map (\<lambda>u. Call_meta0 u prefix) us \<and>
       mset us = mset (take l urlv) \<and> (\<forall>u \<in> set us. \<exists>n. fst (re_meta0 E n u prefix) = [])"
proof (induction l arbitrary: urlv st)
  case (Suc l)
  let ?i = "re_rand E (rs_tick st) mod Suc l"
  obtain x st1 where x: "resolve_m1_through_one_m0 E (urlv ! ?i) prefix (rtock st) = (x, st1)" by (metis surj_pair)
  have c: "rs_calls st1 = rs_calls st @ [Call_meta0 (urlv ! ?i) prefix]"
    using x by (auto simp: resolve_m1_through_one_m0_def Let_def split: prod.splits if_splits)
  obtain e' where e': "x = Inl e'" using Suc.prems(2) x by (cases x) auto
  then have f: "\<exists>n. fst (re_meta0 E n (urlv ! ?i) prefix) = []"
    using x by (auto simp: resolve_m1_through_one_m0_def Let_def split: prod.splits if_splits) (metis fst_conv)
  have r: "resolve_m1_through_many_m0 E urlv (Suc l) prefix st =
      resolve_m1_through_many_m0 E (swap_last urlv ?i l) l prefix st1" using x e' by simp
  obtain us where us: "rs_calls (snd (resolve_m1_through_many_m0 E (swap_last urlv ?i l) l prefix st1)) =
      rs_calls st1 @ map (\<lambda>u. Call_meta0 u prefix) us" "mset us = mset (take l (swap_last urlv ?i l))"
    "\<forall>u \<in> set us. \<exists>n. fst (re_meta0 E n u prefix) = []"
    using Suc.IH [of "swap_last urlv ?i l" st1] Suc.prems unfolding r by auto
  have "?i \<le> l" by (simp add: less_Suc_eq_le flip: less_Suc_eq_le)
  then have "mset (urlv ! ?i # us) = mset (take (Suc l) urlv)"
    using swap_last_mset [of ?i l urlv] Suc.prems(1) us(2) by simp
  then show ?case unfolding r us(1) c using us(3) f by (intro exI [of _ "urlv ! ?i # us"]) simp
qed simp

text \<open>
  C35: every meta0 is tried before giving up. When the search of a meta1 fails, each meta0 of
  the list has been asked exactly once, whatever the random numbers, and did not answer;
  so the search succeeds as soon as one of them always answers.
\<close>

theorem every_meta0_is_tried:
  assumes "resolve_m1_through_many_m0 E urlv (length urlv) prefix st = (x, st')"
  shows "(x = Inl e \<longrightarrow> (\<exists>us. rs_calls st' = rs_calls st @ map (\<lambda>u. Call_meta0 u prefix) us \<and> mset us = mset urlv)) \<and>
    ((\<exists>u \<in> set urlv. \<forall>n. fst (re_meta0 E n u prefix) \<noteq> []) \<longrightarrow> (\<exists>v. x = Inr v))"
proof (cases x)
  case (Inl y)
  then obtain us where "rs_calls st' = rs_calls st @ map (\<lambda>u. Call_meta0 u prefix) us" "mset us = mset urlv"
    "\<forall>u \<in> set us. \<exists>n. fst (re_meta0 E n u prefix) = []"
    using many_m0_failed [of "length urlv" urlv E prefix st y] assms by auto
  then show ?thesis using Inl by (metis mset_eq_setD)
qed simp

definition half_env :: renv where
  "half_env = small_env\<lparr>re_meta0 := (\<lambda>_ u _. if u = ''B'' then ([''M1''], None) else ([], Some 1))\<rparr>"

theorem every_meta0_is_tried_witness:
  "\<exists>v. fst (resolve_m1_through_many_m0 half_env [''A'', ''B'', ''C''] (length [''A'', ''B'', ''C'']) ''Z'' small_state) = Inr v"
proof -
  have "\<exists>u \<in> set [''A'', ''B'', ''C'']. \<forall>n. fst (re_meta0 half_env n u ''Z'') \<noteq> []" by (simp add: half_env_def)
  then show ?thesis
    using every_meta0_is_tried [OF surjective_pairing, of half_env "[''A'', ''B'', ''C'']" "''Z''" small_state] by blast
qed

subsection \<open>Expiration and purge\<close>

text \<open>
  The expiration as it works on the list of entries: the entry looked at, the least
  recently used, is moved to the front by the lookup, and it is the one behind it that
  is then removed.
\<close>

definition drop_behind :: "'a list \<Rightarrow> 'a list" where
  "drop_behind xs = butlast (last xs # butlast xs)"

lemma drop_behind_length: "xs \<noteq> [] \<Longrightarrow> Suc (length (drop_behind xs)) = length xs"
  unfolding drop_behind_def by (simp del: butlast.simps)

lemma drop_behind_set: "xs \<noteq> [] \<Longrightarrow> set (drop_behind xs) \<subseteq> set xs"
  by (auto simp: drop_behind_def dest!: in_set_butlastD split: if_splits)

function expire_list ::
  "int \<Rightarrow> (hashstr \<times> cached_element) list \<Rightarrow> nat \<Rightarrow> nat \<times> (hashstr \<times> cached_element) list" where
  "expire_list oldest xs n =
     (if xs = [] then (n, [])
      else if oldest \<le> elt_use (snd (last xs)) then (n, last xs # butlast xs)
      else expire_list oldest (drop_behind xs) (n + 1))"
  by pat_completeness auto
termination
  by (relation "measure (\<lambda>(oldest, xs, n). length xs)") (auto dest: drop_behind_length)

declare expire_list.simps [simp del]

lemma expire_spec:
  assumes "holds lt xs" and "\<not> noatime lt"
  shows "\<exists>lt'. resolver_expire lt oldest n = Some (fst (expire_list oldest xs n), lt') \<and>
    holds lt' (snd (expire_list oldest xs n)) \<and> \<not> noatime lt'"
  using assms
proof (induction oldest xs n arbitrary: lt rule: expire_list.induct)
  case (1 oldest xs n)
  let ?lt = "snd (lru_tree_get_last lt)"
  have g: "fst (lru_tree_get_last lt) = (if xs = [] then None else Some (last xs))"
    "holds ?lt (if xs = [] then xs else last xs # butlast xs)" "\<not> noatime ?lt"
    using hstr.get_last_spec [OF 1(2)] 1(3) by (auto simp: op_flags)
  have s: "holds (snd (lru_tree_steal_last ?lt)) (drop_behind xs)" "\<not> noatime (snd (lru_tree_steal_last ?lt))"
    if "xs \<noteq> []" using hstr.steal_last_spec [OF g(2)] that g(3) by (auto simp: op_flags drop_behind_def)
  obtain p lt1 where p: "lru_tree_get_last lt = (p, lt1)" by (metis surj_pair)
  show ?case
  proof (cases "xs = []")
    case True
    then show ?thesis using g p by (subst resolver_expire.simps, simp add: expire_list.simps)
  next
    case False
    obtain k e where l: "last xs = (k, e)" by (metis surj_pair)
    have e1: "resolver_expire lt oldest n =
      (if oldest \<le> elt_use e then Some (n, lt1) else resolver_expire (snd (lru_tree_steal_last lt1)) oldest (n + 1))"
      using g(1) False l p by (subst resolver_expire.simps) simp
    show ?thesis
    proof (cases "oldest \<le> elt_use e")
      case True
      then show ?thesis using e1 False g p l by (simp add: expire_list.simps)
    next
      case old: False
      have "resolver_expire lt oldest n = resolver_expire (snd (lru_tree_steal_last lt1)) oldest (n + 1)" using e1 old by simp
      moreover have "expire_list oldest xs n = expire_list oldest (drop_behind xs) (n + 1)"
        using old l False by (subst expire_list.simps) simp
      ultimately show ?thesis using 1(1) [OF False _ s [OF False]] old l p by simp
    qed
  qed
qed

lemma expire_list_count: "fst (expire_list oldest xs n) + length (snd (expire_list oldest xs n)) = n + length xs"
proof (induction oldest xs n rule: expire_list.induct)
  case (1 oldest xs n)
  then show ?case using drop_behind_length [of xs] by (subst (1 2) expire_list.simps) auto
qed

lemma expire_list_fresh:
  "\<forall>p \<in> set xs. oldest \<le> elt_use (snd p) \<Longrightarrow>
     fst (expire_list oldest xs n) = n \<and> mset (snd (expire_list oldest xs n)) = mset xs"
  by (cases xs rule: rev_cases) (simp_all add: expire_list.simps)

lemma expire_list_old:
  "\<forall>p \<in> set xs. elt_use (snd p) < oldest \<Longrightarrow> expire_list oldest xs n = (n + length xs, [])"
proof (induction oldest xs n rule: expire_list.induct)
  case (1 oldest xs n)
  show ?case
  proof (cases "xs = []")
    case False
    then have "\<not> oldest \<le> elt_use (snd (last xs))" using "1.prems" last_in_set by force
    moreover have "\<forall>p \<in> set (drop_behind xs). elt_use (snd p) < oldest"
      using "1.prems" drop_behind_set [OF False] by blast
    ultimately show ?thesis using "1.IH" False drop_behind_length [OF False] by (subst expire_list.simps) auto
  qed (simp add: expire_list.simps)
qed

lemma LRU_expire_spec:
  assumes "resolver_ok r" and "holds (lru_of r sel) xs"
  shows "\<exists>r'. LRU_expire sel r = Some (if le_ttl (ext_of r sel) > 0 then fst (expire_list (bogonow r - le_ttl (ext_of r sel)) xs 0) else 0, r') \<and>
    holds (lru_of r' sel) (if le_ttl (ext_of r sel) > 0 then snd (expire_list (bogonow r - le_ttl (ext_of r sel)) xs 0) else xs) \<and>
    resolver_ok r' \<and> (\<forall>sel'. sel' \<noteq> sel \<longrightarrow> ext_of r' sel' = ext_of r sel') \<and> bogonow r' = bogonow r"
proof (cases "le_ttl (ext_of r sel) > 0")
  case True
  obtain lt' where lt: "resolver_expire (lru_of r sel) (bogonow r - le_ttl (ext_of r sel)) 0 =
      Some (fst (expire_list (bogonow r - le_ttl (ext_of r sel)) xs 0), lt')"
    "holds lt' (snd (expire_list (bogonow r - le_ttl (ext_of r sel)) xs 0))" "\<not> noatime lt'"
    using expire_spec [OF assms(2) ok_atime [OF assms(1)]] by blast
  then show ?thesis using True ok_set_lru [OF assms(1) lt(2,3)]
    by (intro exI [of _ "set_lru sel lt' r"]) (simp add: LRU_expire_def Let_def set_lru_def)
next
  case False
  then show ?thesis using assms by (intro exI [of _ r]) (simp add: LRU_expire_def)
qed

lemma hc_resolver_expire_spec:
  assumes "resolver_ok r" and "holds (lru_of r CSM0) xs" and "holds (lru_of r SERVICES) ys"
  defines "ex \<equiv> (\<lambda>sel zs. if le_ttl (ext_of r sel) > 0 then expire_list (bogonow r - le_ttl (ext_of r sel)) zs 0 else (0, zs))"
  shows "\<exists>r'. hc_resolver_expire r = Some (fst (ex CSM0 xs) + fst (ex SERVICES ys), r') \<and>
    holds (lru_of r' CSM0) (snd (ex CSM0 xs)) \<and> holds (lru_of r' SERVICES) (snd (ex SERVICES ys)) \<and> resolver_ok r'"
proof -
  obtain r1 where r1: "LRU_expire CSM0 r = Some (fst (ex CSM0 xs), r1)" "holds (lru_of r1 CSM0) (snd (ex CSM0 xs))"
    "resolver_ok r1" "ext_of r1 SERVICES = ext_of r SERVICES" "bogonow r1 = bogonow r"
    using LRU_expire_spec [OF assms(1,2)] unfolding ex_def by (auto split: if_splits)
  obtain r2 where r2: "LRU_expire SERVICES r1 = Some (fst (ex SERVICES ys), r2)" "holds (lru_of r2 SERVICES) (snd (ex SERVICES ys))"
    "resolver_ok r2" "ext_of r2 CSM0 = ext_of r1 CSM0"
    using LRU_expire_spec [OF r1(3), of SERVICES ys] assms(3) r1(4,5) unfolding ex_def by (auto split: if_splits)
  show ?thesis using r1 r2 by (intro exI [of _ r2]) (simp add: hc_resolver_expire_def)
qed

text \<open>
  C36: the expiration ends, whatever the two caches hold, and returns the number of entries it
  removed from them. Of a cache without a time to live, or of which no entry has reached it,
  nothing is removed; of a cache all the entries of which have reached it, everything is.
\<close>

theorem expiration_ends:
  assumes "resolver_ok r" and "holds (lru_of r CSM0) (xs CSM0)" and "holds (lru_of r SERVICES) (xs SERVICES)"
  shows "\<exists>n r' zs. hc_resolver_expire r = Some (n, r') \<and> n + length (zs CSM0) + length (zs SERVICES) = length (xs CSM0) + length (xs SERVICES) \<and>
    (\<forall>sel. holds (lru_of r' sel) (zs sel) \<and>
      (le_ttl (ext_of r sel) \<le> 0 \<or> (\<forall>p \<in> set (xs sel). bogonow r - le_ttl (ext_of r sel) \<le> elt_use (snd p)) \<longrightarrow> mset (zs sel) = mset (xs sel)) \<and>
      (le_ttl (ext_of r sel) > 0 \<and> (\<forall>p \<in> set (xs sel). elt_use (snd p) < bogonow r - le_ttl (ext_of r sel)) \<longrightarrow> zs sel = []))"
proof -
  define ex where "ex = (\<lambda>sel. if le_ttl (ext_of r sel) > 0 then expire_list (bogonow r - le_ttl (ext_of r sel)) (xs sel) 0 else (0, xs sel))"
  obtain r' where r': "hc_resolver_expire r = Some (fst (ex CSM0) + fst (ex SERVICES), r')" "holds (lru_of r' CSM0) (snd (ex CSM0))"
    "holds (lru_of r' SERVICES) (snd (ex SERVICES))"
    using hc_resolver_expire_spec [OF assms] unfolding ex_def by blast
  have n: "fst (ex sel) + length (snd (ex sel)) = length (xs sel)" for sel
    using expire_list_count [of _ "xs sel" 0] by (simp add: ex_def)
  have "holds (lru_of r' sel) (snd (ex sel))" for sel using r'(2,3) by (cases sel) simp_all
  moreover have "mset (snd (ex sel)) = mset (xs sel)"
    if "le_ttl (ext_of r sel) \<le> 0 \<or> (\<forall>p \<in> set (xs sel). bogonow r - le_ttl (ext_of r sel) \<le> elt_use (snd p))" for sel
    using that expire_list_fresh [of "xs sel"] by (auto simp: ex_def)
  moreover have "snd (ex sel) = []"
    if "le_ttl (ext_of r sel) > 0 \<and> (\<forall>p \<in> set (xs sel). elt_use (snd p) < bogonow r - le_ttl (ext_of r sel))" for sel
    using that expire_list_old [of "xs sel"] by (simp add: ex_def)
  ultimately show ?thesis using r'(1) n [of CSM0] n [of SERVICES]
    by (intro exI [of _ "fst (ex CSM0) + fst (ex SERVICES)"] exI [of _ r'] exI [of _ "\<lambda>sel. snd (ex sel)"]) auto
qed

text \<open>A resolver whose cache of services has been given some entries.\<close>

definition stored_at :: "(string \<times> int) list \<Rightarrow> hc_resolver" where
  "stored_at l = foldl (\<lambda>r (k, t). hc_resolver_store (hc_resolver_set_now t r) SERVICES (hashstr_printf k) [k]) (hc_resolver_create1 0) l"

abbreviation entry_at :: "string \<Rightarrow> int \<Rightarrow> hashstr \<times> cached_element" where
  "entry_at k t \<equiv> (hashstr_printf k, (hc_resolver_element_create [k])\<lparr>elt_use := t\<rparr>)"

definition stored_ok :: "hc_resolver \<Rightarrow> (hashstr \<times> cached_element) list \<Rightarrow> bool" where
  "stored_ok r xs \<longleftrightarrow> resolver_ok r \<and> r_flags r = 0 \<and> holds (lru_of r SERVICES) xs \<and> holds (lru_of r CSM0) [] \<and>
     le_ttl (csm0 r) = 0 \<and> le_max (csm0 r) = 0 \<and> le_ttl (services r) = 3600 \<and> le_max (services r) = 200000"

lemma stored_at_Nil: "stored_ok (stored_at []) []"
  using created_ok [of 0] hstr.represents_create by (simp add: stored_ok_def stored_at_def hc_resolver_create1_def)

lemma stored_at_snoc:
  assumes "stored_ok (stored_at l) xs" and "NUL \<notin> set k" and "length k < 2 ^ 32" and "hashstr_printf k \<notin> fst ` set xs"
  shows "stored_ok (stored_at (l @ [(k, t)])) (entry_at k t # xs)" and "bogonow (stored_at (l @ [(k, t)])) = t"
proof -
  let ?r = "(stored_at l)\<lparr>bogonow := t\<rparr>"
  let ?lt = "lru_tree_insert hashstr_quick_cmp (lru_of (stored_at l) SERVICES) (hashstr_printf k) (snd (entry_at k t))"
  note ok = assms(1) [unfolded stored_ok_def]
  have w: "hashstr_wf (hashstr_printf k)" using assms(2,3) by (rule printf_wf)
  then have s: "stored_at (l @ [(k, t)]) = set_lru SERVICES ?lt ?r"
    using ok by (simp add: stored_at_def hc_resolver_store_def hc_resolver_set_now_def hashstr_dup_wf Let_def)
  have e: "ext_of ?r sel = ext_of (stored_at l) sel" for sel by (cases sel) simp_all
  have i: "holds ?lt (entry_at k t # xs)"
    using hstr.insert_spec [of "lru_of (stored_at l) SERVICES" xs "hashstr_printf k"] ok w filter_keys_id [OF assms(4)]
    by (simp add: without_def)
  have "resolver_ok ?r" using ok unfolding resolver_ok_def e by blast
  from ok_set_lru [OF this i, of SERVICES] have "resolver_ok (set_lru SERVICES ?lt ?r)"
    using ok ok_atime [of "stored_at l" SERVICES] by (simp add: op_flags)
  then show "stored_ok (stored_at (l @ [(k, t)])) (entry_at k t # xs)" "bogonow (stored_at (l @ [(k, t)])) = t"
    unfolding s stored_ok_def using i ok by (simp_all add: set_lru_def)
qed

text \<open>Two and three services stored at different times, and the state of the resolver then.\<close>

definition two :: "int \<Rightarrow> int \<Rightarrow> hc_resolver" where
  "two t1 t2 = stored_at [(''a'', t1), (''b'', t2)]"

definition three :: "int \<Rightarrow> int \<Rightarrow> int \<Rightarrow> hc_resolver" where
  "three t1 t2 t3 = stored_at [(''a'', t1), (''b'', t2), (''c'', t3)]"

lemma printf_eq_iff: "hashstr_printf s = hashstr_printf t \<longleftrightarrow> s = t"
  by (auto simp: hashstr_printf_def hashstr_create_from_gstring_def hashstr_create_len_def)

lemma two_stored:
  "stored_ok (two t1 t2) [entry_at ''b'' t2, entry_at ''a'' t1]"
  "bogonow (two t1 t2) = t2"
proof -
  note a = stored_at_snoc(1) [OF stored_at_Nil, of "''a''" t1]
  have a: "stored_ok (stored_at [(''a'', t1)]) [entry_at ''a'' t1]" using a by (simp add: NUL_def)
  show "stored_ok (two t1 t2) [entry_at ''b'' t2, entry_at ''a'' t1]" "bogonow (two t1 t2) = t2"
    using stored_at_snoc [OF a, of "''b''" t2] by (simp_all add: NUL_def printf_eq_iff two_def)
qed

lemma three_stored:
  "stored_ok (three t1 t2 t3) [entry_at ''c'' t3, entry_at ''b'' t2, entry_at ''a'' t1]"
  "bogonow (three t1 t2 t3) = t3"
  using stored_at_snoc [OF two_stored(1) [of t1 t2, unfolded two_def], of "''c''" t3]
  by (simp_all add: NUL_def printf_eq_iff three_def)

theorem expiration_ends_witness:
  "\<exists>r' zs. hc_resolver_expire (three 10 20 30) = Some (0, r') \<and> holds (lru_of r' SERVICES) zs \<and> length zs = 3"
proof -
  let ?xs = "\<lambda>sel. case sel of CSM0 \<Rightarrow> [] | SERVICES \<Rightarrow> [entry_at ''c'' 30, entry_at ''b'' 20, entry_at ''a'' 10]"
  note t = three_stored [of 10 20 30, unfolded stored_ok_def]
  have "resolver_ok (three 10 20 30)" "holds (lru_of (three 10 20 30) CSM0) (?xs CSM0)"
    "holds (lru_of (three 10 20 30) SERVICES) (?xs SERVICES)" using t by simp_all
  from expiration_ends [OF this] show ?thesis
    apply (elim exE)
    subgoal premises e for n r' zs
    proof -
      have "holds (lru_of r' SERVICES) (zs SERVICES)" "mset (zs SERVICES) = mset (?xs SERVICES)"
        using e [THEN conjunct2, THEN conjunct2, THEN spec, of SERVICES] t by simp_all
      then show ?thesis using e [THEN conjunct1] e [THEN conjunct2, THEN conjunct1] mset_eq_length [of "zs SERVICES" "?xs SERVICES"]
        by (intro exI [of _ r'] exI [of _ "zs SERVICES"]) simp
    qed
    done
qed

text \<open>
  C37: the expiration removes the wrong entry. The entries of the cache of the services are given from
  the least recently used one, \<open>a\<close>, that has reached its time to live, and the third one, if
  there is one, has not. With three entries or more the one removed is the
  second, \<open>b\<close>, whatever its age: \<open>a\<close> stays, ahead of the others but for the third. With two
  both are removed, whatever the age of \<open>b\<close>. A single entry is removed as it should be.
\<close>

theorem expiration_drops_the_next:
  assumes "resolver_ok r" and "holds (lru_of r CSM0) xs" and "le_ttl (csm0 r) = 0" and "le_ttl (services r) > 0"
    and "holds (lru_of r SERVICES) (rev (a # zs))"
    and "elt_use (snd a) < bogonow r - le_ttl (services r)"
    and "\<forall>b c ys. zs = b # c # ys \<longrightarrow> bogonow r - le_ttl (services r) \<le> elt_use (snd c)"
  shows "\<exists>r'. case zs of
      [] \<Rightarrow> hc_resolver_expire r = Some (1, r') \<and> holds (lru_of r' SERVICES) []
    | [b] \<Rightarrow> hc_resolver_expire r = Some (2, r') \<and> holds (lru_of r' SERVICES) []
    | b # c # ys \<Rightarrow> hc_resolver_expire r = Some (1, r') \<and> holds (lru_of r' SERVICES) (c # a # rev ys)"
proof -
  let ?o = "bogonow r - le_ttl (services r)"
  have one: "expire_list ?o [a] n = (n + 1, [])" for n
    using expire_list_old [of "[a]" ?o n] assms(6) by simp
  have two: "expire_list ?o [b, a] n = (n + 2, [])" for b n
    using one [of "n + 1"] assms(6) by (subst expire_list.simps) (simp add: drop_behind_def)
  have three: "expire_list ?o (rev ys @ [c, b, a]) 0 = (1, c # a # rev ys)" if "zs = b # c # ys" for b c ys
  proof -
    have "expire_list ?o (rev ys @ [c, b, a]) 0 = expire_list ?o (a # rev ys @ [c]) 1"
      using assms(6) by (subst expire_list.simps) (simp add: drop_behind_def butlast_append)
    also have "\<dots> = (1, c # a # rev ys)" using assms(7) [rule_format, OF that] by (subst expire_list.simps) (simp add: butlast_append)
    finally show ?thesis .
  qed
  note E = hc_resolver_expire_spec [OF assms(1,2,5)] assms(3,4)
  show ?thesis
  proof (cases zs rule: remdups_adj.cases)
    case 1
    then show ?thesis using E one [of 0] by auto
  next
    case (2 b)
    then show ?thesis using E two [of b 0] by auto
  next
    case (3 b c ys)
    then show ?thesis using E three [OF 3] by auto
  qed
qed

theorem expiration_drops_the_next_witness:
  "(\<exists>r'. hc_resolver_expire (three 0 10000 10001) = Some (1, r') \<and>
     holds (lru_of r' SERVICES) [entry_at ''c'' 10001, entry_at ''a'' 0]) \<and>
   (\<exists>r'. hc_resolver_expire (two 0 10000) = Some (2, r') \<and> holds (lru_of r' SERVICES) [])"
proof -
  note t = three_stored [of 0 10000 10001, unfolded stored_ok_def] and u = two_stored [of 0 10000, unfolded stored_ok_def]
  show ?thesis
    using expiration_drops_the_next [of "three 0 10000 10001" "[]" "entry_at ''a'' 0" "[entry_at ''b'' 10000, entry_at ''c'' 10001]"]
      expiration_drops_the_next [of "two 0 10000" "[]" "entry_at ''a'' 0" "[entry_at ''b'' 10000]"] t u
    by simp
qed

lemma count_holds: "holds lt xs \<Longrightarrow> lru_tree_count lt = int (length xs)"
  by (rule hstr.represents_count)

lemma purge_spec:
  assumes "holds lt xs" and "\<not> noatime lt"
  shows "\<exists>lt'. resolver_purge lt umax n = Some (n + (length xs - umax), lt') \<and> holds lt' (take umax xs) \<and> \<not> noatime lt'"
  using assms
proof (induction "length xs" arbitrary: xs lt n)
  case 0
  then show ?case by (subst resolver_purge.simps) (simp add: count_holds)
next
  case (Suc m)
  show ?case
  proof (cases "umax < length xs")
    case True
    have s: "holds (snd (lru_tree_steal_last lt)) (butlast xs)" "\<not> noatime (snd (lru_tree_steal_last lt))"
      using hstr.steal_last_spec [OF Suc.prems(1)] Suc.hyps(2) Suc.prems(2) by (auto simp: op_flags)
    have "take umax (butlast xs) = take umax xs" using True by (simp add: take_butlast)
    moreover have "n + 1 + (length (butlast xs) - umax) = n + (length xs - umax)" using True by simp
    ultimately show ?thesis using Suc.hyps(1) [OF _ s, of "n + 1"] Suc.hyps(2) True
      by (subst resolver_purge.simps) (simp add: count_holds [OF Suc.prems(1)] del: add_Suc_right add_Suc)
  next
    case False
    then show ?thesis using Suc.prems by (subst resolver_purge.simps) (simp add: count_holds)
  qed
qed

lemma LRU_purge_spec:
  assumes "resolver_ok r" and "holds (lru_of r sel) xs"
  shows "\<exists>r'. LRU_purge sel r = Some (if le_max (ext_of r sel) > 0 then length xs - le_max (ext_of r sel) else 0, r') \<and>
    holds (lru_of r' sel) (if le_max (ext_of r sel) > 0 then take (le_max (ext_of r sel)) xs else xs) \<and>
    resolver_ok r' \<and> (\<forall>sel'. sel' \<noteq> sel \<longrightarrow> ext_of r' sel' = ext_of r sel')"
proof (cases "le_max (ext_of r sel) > 0")
  case True
  obtain lt' where lt: "resolver_purge (lru_of r sel) (le_max (ext_of r sel)) 0 = Some (length xs - le_max (ext_of r sel), lt')"
    "holds lt' (take (le_max (ext_of r sel)) xs)" "\<not> noatime lt'"
    using purge_spec [OF assms(2) ok_atime [OF assms(1)], of "le_max (ext_of r sel)" 0] by auto
  then show ?thesis using True ok_set_lru [OF assms(1) lt(2,3)]
    by (intro exI [of _ "set_lru sel lt' r"]) (simp add: LRU_purge_def Let_def set_lru_def)
next
  case False
  then show ?thesis using assms by (intro exI [of _ r]) (simp add: LRU_purge_def)
qed

text \<open>
  C38: the purge brings a cache down to its maximum. It ends and, when both caches have a
  maximum, leaves in each the entries most recently used, in order, at most as many as
  the maximum; the result is the number of the entries removed from the two caches.
\<close>

theorem purge_keeps_most_recent:
  assumes "resolver_ok r" and "holds (lru_of r CSM0) xs" and "holds (lru_of r SERVICES) ys"
    and "le_max (csm0 r) > 0" and "le_max (services r) > 0"
  shows "\<exists>r'. hc_resolver_purge r = Some ((length xs - le_max (csm0 r)) + (length ys - le_max (services r)), r') \<and>
    holds (lru_of r' CSM0) (take (le_max (csm0 r)) xs) \<and> holds (lru_of r' SERVICES) (take (le_max (services r)) ys) \<and>
    fst (st_csm0 (hc_resolver_info r')) \<le> int (le_max (csm0 r)) \<and> fst (st_services (hc_resolver_info r')) \<le> int (le_max (services r))"
proof -
  obtain r1 where r1: "LRU_purge CSM0 r = Some (length xs - le_max (csm0 r), r1)" "holds (lru_of r1 CSM0) (take (le_max (csm0 r)) xs)"
    "resolver_ok r1" "ext_of r1 SERVICES = ext_of r SERVICES"
    using LRU_purge_spec [OF assms(1,2)] assms(4) by auto
  obtain r2 where r2: "LRU_purge SERVICES r1 = Some (length ys - le_max (services r), r2)"
    "holds (lru_of r2 SERVICES) (take (le_max (services r)) ys)" "ext_of r2 CSM0 = ext_of r1 CSM0"
    using LRU_purge_spec [OF r1(3), of SERVICES ys] assms(3,5) r1(4) by auto
  have c: "holds (lru_of r2 CSM0) (take (le_max (csm0 r)) xs)" using r1(2) r2(3) by simp
  show ?thesis using r1(1) r2(1,2) c count_holds [OF c] count_holds [OF r2(2)]
    by (intro exI [of _ r2]) (simp add: hc_resolver_purge_def hc_resolver_info_def)
qed

theorem purge_keeps_most_recent_witness:
  "\<exists>r'. hc_resolver_purge (hc_resolver_set_max_csm0 1 (hc_resolver_set_max_services 2 (three 1 2 3))) = Some (1, r') \<and>
     holds (lru_of r' SERVICES) [entry_at ''c'' 3, entry_at ''b'' 2]"
proof -
  let ?r = "hc_resolver_set_max_csm0 1 (hc_resolver_set_max_services 2 (three 1 2 3))"
  note t = three_stored [of 1 2 3, unfolded stored_ok_def resolver_ok_def]
  have l: "lru_of ?r sel = lru_of (three 1 2 3) sel" for sel
    by (cases sel) (simp_all add: hc_resolver_set_max_csm0_def hc_resolver_set_max_services_def LRU_set_max_def)
  have m: "le_max (csm0 ?r) = 1" "le_max (services ?r) = 2"
    by (simp_all add: hc_resolver_set_max_csm0_def hc_resolver_set_max_services_def LRU_set_max_def)
  have ok: "resolver_ok ?r" "holds (lru_of ?r CSM0) []" "holds (lru_of ?r SERVICES) [entry_at ''c'' 3, entry_at ''b'' 2, entry_at ''a'' 1]"
    using t unfolding resolver_ok_def l by blast+
  show ?thesis using purge_keeps_most_recent [OF ok] m by (auto simp: numeral_2_eq_2)
qed

end
