(* ===== verification/Base_Cache.thy ===== *)
theory Base_Cache
  imports Metautils
begin

section \<open>The cache of open bases\<close>

text \<open>
  Models \<open>sqliterepo/cache.c\<close>: a fixed array of slots, each for an open base, in doubly linked
  lists by status (indices in the array, -1 for none), and a tree from the names of the bases
  to the slots. A pointer to a slot is its index. A function that releases the lock of the
  cache in the middle, to wait or to run the close hook, is cut there: \<open>_begin\<close> is what runs
  before and \<open>_end\<close> what runs after, and the theory \<open>Base_Cache_Threads\<close> puts the pieces of all
  threads together. The clock is the parameter \<open>C\<close>, read by the number of the call. The
  signals sent and the handles given to the close hook are recorded.
\<close>

subsection \<open>Types\<close>

type_synonym thread = nat
type_synonym handle = nat

datatype sqlx_base_status =
    STATUS_NONE | SQLX_BASE_FREE | SQLX_BASE_IDLE | SQLX_BASE_IDLE_HOT | SQLX_BASE_USED | SQLX_BASE_CLOSING

record sqlx_base =
  b_name :: "hashstr option"
  b_owner :: "thread option"
  b_cond :: nat
  b_handle :: "handle option"
  last_update :: gtimeval
  link_prev :: int
  link_next :: int
  heat :: u32
  count_open :: u32
  count_waiting :: int
  b_index :: int
  b_status :: sqlx_base_status

record beacon =
  b_first :: int
  b_last :: int

text \<open>The last three fields are the clock and the two records of effects.\<close>

record sqlx_cache =
  used :: bool
  bases_by_name :: "(hashstr, int) gtree"
  bases_count :: nat
  bases :: "sqlx_base list"
  cond_count :: nat
  open_timeout :: int
  max_waiting :: int
  heat_threshold :: u32
  cool_grace_delay :: int
  hot_grace_delay :: int
  beacon_free :: beacon
  beacon_idle :: beacon
  beacon_idle_hot :: beacon
  beacon_used :: beacon
  close_hook :: bool
  c_tick :: nat
  c_signals :: "nat list"
  c_closed :: "handle option list"

definition SQLX_MAX_BASES :: nat where "SQLX_MAX_BASES = 2048"

definition SQLX_MAX_COND :: nat where "SQLX_MAX_COND = 64"

definition SQLX_GRACE_DELAY_COOL :: int where "SQLX_GRACE_DELAY_COOL = 30"

definition SQLX_GRACE_DELAY_HOT :: int where "SQLX_GRACE_DELAY_HOT = 300"

definition DEFAULT_CACHE_OPEN_TIMEOUT :: int where "DEFAULT_CACHE_OPEN_TIMEOUT = 15000"

definition DEFAULT_CACHE_MAX_WAITING :: int where "DEFAULT_CACHE_MAX_WAITING = 8"

definition CODE_UNAVAILABLE :: gerror where "CODE_UNAVAILABLE = 503"

definition BEACON_RESET :: beacon where
  "BEACON_RESET = \<lparr>b_first = -1, b_last = -1\<rparr>"

text \<open>Which list a function works on.\<close>

datatype blist = L_FREE | L_IDLE | L_IDLE_HOT | L_USED

fun beacon_of :: "sqlx_cache \<Rightarrow> blist \<Rightarrow> beacon" where
  "beacon_of c L_FREE = beacon_free c"
| "beacon_of c L_IDLE = beacon_idle c"
| "beacon_of c L_IDLE_HOT = beacon_idle_hot c"
| "beacon_of c L_USED = beacon_used c"

fun set_beacon :: "blist \<Rightarrow> beacon \<Rightarrow> sqlx_cache \<Rightarrow> sqlx_cache" where
  "set_beacon L_FREE b c = c\<lparr>beacon_free := b\<rparr>"
| "set_beacon L_IDLE b c = c\<lparr>beacon_idle := b\<rparr>"
| "set_beacon L_IDLE_HOT b c = c\<lparr>beacon_idle_hot := b\<rparr>"
| "set_beacon L_USED b c = c\<lparr>beacon_used := b\<rparr>"

definition GET :: "sqlx_cache \<Rightarrow> nat \<Rightarrow> sqlx_base" where
  "GET c i = bases c ! i"

definition set_base :: "nat \<Rightarrow> (sqlx_base \<Rightarrow> sqlx_base) \<Rightarrow> sqlx_cache \<Rightarrow> sqlx_cache" where
  "set_base i f c = c\<lparr>bases := (bases c)[i := f (GET c i)]\<rparr>"

definition g_cond_signal :: "nat \<Rightarrow> sqlx_cache \<Rightarrow> sqlx_cache" where
  "g_cond_signal b c = c\<lparr>c_signals := c_signals c @ [b_cond (GET c b)]\<rparr>"

subsection \<open>The lists\<close>

definition base_id_out :: "sqlx_cache \<Rightarrow> int \<Rightarrow> bool" where
  "base_id_out c bd \<longleftrightarrow> bd < 0 \<or> bd \<ge> int (bases_count c)"

definition sqlx_get_by_id :: "sqlx_cache \<Rightarrow> int \<Rightarrow> nat option" where
  "sqlx_get_by_id c i = (if base_id_out c i then None else Some (nat i))"

definition sqlx_next_by_id :: "sqlx_cache \<Rightarrow> int \<Rightarrow> nat option" where
  "sqlx_next_by_id c i =
     (case sqlx_get_by_id c i of Some current \<Rightarrow> sqlx_get_by_id c (link_next (GET c current)) | None \<Rightarrow> None)"

definition sqlx_prev_by_id :: "sqlx_cache \<Rightarrow> int \<Rightarrow> nat option" where
  "sqlx_prev_by_id c i =
     (case sqlx_get_by_id c i of Some current \<Rightarrow> sqlx_get_by_id c (link_prev (GET c current)) | None \<Rightarrow> None)"

definition sqlx_base_get_id :: "sqlx_cache \<Rightarrow> nat option \<Rightarrow> int" where
  "sqlx_base_get_id c b = (case b of Some i \<Rightarrow> b_index (GET c i) | None \<Rightarrow> -1)"

text \<open>The update of the beacon that \<open>SQLX_REMOVE\<close> starts with.\<close>

definition beacon_without :: "sqlx_cache \<Rightarrow> nat \<Rightarrow> beacon \<Rightarrow> beacon" where
  "beacon_without c base bc =
     (let bc = (if b_first bc = b_index (GET c base)
                then bc\<lparr>b_first := sqlx_base_get_id c (sqlx_next_by_id c (b_first bc))\<rparr> else bc)
      in if b_last bc = b_index (GET c base)
         then bc\<lparr>b_last := sqlx_base_get_id c (sqlx_prev_by_id c (b_last bc))\<rparr> else bc)"

definition SQLX_REMOVE :: "nat \<Rightarrow> blist \<Rightarrow> sqlx_cache \<Rightarrow> sqlx_cache" where
  "SQLX_REMOVE base w c =
     (let c = set_beacon w (beacon_without c base (beacon_of c w)) c;
          next = sqlx_get_by_id c (link_next (GET c base));
          prev = sqlx_get_by_id c (link_prev (GET c base));
          c = (case prev of Some p \<Rightarrow> set_base p (\<lambda>b. b\<lparr>link_next := sqlx_base_get_id c next\<rparr>) c | None \<Rightarrow> c);
          c = (case next of Some n \<Rightarrow> set_base n (\<lambda>b. b\<lparr>link_prev := sqlx_base_get_id c prev\<rparr>) c | None \<Rightarrow> c)
      in set_base base (\<lambda>b. b\<lparr>b_status := STATUS_NONE, link_prev := -1, link_next := -1\<rparr>) c)"

definition SQLX_UNSHIFT ::
  "(nat \<Rightarrow> gtimeval) \<Rightarrow> nat \<Rightarrow> blist \<Rightarrow> sqlx_base_status \<Rightarrow> sqlx_cache \<Rightarrow> sqlx_cache" where
  "SQLX_UNSHIFT C base w status c =
     (let bc = beacon_of c w;
          c = set_base base (\<lambda>b. b\<lparr>link_prev := -1, link_next := b_first bc\<rparr>) c;
          ix = b_index (GET c base);
          c = (case sqlx_get_by_id c (b_first bc) of
                 Some first \<Rightarrow> set_base first (\<lambda>b. b\<lparr>link_prev := ix\<rparr>) c
               | None \<Rightarrow> c);
          bc = bc\<lparr>b_first := ix\<rparr>;
          bc = (if b_last bc < 0 then bc\<lparr>b_last := ix\<rparr> else bc);
          c = set_beacon w bc c;
          c = set_base base (\<lambda>b. b\<lparr>b_status := status, last_update := C (c_tick c)\<rparr>) c
      in c\<lparr>c_tick := c_tick c + 1\<rparr>)"

definition sqlx_save_id :: "nat \<Rightarrow> sqlx_cache \<Rightarrow> sqlx_cache" where
  "sqlx_save_id base c =
     c\<lparr>bases_by_name := g_tree_replace hashstr_quick_cmp (bases_by_name c) (the (b_name (GET c base)))
         (b_index (GET c base) + 1)\<rparr>"

definition sqlx_lookup_id :: "sqlx_cache \<Rightarrow> hashstr \<Rightarrow> int" where
  "sqlx_lookup_id c hs =
     (case g_tree_lookup hashstr_quick_cmp (bases_by_name c) hs of None \<Rightarrow> -1 | Some p \<Rightarrow> p - 1)"

definition sqlx_base_remove_from_list :: "nat \<Rightarrow> sqlx_cache \<Rightarrow> sqlx_cache" where
  "sqlx_base_remove_from_list base c =
     (case b_status (GET c base) of
        SQLX_BASE_FREE \<Rightarrow> SQLX_REMOVE base L_FREE c
      | SQLX_BASE_IDLE \<Rightarrow> SQLX_REMOVE base L_IDLE c
      | SQLX_BASE_IDLE_HOT \<Rightarrow> SQLX_REMOVE base L_IDLE_HOT c
      | SQLX_BASE_USED \<Rightarrow> SQLX_REMOVE base L_USED c
      | SQLX_BASE_CLOSING \<Rightarrow> c
      | STATUS_NONE \<Rightarrow> c)"

definition sqlx_base_add_to_list ::
  "(nat \<Rightarrow> gtimeval) \<Rightarrow> nat \<Rightarrow> sqlx_base_status \<Rightarrow> sqlx_cache \<Rightarrow> sqlx_cache" where
  "sqlx_base_add_to_list C base status c =
     (case status of
        SQLX_BASE_FREE \<Rightarrow> SQLX_UNSHIFT C base L_FREE SQLX_BASE_FREE c
      | SQLX_BASE_IDLE \<Rightarrow> SQLX_UNSHIFT C base L_IDLE SQLX_BASE_IDLE c
      | SQLX_BASE_IDLE_HOT \<Rightarrow> SQLX_UNSHIFT C base L_IDLE_HOT SQLX_BASE_IDLE_HOT c
      | SQLX_BASE_USED \<Rightarrow> SQLX_UNSHIFT C base L_USED SQLX_BASE_USED c
      | SQLX_BASE_CLOSING \<Rightarrow> set_base base (\<lambda>b. b\<lparr>b_status := status\<rparr>) c
      | STATUS_NONE \<Rightarrow> c)"

definition sqlx_base_move_to_list ::
  "(nat \<Rightarrow> gtimeval) \<Rightarrow> nat \<Rightarrow> sqlx_base_status \<Rightarrow> sqlx_cache \<Rightarrow> sqlx_cache" where
  "sqlx_base_move_to_list C base status c =
     (if status \<noteq> b_status (GET c base)
      then sqlx_base_add_to_list C base status (sqlx_base_remove_from_list base c)
      else c)"

subsection \<open>Reservation and expiration\<close>

definition sqlx_poll_free_base :: "sqlx_cache \<Rightarrow> nat option" where
  "sqlx_poll_free_base c = sqlx_get_by_id c (b_first (beacon_free c))"

definition sqlx_base_reserve ::
  "(nat \<Rightarrow> gtimeval) \<Rightarrow> thread \<Rightarrow> hashstr \<Rightarrow> sqlx_cache \<Rightarrow> (gerror + nat) \<times> sqlx_cache" where
  "sqlx_base_reserve C self hs c =
     (case sqlx_poll_free_base c of
        None \<Rightarrow> (Inl 500, c)
      | Some base \<Rightarrow>
          let c = set_base base (\<lambda>b. b\<lparr>b_name := Some (hashstr_dup hs), count_open := 1, b_handle := None,
                                       b_owner := Some self\<rparr>) c;
              c = sqlx_base_move_to_list C base SQLX_BASE_USED c;
              c = sqlx_save_id base c
          in (Inr base, c))"

text \<open>\<open>_expire_base\<close> until it takes the lock again, the close hook included.\<close>

definition expire_base_begin :: "(nat \<Rightarrow> gtimeval) \<Rightarrow> nat \<Rightarrow> sqlx_cache \<Rightarrow> sqlx_cache" where
  "expire_base_begin C b c =
     (let handle = b_handle (GET c b);
          c = sqlx_base_move_to_list C b SQLX_BASE_CLOSING c;
          c = g_cond_signal b c
      in if close_hook c then c\<lparr>c_closed := c_closed c @ [handle]\<rparr> else c)"

text \<open>The rest of it; \<open>n\<close> is the name the base had at the beginning.\<close>

definition expire_base_end :: "(nat \<Rightarrow> gtimeval) \<Rightarrow> hashstr \<Rightarrow> nat \<Rightarrow> sqlx_cache \<Rightarrow> sqlx_cache" where
  "expire_base_end C n b c =
     (let c = set_base b (\<lambda>x. x\<lparr>b_handle := None, b_owner := None, b_name := None, count_open := 0,
                                 last_update := 0\<rparr>) c;
          c = sqlx_base_move_to_list C b SQLX_BASE_FREE c
      in c\<lparr>bases_by_name := g_tree_remove hashstr_quick_cmp (bases_by_name c) n\<rparr>)"

definition expire_specific_base_begin ::
  "(nat \<Rightarrow> gtimeval) \<Rightarrow> thread \<Rightarrow> gtimeval option \<Rightarrow> int \<Rightarrow> nat \<Rightarrow> sqlx_cache \<Rightarrow> bool \<times> sqlx_cache" where
  "expire_specific_base_begin C self now grace_delay b c =
     (if (case now of Some t \<Rightarrow> gtv_bigger (last_update (GET c b)) (t + grace_delay * -1000000) | None \<Rightarrow> False)
      then (False, c)
      else let c = set_base b (\<lambda>x. x\<lparr>b_owner := Some self\<rparr>) c;
               c = sqlx_base_move_to_list C b SQLX_BASE_USED c
           in (True, expire_base_begin C b c))"

definition expire_specific_base_end :: "(nat \<Rightarrow> gtimeval) \<Rightarrow> hashstr \<Rightarrow> nat \<Rightarrow> sqlx_cache \<Rightarrow> sqlx_cache" where
  "expire_specific_base_end C n b c = g_cond_signal b (expire_base_end C n b c)"

text \<open>The slot whose expiration began, if any: then the call will return 1, and 0 otherwise.\<close>

definition expire_first_idle_begin ::
  "(nat \<Rightarrow> gtimeval) \<Rightarrow> thread \<Rightarrow> gtimeval option \<Rightarrow> sqlx_cache \<Rightarrow> nat option \<times> sqlx_cache" where
  "expire_first_idle_begin C self now c =
     (let bd_idle = b_last (beacon_idle c);
          (rc, c1) = (if 0 \<le> bd_idle then expire_specific_base_begin C self now (cool_grace_delay c) (nat bd_idle) c
                      else (False, c))
      in if rc then (Some (nat bd_idle), c1)
         else let bd_idle = b_last (beacon_idle_hot c1);
                  (rc, c2) = (if 0 \<le> bd_idle
                              then expire_specific_base_begin C self now (hot_grace_delay c1) (nat bd_idle) c1
                              else (False, c1))
              in (if rc then Some (nat bd_idle) else None, c2))"

subsection \<open>Configuration\<close>

definition zero_base :: sqlx_base where
  "zero_base = \<lparr>b_name = None, b_owner = None, b_cond = 0, b_handle = None, last_update = 0, link_prev = 0,
                link_next = 0, heat = 0, count_open = 0, count_waiting = 0, b_index = 0, b_status = STATUS_NONE\<rparr>"

fun reset_loop :: "(nat \<Rightarrow> gtimeval) \<Rightarrow> nat \<Rightarrow> sqlx_cache \<Rightarrow> sqlx_cache" where
  "reset_loop C 0 c = c"
| "reset_loop C (Suc i) c =
     (let c = set_base (Suc i) (\<lambda>b. b\<lparr>b_index := int (Suc i), link_prev := -1, link_next := -1\<rparr>) c;
          c = SQLX_UNSHIFT C (Suc i) L_FREE SQLX_BASE_FREE c;
          c = set_base (Suc i) (\<lambda>b. b\<lparr>b_cond := Suc i mod cond_count c\<rparr>) c
      in reset_loop C i c)"

text \<open>With no slot at all the loop starts at the largest \<open>guint\<close> and leaves the array.\<close>

definition sqlx_cache_reset_bases :: "(nat \<Rightarrow> gtimeval) \<Rightarrow> nat \<Rightarrow> sqlx_cache \<Rightarrow> sqlx_cache option" where
  "sqlx_cache_reset_bases C mx c =
     (if used c then Some c
      else if mx = 0 then None
      else let c = c\<lparr>beacon_free := BEACON_RESET, beacon_idle := BEACON_RESET, beacon_idle_hot := BEACON_RESET,
                     beacon_used := BEACON_RESET, bases_count := mx, bases := replicate mx zero_base\<rparr>
           in Some (reset_loop C (mx - 1) c))"

definition sqlx_cache_set_max_bases :: "(nat \<Rightarrow> gtimeval) \<Rightarrow> sqlx_cache \<Rightarrow> nat \<Rightarrow> sqlx_cache option" where
  "sqlx_cache_set_max_bases C c mx = sqlx_cache_reset_bases C mx c"

definition sqlx_cache_set_close_hook :: "sqlx_cache \<Rightarrow> bool \<Rightarrow> sqlx_cache" where
  "sqlx_cache_set_close_hook c hook = c\<lparr>close_hook := hook\<rparr>"

definition sqlx_cache_set_open_timeout :: "sqlx_cache \<Rightarrow> int \<Rightarrow> sqlx_cache" where
  "sqlx_cache_set_open_timeout c timeout = c\<lparr>open_timeout := timeout\<rparr>"

definition sqlx_cache_set_max_waiting :: "sqlx_cache \<Rightarrow> int \<Rightarrow> sqlx_cache" where
  "sqlx_cache_set_max_waiting c m = c\<lparr>max_waiting := m\<rparr>"

definition sqlx_cache_init :: "(nat \<Rightarrow> gtimeval) \<Rightarrow> sqlx_cache option" where
  "sqlx_cache_init C =
     sqlx_cache_reset_bases C SQLX_MAX_BASES
       \<lparr>used = False, bases_by_name = [], bases_count = SQLX_MAX_BASES, bases = [], cond_count = SQLX_MAX_COND,
        open_timeout = DEFAULT_CACHE_OPEN_TIMEOUT, max_waiting = DEFAULT_CACHE_MAX_WAITING, heat_threshold = 1,
        cool_grace_delay = SQLX_GRACE_DELAY_COOL, hot_grace_delay = SQLX_GRACE_DELAY_HOT,
        beacon_free = BEACON_RESET, beacon_idle = BEACON_RESET, beacon_idle_hot = BEACON_RESET,
        beacon_used = BEACON_RESET, close_hook = False, c_tick = 0, c_signals = [], c_closed = []\<rparr>"

subsection \<open>Opening and closing\<close>

text \<open>
  How an attempt to open a base ends: with a slot (\<open>None\<close> when the function leaves \<open>*result\<close>
  alone), with an error, at the label \<open>retry\<close> with the lock still held, waiting for a slot that
  is used or being closed, in the close hook of a slot it expires, or in an assertion.
\<close>

datatype open_end =
    Opened "nat option" | Refused gerror | Retry | Wait nat | Wait_closing nat | Hook nat | Abort

definition open_done :: "nat \<Rightarrow> open_end \<Rightarrow> sqlx_cache \<Rightarrow> open_end \<times> sqlx_cache" where
  "open_done base r c = (r, g_cond_signal base c)"

definition open_known ::
  "(nat \<Rightarrow> gtimeval) \<Rightarrow> thread \<Rightarrow> nat \<Rightarrow> sqlx_cache \<Rightarrow> open_end \<times> sqlx_cache" where
  "open_known C self base c =
     (let idle = (let c = sqlx_base_move_to_list C base SQLX_BASE_USED c;
                      c = set_base base (\<lambda>b. b\<lparr>count_open := count_open b + 1, b_owner := Some self\<rparr>) c
                  in open_done base (Opened (Some base)) c)
      in case b_status (GET c base) of
           SQLX_BASE_FREE \<Rightarrow> (Abort, c)
         | SQLX_BASE_IDLE \<Rightarrow> idle
         | SQLX_BASE_IDLE_HOT \<Rightarrow> idle
         | SQLX_BASE_USED \<Rightarrow>
             if b_owner (GET c base) \<noteq> Some self then
               if max_waiting c > 0 \<and> count_waiting (GET c base) \<ge> max_waiting c
               then open_done base (Refused CODE_UNAVAILABLE) c
               else (Wait base, set_base base (\<lambda>b. b\<lparr>count_waiting := count_waiting b + 1\<rparr>) c)
             else
               let c = set_base base (\<lambda>b. b\<lparr>b_owner := Some self, count_open := count_open b + 1\<rparr>) c
               in open_done base (Opened (Some base)) c
         | SQLX_BASE_CLOSING \<Rightarrow> (Wait_closing base, c)
         | STATUS_NONE \<Rightarrow> open_done base (Opened None) c)"

text \<open>One turn from the label \<open>retry\<close>.\<close>

definition open_retry ::
  "(nat \<Rightarrow> gtimeval) \<Rightarrow> thread \<Rightarrow> hashstr \<Rightarrow> sqlx_cache \<Rightarrow> open_end \<times> sqlx_cache" where
  "open_retry C self hname c =
     (let bd = sqlx_lookup_id c hname
      in if bd < 0 then
           (case sqlx_base_reserve C self hname c of
              (Inr base, c) \<Rightarrow> open_done base (Opened (Some base)) c
            | (Inl err, c) \<Rightarrow>
                (case expire_first_idle_begin C self None c of
                   (Some b, c) \<Rightarrow> (Hook b, c)
                 | (None, c) \<Rightarrow> (Retry, c)))
         else open_known C self (nat bd) c)"

definition sqlx_cache_open_begin ::
  "(nat \<Rightarrow> gtimeval) \<Rightarrow> thread \<Rightarrow> hashstr \<Rightarrow> sqlx_cache \<Rightarrow> open_end \<times> sqlx_cache" where
  "sqlx_cache_open_begin C self hname c = open_retry C self hname (c\<lparr>used := True\<rparr>)"

text \<open>After the wait for a used slot: woken up, or at the deadline.\<close>

definition open_woken ::
  "(nat \<Rightarrow> gtimeval) \<Rightarrow> thread \<Rightarrow> hashstr \<Rightarrow> nat \<Rightarrow> sqlx_cache \<Rightarrow> open_end \<times> sqlx_cache" where
  "open_woken C self hname base c =
     open_retry C self hname (set_base base (\<lambda>b. b\<lparr>count_waiting := count_waiting b - 1\<rparr>) c)"

definition open_late :: "nat \<Rightarrow> sqlx_cache \<Rightarrow> open_end \<times> sqlx_cache" where
  "open_late base c =
     open_done base (Refused CODE_UNAVAILABLE) (set_base base (\<lambda>b. b\<lparr>count_waiting := count_waiting b - 1\<rparr>) c)"

text \<open>The same for a slot being closed.\<close>

definition open_late_closing :: "nat \<Rightarrow> sqlx_cache \<Rightarrow> open_end \<times> sqlx_cache" where
  "open_late_closing base c = open_done base (Refused CODE_UNAVAILABLE) c"

text \<open>How a close ends: with an error or none, in the close hook, or in an assertion.\<close>

datatype close_end = Closed "gerror option" | Close_hook nat | Close_abort

definition sqlx_cache_unlock_and_close_begin ::
  "(nat \<Rightarrow> gtimeval) \<Rightarrow> int \<Rightarrow> bool \<Rightarrow> sqlx_cache \<Rightarrow> close_end \<times> sqlx_cache" where
  "sqlx_cache_unlock_and_close_begin C bd force c =
     (if base_id_out c bd then (Closed (Some 500), c)
      else
        let base = nat bd; c = c\<lparr>used := True\<rparr>
        in case b_status (GET c base) of
             SQLX_BASE_USED \<Rightarrow>
               let c = set_base base (\<lambda>b. b\<lparr>count_open := count_open b - 1\<rparr>) c
               in if count_open (GET c base) = 0 then
                    if force then (Close_hook base, expire_base_begin C base c)
                    else let c = set_base base (\<lambda>b. b\<lparr>b_owner := None\<rparr>) c;
                             c = (if heat (GET c base) \<ge> heat_threshold c
                                  then sqlx_base_move_to_list C base SQLX_BASE_IDLE_HOT c
                                  else sqlx_base_move_to_list C base SQLX_BASE_IDLE c)
                         in (Closed None, g_cond_signal base c)
                  else (Closed None, g_cond_signal base c)
           | STATUS_NONE \<Rightarrow> (Closed None, g_cond_signal base c)
           | _ \<Rightarrow> (Close_abort, c))"

definition unlock_and_close_end :: "(nat \<Rightarrow> gtimeval) \<Rightarrow> hashstr \<Rightarrow> nat \<Rightarrow> sqlx_cache \<Rightarrow> sqlx_cache" where
  "unlock_and_close_end C n base c = g_cond_signal base (expire_base_end C n base c)"

text \<open>One turn of the loop of \<open>sqlx_cache_expire\<close>: the count so far, and the slot being closed.\<close>

definition expire_turn ::
  "(nat \<Rightarrow> gtimeval) \<Rightarrow> thread \<Rightarrow> nat \<Rightarrow> gtimeval option \<Rightarrow> nat \<Rightarrow> sqlx_cache \<Rightarrow> nat option \<times> sqlx_cache" where
  "expire_turn C self mx fin nb c =
     (if mx = 0 \<or> nb < mx then
        let now = C (c_tick c); c = c\<lparr>c_tick := c_tick c + 1\<rparr>
        in if (case fin of Some e \<Rightarrow> gtv_bigger now e | None \<Rightarrow> False) then (None, c)
           else expire_first_idle_begin C self (Some now) c
      else (None, c))"

definition sqlx_cache_get_handle :: "sqlx_cache \<Rightarrow> nat \<Rightarrow> handle option" where
  "sqlx_cache_get_handle c bd = b_handle (GET c bd)"

definition sqlx_cache_set_handle :: "nat \<Rightarrow> handle option \<Rightarrow> sqlx_cache \<Rightarrow> sqlx_cache" where
  "sqlx_cache_set_handle bd sq3 c = set_base bd (\<lambda>b. b\<lparr>b_handle := sq3\<rparr>) c"

partial_function (option) count_beacon_loop :: "sqlx_cache \<Rightarrow> int \<Rightarrow> nat \<Rightarrow> nat option" where
  "count_beacon_loop c idx cnt =
     (if idx \<noteq> -1 then count_beacon_loop c (link_next (GET c (nat idx))) (cnt + 1) else Some cnt)"

record cache_counts =
  cc_max :: nat
  cc_cold :: nat
  cc_hot :: nat
  cc_used :: nat

subsection \<open>Chains of slots\<close>

text \<open>
  The slots of a list, in order, between a predecessor and a successor; the links are read by
  two functions, so that the same lemmas serve before and after an update.
\<close>

fun first_i :: "nat list \<Rightarrow> int \<Rightarrow> int" where
  "first_i [] q = q"
| "first_i (a # as) q = int a"

fun last_i :: "int \<Rightarrow> nat list \<Rightarrow> int" where
  "last_i p [] = p"
| "last_i p (a # as) = last_i (int a) as"

fun chain :: "(nat \<Rightarrow> int) \<Rightarrow> (nat \<Rightarrow> int) \<Rightarrow> int \<Rightarrow> nat list \<Rightarrow> int \<Rightarrow> bool" where
  "chain P N p [] q \<longleftrightarrow> True"
| "chain P N p (a # as) q \<longleftrightarrow> P a = p \<and> N a = first_i as q \<and> chain P N (int a) as q"

lemma first_i_append [simp]: "first_i (xs @ ys) q = first_i xs (first_i ys q)"
  by (cases xs) simp_all

lemma last_i_append [simp]: "last_i p (xs @ ys) = last_i (last_i p xs) ys"
  by (induction xs arbitrary: p) simp_all

lemma last_i_last: "xs \<noteq> [] \<Longrightarrow> last_i p xs = int (last xs)"
  by (cases xs rule: rev_cases) simp_all

lemma first_i_hd: "xs \<noteq> [] \<Longrightarrow> first_i xs q = int (hd xs)"
  by (cases xs) simp_all

lemma first_i_in: "first_i xs (-1) = int a \<longleftrightarrow> xs \<noteq> [] \<and> a = hd xs"
  by (cases xs) auto

lemma last_i_in: "last_i (-1) xs = int a \<longleftrightarrow> xs \<noteq> [] \<and> a = last xs"
  by (cases xs rule: rev_cases) auto

lemma chain_append:
  "chain P N p (xs @ ys) q \<longleftrightarrow> chain P N p xs (first_i ys q) \<and> chain P N (last_i p xs) ys q"
  by (induction xs arbitrary: p) auto

lemma chain_cong:
  "\<forall>a \<in> set xs. P' a = P a \<and> N' a = N a \<Longrightarrow> chain P' N' p xs q = chain P N p xs q"
  by (induction xs arbitrary: p) auto

lemma chain_unlink:
  assumes "chain P N p (xs @ a # ys) q" and "distinct (xs @ a # ys)"
    and "\<And>i. i \<in> set (xs @ ys) \<Longrightarrow> P' i = (if ys \<noteq> [] \<and> i = hd ys then last_i p xs else P i)"
    and "\<And>i. i \<in> set (xs @ ys) \<Longrightarrow> N' i = (if xs \<noteq> [] \<and> i = last xs then first_i ys q else N i)"
  shows "chain P' N' p (xs @ ys) q"
proof -
  have c: "chain P N p xs (int a)" "chain P N (int a) ys q" using assms(1) by (simp_all add: chain_append)
  have "chain P' N' p xs (first_i ys q)"
  proof (cases xs rule: rev_cases)
    case (snoc us u)
    have u: "chain P N p us (int u)" "P u = last_i p us" using c(1) by (simp_all add: snoc chain_append)
    have "chain P' N' p us (int u) = chain P N p us (int u)"
      using assms(2,3,4) snoc by (intro chain_cong) (auto simp: hd_append split: if_splits dest: hd_in_set)
    moreover have "P' u = P u" using assms(2) assms(3) [of u] snoc by (cases ys) auto
    moreover have "N' u = first_i ys q" using assms(4) [of u] snoc by simp
    ultimately show ?thesis using u by (simp add: snoc chain_append)
  qed simp
  moreover have "chain P' N' (last_i p xs) ys q"
  proof (cases ys)
    case (Cons v vs)
    have v: "chain P N (int v) vs q" "N v = first_i vs q" using c(2) Cons by simp_all
    have "v \<notin> set vs" "v \<notin> set xs" "\<forall>i \<in> set vs. i \<notin> set xs" using assms(2) Cons by auto
    then have "chain P' N' (int v) vs q = chain P N (int v) vs q"
      using assms(3,4) Cons last_in_set [of xs] by (intro chain_cong) auto
    moreover have "P' v = last_i p xs" using assms(3) [of v] Cons by simp
    moreover have "N' v = N v" using assms(4) [of v] Cons \<open>v \<notin> set xs\<close> last_in_set [of xs] by auto
    ultimately show ?thesis using v Cons by simp
  qed simp
  ultimately show ?thesis by (simp add: chain_append)
qed

lemma chain_push:
  assumes "chain P N (-1) xs q" and "distinct (a # xs)"
    and "\<And>i. i \<in> set xs \<Longrightarrow> P' i = (if xs \<noteq> [] \<and> i = hd xs then int a else P i) \<and> N' i = N i"
    and "P' a = -1" and "N' a = first_i xs q"
  shows "chain P' N' (-1) (a # xs) q"
proof (cases xs)
  case (Cons v vs)
  have "chain P' N' (int v) vs q = chain P N (int v) vs q"
    using assms(2,3) Cons by (intro chain_cong) auto
  then show ?thesis using assms Cons by simp
qed (use assms in simp)

text \<open>A loop along the chain ends.\<close>

lemma count_beacon_loop_chain:
  assumes "chain P (\<lambda>i. link_next (GET c i)) p xs (-1)"
  shows "count_beacon_loop c (first_i xs (-1)) n = Some (n + length xs)"
  using assms
proof (induction xs arbitrary: p n)
  case Nil
  then show ?case by (subst count_beacon_loop.simps) simp
next
  case (Cons a xs)
  then have "link_next (GET c a) = first_i xs (-1)" by simp
  then show ?case using Cons.IH [of "int a" "Suc n"] Cons.prems by (subst count_beacon_loop.simps) simp
qed

subsection \<open>The lists of the cache\<close>

lemma set_base_simps [simp]:
  "used (set_base i f c) = used c" "bases_by_name (set_base i f c) = bases_by_name c"
  "bases_count (set_base i f c) = bases_count c" "cond_count (set_base i f c) = cond_count c"
  "open_timeout (set_base i f c) = open_timeout c" "max_waiting (set_base i f c) = max_waiting c"
  "heat_threshold (set_base i f c) = heat_threshold c" "cool_grace_delay (set_base i f c) = cool_grace_delay c"
  "hot_grace_delay (set_base i f c) = hot_grace_delay c" "beacon_of (set_base i f c) w = beacon_of c w"
  "beacon_free (set_base i f c) = beacon_free c" "beacon_idle (set_base i f c) = beacon_idle c"
  "beacon_idle_hot (set_base i f c) = beacon_idle_hot c" "beacon_used (set_base i f c) = beacon_used c"
  "close_hook (set_base i f c) = close_hook c" "c_tick (set_base i f c) = c_tick c"
  "c_signals (set_base i f c) = c_signals c" "c_closed (set_base i f c) = c_closed c"
  "length (bases (set_base i f c)) = length (bases c)"
  by (cases w; simp add: set_base_def)+

lemma set_beacon_simps [simp]:
  "used (set_beacon w b c) = used c" "bases_by_name (set_beacon w b c) = bases_by_name c"
  "bases_count (set_beacon w b c) = bases_count c" "cond_count (set_beacon w b c) = cond_count c"
  "open_timeout (set_beacon w b c) = open_timeout c" "max_waiting (set_beacon w b c) = max_waiting c"
  "heat_threshold (set_beacon w b c) = heat_threshold c" "cool_grace_delay (set_beacon w b c) = cool_grace_delay c"
  "hot_grace_delay (set_beacon w b c) = hot_grace_delay c"
  "beacon_of (set_beacon w b c) w' = (if w' = w then b else beacon_of c w')"
  "close_hook (set_beacon w b c) = close_hook c" "c_tick (set_beacon w b c) = c_tick c"
  "c_signals (set_beacon w b c) = c_signals c" "c_closed (set_beacon w b c) = c_closed c"
  "bases (set_beacon w b c) = bases c" "GET (set_beacon w b c) = GET c"
  by (cases w; cases w'; simp add: GET_def fun_eq_iff)+

lemma GET_set_base [simp]:
  "i < length (bases c) \<Longrightarrow> GET (set_base i f c) j = (if j = i then f (GET c i) else GET c j)"
  by (simp add: GET_def set_base_def)

lemma GET_cong_simps [simp]:
  "GET (c\<lparr>c_tick := t\<rparr>) = GET c" "GET (c\<lparr>bases_by_name := n\<rparr>) = GET c" "GET (c\<lparr>c_signals := g\<rparr>) = GET c"
  "GET (c\<lparr>c_closed := h\<rparr>) = GET c" "GET (c\<lparr>used := u\<rparr>) = GET c"
  by (simp_all add: GET_def fun_eq_iff)

lemma beacon_of_cong_simps [simp]:
  "beacon_of (c\<lparr>c_tick := t\<rparr>) w = beacon_of c w" "beacon_of (c\<lparr>bases_by_name := n\<rparr>) w = beacon_of c w"
  "beacon_of (c\<lparr>c_signals := g\<rparr>) w = beacon_of c w" "beacon_of (c\<lparr>c_closed := h\<rparr>) w = beacon_of c w"
  "beacon_of (c\<lparr>used := u\<rparr>) w = beacon_of c w"
  by (cases w; simp)+

abbreviation prv :: "sqlx_cache \<Rightarrow> nat \<Rightarrow> int" where
  "prv c i \<equiv> link_prev (GET c i)"

abbreviation nxt :: "sqlx_cache \<Rightarrow> nat \<Rightarrow> int" where
  "nxt c i \<equiv> link_next (GET c i)"

text \<open>The array and the lists it holds.\<close>

definition indexed :: "sqlx_cache \<Rightarrow> bool" where
  "indexed c \<longleftrightarrow> (\<forall>i < bases_count c. b_index (GET c i) = int i)"

definition listed :: "sqlx_cache \<Rightarrow> blist \<Rightarrow> nat list \<Rightarrow> bool" where
  "listed c w xs \<longleftrightarrow>
     distinct xs \<and> set xs \<subseteq> {..<bases_count c} \<and> chain (prv c) (nxt c) (-1) xs (-1) \<and>
     beacon_of c w = \<lparr>b_first = first_i xs (-1), b_last = last_i (-1) xs\<rparr>"

definition chained :: "sqlx_cache \<Rightarrow> (blist \<Rightarrow> nat list) \<Rightarrow> bool" where
  "chained c L \<longleftrightarrow>
     length (bases c) = bases_count c \<and> (\<forall>w. listed c w (L w)) \<and>
     (\<forall>i w w'. i \<in> set (L w) \<longrightarrow> i \<in> set (L w') \<longrightarrow> w = w')"

definition linked :: "sqlx_cache \<Rightarrow> (blist \<Rightarrow> nat list) \<Rightarrow> bool" where
  "linked c L \<longleftrightarrow> chained c L \<and> indexed c"

lemma chainedD:
  assumes "chained c L"
  shows "length (bases c) = bases_count c" "distinct (L w)" "i \<in> set (L w) \<Longrightarrow> i < bases_count c"
    "chain (prv c) (nxt c) (-1) (L w) (-1)"
    "beacon_of c w = \<lparr>b_first = first_i (L w) (-1), b_last = last_i (-1) (L w)\<rparr>"
    "i \<in> set (L w) \<Longrightarrow> i \<in> set (L w') \<Longrightarrow> w = w'"
  using assms by (auto simp: chained_def listed_def)

lemma linkedD:
  assumes "linked c L"
  shows "length (bases c) = bases_count c" "i < bases_count c \<Longrightarrow> b_index (GET c i) = int i"
    "distinct (L w)" "i \<in> set (L w) \<Longrightarrow> i < bases_count c" "chain (prv c) (nxt c) (-1) (L w) (-1)"
    "beacon_of c w = \<lparr>b_first = first_i (L w) (-1), b_last = last_i (-1) (L w)\<rparr>"
    "i \<in> set (L w) \<Longrightarrow> i \<in> set (L w') \<Longrightarrow> w = w'"
  using assms by (auto simp: linked_def chained_def listed_def indexed_def)

lemma get_by_id_first: "set xs \<subseteq> {..<bases_count c} \<Longrightarrow> sqlx_get_by_id c (first_i xs (-1)) = (if xs = [] then None else Some (hd xs))"
  by (cases xs) (auto simp: sqlx_get_by_id_def base_id_out_def)

lemma get_by_id_last: "set xs \<subseteq> {..<bases_count c} \<Longrightarrow> sqlx_get_by_id c (last_i (-1) xs) = (if xs = [] then None else Some (last xs))"
  by (cases xs rule: rev_cases) (auto simp: sqlx_get_by_id_def base_id_out_def)

lemma get_by_id_simps [simp]:
  "sqlx_get_by_id (set_base j f c) = sqlx_get_by_id c" "sqlx_get_by_id (set_beacon w b c) = sqlx_get_by_id c"
  by (simp_all add: sqlx_get_by_id_def base_id_out_def fun_eq_iff)

lemma get_id_set_beacon [simp]: "sqlx_base_get_id (set_beacon w b c) = sqlx_base_get_id c"
  by (simp add: sqlx_base_get_id_def fun_eq_iff split: option.split)

lemma get_id_set_base:
  "j < length (bases c) \<Longrightarrow> b_index (f (GET c j)) = b_index (GET c j) \<Longrightarrow> sqlx_base_get_id (set_base j f c) = sqlx_base_get_id c"
  by (auto simp: sqlx_base_get_id_def fun_eq_iff split: option.split)

lemma get_id_int: "indexed c \<Longrightarrow> i < bases_count c \<Longrightarrow> sqlx_base_get_id c (Some i) = int i"
  by (simp add: sqlx_base_get_id_def indexed_def)

lemma get_id_first: "indexed c \<Longrightarrow> set xs \<subseteq> {..<bases_count c} \<Longrightarrow>
    sqlx_base_get_id c (if xs = [] then None else Some (hd xs)) = first_i xs (-1)"
  by (cases xs) (auto simp: get_id_int, simp add: sqlx_base_get_id_def)

lemma get_id_last: "indexed c \<Longrightarrow> set xs \<subseteq> {..<bases_count c} \<Longrightarrow>
    sqlx_base_get_id c (if xs = [] then None else Some (last xs)) = last_i (-1) xs"
  by (cases xs rule: rev_cases) (auto simp: get_id_int, simp add: sqlx_base_get_id_def)

text \<open>What a slot becomes when the list loses \<open>a\<close>, between \<open>xs\<close> and \<open>ys\<close>.\<close>

definition unlinked :: "sqlx_cache \<Rightarrow> nat list \<Rightarrow> nat \<Rightarrow> nat list \<Rightarrow> nat \<Rightarrow> sqlx_base" where
  "unlinked c xs a ys i =
     (if i = a then (GET c a)\<lparr>b_status := STATUS_NONE, link_prev := -1, link_next := -1\<rparr>
      else (GET c i)\<lparr>link_next := (if xs \<noteq> [] \<and> i = last xs then first_i ys (-1) else nxt c i),
                     link_prev := (if ys \<noteq> [] \<and> i = hd ys then last_i (-1) xs else prv c i)\<rparr>)"

lemma SQLX_REMOVE_spec:
  assumes "linked c L" and "L w = xs @ a # ys"
  shows "GET (SQLX_REMOVE a w c) i = unlinked c xs a ys i"
    and "beacon_of (SQLX_REMOVE a w c) w' =
      (if w' = w then \<lparr>b_first = first_i (xs @ ys) (-1), b_last = last_i (-1) (xs @ ys)\<rparr> else beacon_of c w')"
    and "length (bases (SQLX_REMOVE a w c)) = length (bases c)"
proof -
  note D = linkedD [OF assms(1)]
  have ix: "indexed c" using assms(1) by (simp add: linked_def)
  have sub: "set xs \<subseteq> {..<bases_count c}" "set ys \<subseteq> {..<bases_count c}" "a < bases_count c"
    using D(4) [of _ w] assms(2) by auto
  have d: "distinct (xs @ a # ys)" using D(3) [of w] assms(2) by simp
  have ch: "prv c a = last_i (-1) xs" "nxt c a = first_i ys (-1)"
    using D(5) [of w] assms(2) by (simp_all add: chain_append)
  have bc: "beacon_of c w = \<lparr>b_first = first_i (xs @ a # ys) (-1), b_last = last_i (-1) (xs @ a # ys)\<rparr>"
    using D(6) assms(2) by simp
  have aid: "b_index (GET c a) = int a" using D(2) sub(3) .
  have f: "b_first (beacon_of c w) = int a \<longleftrightarrow> xs = []"
    using d by (cases xs) (auto simp: bc)
  have l: "b_last (beacon_of c w) = int a \<longleftrightarrow> ys = []"
    using d by (cases ys rule: rev_cases) (auto simp: bc)
  have nx: "sqlx_next_by_id c (int a) = (if ys = [] then None else Some (hd ys))"
    using sub ch get_by_id_first [OF sub(2)] by (simp add: sqlx_next_by_id_def sqlx_get_by_id_def base_id_out_def)
  have pv: "sqlx_prev_by_id c (int a) = (if xs = [] then None else Some (last xs))"
    using sub ch get_by_id_last [OF sub(1)] by (simp add: sqlx_prev_by_id_def sqlx_get_by_id_def base_id_out_def)
  have b2: "beacon_without c a (beacon_of c w) = \<lparr>b_first = first_i (xs @ ys) (-1), b_last = last_i (-1) (xs @ ys)\<rparr>"
    using f l nx pv get_id_first [OF ix sub(2)] get_id_last [OF ix sub(1)]
    by (cases "xs = []"; cases "ys = []") (auto simp: beacon_without_def Let_def aid bc last_i_last first_i_hd)
  let ?c1 = "set_beacon w (beacon_without c a (beacon_of c w)) c"
  let ?c2 = "if xs = [] then ?c1 else set_base (last xs) (\<lambda>b. b\<lparr>link_next := first_i ys (-1)\<rparr>) ?c1"
  let ?c3 = "if ys = [] then ?c2 else set_base (hd ys) (\<lambda>b. b\<lparr>link_prev := last_i (-1) xs\<rparr>) ?c2"
  have lx: "xs \<noteq> [] \<Longrightarrow> last xs < length (bases c)" "ys \<noteq> [] \<Longrightarrow> hd ys < length (bases c)"
    using subsetD [OF sub(1)] subsetD [OF sub(2)] D(1) by simp_all
  have g2: "sqlx_base_get_id ?c2 = sqlx_base_get_id c" using lx(1) by (simp add: get_id_set_base)
  have n: "sqlx_get_by_id c (nxt c a) = (if ys = [] then None else Some (hd ys))"
    "sqlx_get_by_id c (prv c a) = (if xs = [] then None else Some (last xs))"
    using ch get_by_id_first [OF sub(2)] get_by_id_last [OF sub(1)] by simp_all
  have r: "SQLX_REMOVE a w c = set_base a (\<lambda>b. b\<lparr>b_status := STATUS_NONE, link_prev := -1, link_next := -1\<rparr>) ?c3"
    using n g2 get_id_first [OF ix sub(2)] get_id_last [OF ix sub(1)]
    by (cases "xs = []"; cases "ys = []") (simp_all add: SQLX_REMOVE_def Let_def)
  show "GET (SQLX_REMOVE a w c) i = unlinked c xs a ys i"
    unfolding r using lx D(1) sub(3) d by (cases "xs = []"; cases "ys = []") (auto simp: unlinked_def)
  show "beacon_of (SQLX_REMOVE a w c) w' =
      (if w' = w then \<lparr>b_first = first_i (xs @ ys) (-1), b_last = last_i (-1) (xs @ ys)\<rparr> else beacon_of c w')"
    unfolding r b2 by simp
  show "length (bases (SQLX_REMOVE a w c)) = length (bases c)" unfolding r by simp
qed

text \<open>The fields that the list operations leave alone.\<close>

definition frame :: "sqlx_cache \<Rightarrow> sqlx_cache" where
  "frame c = c\<lparr>bases := [], beacon_free := BEACON_RESET, beacon_idle := BEACON_RESET,
               beacon_idle_hot := BEACON_RESET, beacon_used := BEACON_RESET, c_tick := 0\<rparr>"

lemma frame_simps [simp]:
  "frame (set_base i f c) = frame c" "frame (set_beacon w b c) = frame c" "frame (c\<lparr>c_tick := t\<rparr>) = frame c"
  by (cases w; simp add: frame_def set_base_def)+

lemma frameD:
  assumes "frame c' = frame c"
  shows "used c' = used c" "bases_by_name c' = bases_by_name c" "bases_count c' = bases_count c"
    "open_timeout c' = open_timeout c" "max_waiting c' = max_waiting c" "heat_threshold c' = heat_threshold c"
    "cool_grace_delay c' = cool_grace_delay c" "hot_grace_delay c' = hot_grace_delay c"
    "close_hook c' = close_hook c" "c_signals c' = c_signals c" "c_closed c' = c_closed c" "cond_count c' = cond_count c"
  using arg_cong [OF assms, of used] arg_cong [OF assms, of bases_by_name] arg_cong [OF assms, of bases_count]
    arg_cong [OF assms, of open_timeout] arg_cong [OF assms, of max_waiting] arg_cong [OF assms, of heat_threshold]
    arg_cong [OF assms, of cool_grace_delay] arg_cong [OF assms, of hot_grace_delay] arg_cong [OF assms, of close_hook]
    arg_cong [OF assms, of c_signals] arg_cong [OF assms, of c_closed] arg_cong [OF assms, of cond_count]
  by (simp_all add: frame_def)

lemma frame_REMOVE [simp]: "frame (SQLX_REMOVE a w c) = frame c"
  by (simp add: SQLX_REMOVE_def Let_def split: option.split)

lemma frame_UNSHIFT [simp]: "frame (SQLX_UNSHIFT C a w st c) = frame c"
  by (simp add: SQLX_UNSHIFT_def Let_def split: option.split)

lemma linked_REMOVE:
  assumes "linked c L" and "a \<in> set (L w)"
  shows "linked (SQLX_REMOVE a w c) (L(w := remove1 a (L w)))"
proof -
  obtain xs ys where s: "L w = xs @ a # ys" using assms(2) split_list by metis
  note D = linkedD [OF assms(1)] and R = SQLX_REMOVE_spec [OF assms(1) s]
  have r: "remove1 a (L w) = xs @ ys" using D(3) [of w] s by (simp add: remove1_append)
  have bcount: "bases_count (SQLX_REMOVE a w c) = bases_count c" using frameD(3) [OF frame_REMOVE] .
  have "indexed (SQLX_REMOVE a w c)" "length (bases (SQLX_REMOVE a w c)) = bases_count (SQLX_REMOVE a w c)"
    using D(1,2) R(3) bcount by (simp_all add: indexed_def R(1) unlinked_def)
  moreover have "listed (SQLX_REMOVE a w c) w' ((L(w := xs @ ys)) w')" for w'
  proof (cases "w' = w")
    case True
    have "chain (prv (SQLX_REMOVE a w c)) (nxt (SQLX_REMOVE a w c)) (-1) (xs @ ys) (-1)"
      using D(3) [of w] s unfolding R(1)
      by (intro chain_unlink [OF D(5) [of w, unfolded s] D(3) [of w, unfolded s]]) (auto simp: unlinked_def)
    then show ?thesis using True D(3) [of w] D(4) [of _ w] s R(2) [of w] by (auto simp: listed_def bcount)
  next
    case False
    have n: "i \<noteq> a \<and> (xs = [] \<or> i \<noteq> last xs) \<and> (ys = [] \<or> i \<noteq> hd ys)" if "i \<in> set (L w')" for i
      using D(7) [of i w' w] that s False last_in_set [of xs] hd_in_set [of ys] by auto
    have "chain (prv (SQLX_REMOVE a w c)) (nxt (SQLX_REMOVE a w c)) (-1) (L w') (-1) = chain (prv c) (nxt c) (-1) (L w') (-1)"
      using n unfolding R(1) by (intro chain_cong) (auto simp: unlinked_def)
    then show ?thesis using False D(3) [of w'] D(4) [of _ w'] D(5) [of w'] D(6) [of w'] R(2) [of w'] by (auto simp: listed_def bcount)
  qed
  moreover have "i \<in> set ((L(w := xs @ ys)) v) \<Longrightarrow> i \<in> set ((L(w := xs @ ys)) v') \<Longrightarrow> v = v'" for i v v'
    using D(7) [of i v v'] s by (auto split: if_splits)
  ultimately show ?thesis unfolding r linked_def chained_def by blast
qed

lemma SQLX_UNSHIFT_spec:
  assumes "chained c L" and "a < bases_count c" and "\<And>w. a \<notin> set (L w)" and "b_index (GET c a) = int a"
  shows "GET (SQLX_UNSHIFT C a w st c) i =
      (if i = a then (GET c a)\<lparr>link_prev := -1, link_next := first_i (L w) (-1), b_status := st, last_update := C (c_tick c)\<rparr>
       else (GET c i)\<lparr>link_prev := (if L w \<noteq> [] \<and> i = hd (L w) then int a else prv c i)\<rparr>)"
    and "beacon_of (SQLX_UNSHIFT C a w st c) w' =
      (if w' = w then \<lparr>b_first = int a, b_last = last_i (-1) (a # L w)\<rparr> else beacon_of c w')"
    and "length (bases (SQLX_UNSHIFT C a w st c)) = length (bases c)"
proof -
  note D = chainedD [OF assms(1)]
  have sub: "set (L w) \<subseteq> {..<bases_count c}" using D(3) [of _ w] by auto
  have hd: "L w \<noteq> [] \<Longrightarrow> hd (L w) < length (bases c) \<and> hd (L w) \<noteq> a"
    using subsetD [OF sub] D(1) assms(3) [of w] by (metis hd_in_set lessThan_iff)
  have b: "(if b_last (beacon_of c w) < 0 then (beacon_of c w)\<lparr>b_first := int a, b_last := int a\<rparr>
      else (beacon_of c w)\<lparr>b_first := int a\<rparr>) = \<lparr>b_first = int a, b_last = last_i (-1) (a # L w)\<rparr>"
    unfolding D(5) by (cases "L w" rule: rev_cases) simp_all
  have g: "sqlx_get_by_id c (b_first (beacon_of c w)) = (if L w = [] then None else Some (hd (L w)))"
    unfolding D(5) using get_by_id_first [OF sub] by simp
  let ?c1 = "set_base a (\<lambda>b. b\<lparr>link_prev := -1, link_next := first_i (L w) (-1)\<rparr>) c"
  let ?c2 = "if L w = [] then ?c1 else set_base (hd (L w)) (\<lambda>b. b\<lparr>link_prev := int a\<rparr>) ?c1"
  have r: "SQLX_UNSHIFT C a w st c = (set_base a (\<lambda>b. b\<lparr>b_status := st, last_update := C (c_tick c)\<rparr>)
      (set_beacon w \<lparr>b_first = int a, b_last = last_i (-1) (a # L w)\<rparr> ?c2))\<lparr>c_tick := c_tick c + 1\<rparr>"
    using g D(1) assms(4) assms(2) b unfolding SQLX_UNSHIFT_def Let_def
    by (cases "L w = []") (simp_all add: D(5) last_i_last)
  show "GET (SQLX_UNSHIFT C a w st c) i =
      (if i = a then (GET c a)\<lparr>link_prev := -1, link_next := first_i (L w) (-1), b_status := st, last_update := C (c_tick c)\<rparr>
       else (GET c i)\<lparr>link_prev := (if L w \<noteq> [] \<and> i = hd (L w) then int a else prv c i)\<rparr>)"
    unfolding r using hd D(1) assms(2) by (cases "L w = []") auto
  show "beacon_of (SQLX_UNSHIFT C a w st c) w' =
      (if w' = w then \<lparr>b_first = int a, b_last = last_i (-1) (a # L w)\<rparr> else beacon_of c w')"
    unfolding r by simp
  show "length (bases (SQLX_UNSHIFT C a w st c)) = length (bases c)" unfolding r by simp
qed

lemma chained_UNSHIFT:
  assumes "chained c L" and "a < bases_count c" and "\<And>w. a \<notin> set (L w)" and "b_index (GET c a) = int a"
  shows "chained (SQLX_UNSHIFT C a w st c) (L(w := a # L w))"
proof -
  note D = chainedD [OF assms(1)] and U = SQLX_UNSHIFT_spec [OF assms, where C = C and st = st and w = w]
  let ?c = "SQLX_UNSHIFT C a w st c"
  have bcount: "bases_count ?c = bases_count c" using frameD(3) [OF frame_UNSHIFT] .
  have "length (bases ?c) = bases_count ?c" using D(1) U(3) bcount by simp
  moreover have "listed ?c w' ((L(w := a # L w)) w')" for w'
  proof (cases "w' = w")
    case True
    have "chain (prv ?c) (nxt ?c) (-1) (a # L w) (-1)"
      using D(2) [of w] assms(3) [of w] unfolding U(1)
      by (intro chain_push [OF D(4) [of w]]) auto
    then show ?thesis using True D(2) [of w] D(3) [of _ w] assms(2) assms(3) [of w] U(2) [of w] by (auto simp: listed_def bcount)
  next
    case False
    have n: "i \<noteq> a \<and> (L w = [] \<or> i \<noteq> hd (L w))" if "i \<in> set (L w')" for i
      using D(6) [of i w' w] that False assms(3) [of w'] hd_in_set [of "L w"] by auto
    have "chain (prv ?c) (nxt ?c) (-1) (L w') (-1) = chain (prv c) (nxt c) (-1) (L w') (-1)"
      using n unfolding U(1) by (intro chain_cong) auto
    then show ?thesis using False D(2) [of w'] D(3) [of _ w'] D(4) [of w'] D(5) [of w'] U(2) [of w'] by (auto simp: listed_def bcount)
  qed
  moreover have "i \<in> set ((L(w := a # L w)) v) \<Longrightarrow> i \<in> set ((L(w := a # L w)) v') \<Longrightarrow> v = v'" for i v v'
    using D(6) [of i v v'] assms(3) [of v] assms(3) [of v'] by (auto split: if_splits)
  ultimately show ?thesis unfolding chained_def by blast
qed

lemma linked_UNSHIFT:
  assumes "linked c L" and "a < bases_count c" and "\<And>w. a \<notin> set (L w)"
  shows "linked (SQLX_UNSHIFT C a w st c) (L(w := a # L w))"
proof -
  have c: "chained c L" and ix: "b_index (GET c a) = int a" using assms(1,2) by (simp_all add: linked_def indexed_def)
  show ?thesis
    using chained_UNSHIFT [OF c assms(2,3) ix, of C w st] SQLX_UNSHIFT_spec(1) [OF c assms(2,3) ix, of C w st]
      frameD(3) [OF frame_UNSHIFT, of C a w st c] assms(1) by (simp add: linked_def indexed_def)
qed

subsection \<open>Moves between the lists\<close>

fun st_of :: "blist \<Rightarrow> sqlx_base_status" where
  "st_of L_FREE = SQLX_BASE_FREE"
| "st_of L_IDLE = SQLX_BASE_IDLE"
| "st_of L_IDLE_HOT = SQLX_BASE_IDLE_HOT"
| "st_of L_USED = SQLX_BASE_USED"

lemma ex_st_of: "(\<exists>w. st = st_of w) \<longleftrightarrow> st \<noteq> STATUS_NONE \<and> st \<noteq> SQLX_BASE_CLOSING"
proof
  show "\<exists>w. st = st_of w \<Longrightarrow> st \<noteq> STATUS_NONE \<and> st \<noteq> SQLX_BASE_CLOSING" by (elim exE, case_tac w) simp_all
  show "st \<noteq> STATUS_NONE \<and> st \<noteq> SQLX_BASE_CLOSING \<Longrightarrow> \<exists>w. st = st_of w" by (cases st) (metis st_of.simps)+
qed

lemma st_of_inj [simp]: "st_of w = st_of w' \<longleftrightarrow> w = w'"
  by (cases w; cases w'; simp)

abbreviation status :: "sqlx_cache \<Rightarrow> nat \<Rightarrow> sqlx_base_status" where
  "status c i \<equiv> b_status (GET c i)"

text \<open>What a slot stores, whatever its list.\<close>

definition payload :: "sqlx_base \<Rightarrow> sqlx_base" where
  "payload b = b\<lparr>link_prev := 0, link_next := 0, last_update := 0, b_status := STATUS_NONE\<rparr>"

lemma payloadD:
  assumes "payload x = payload y"
  shows "b_name x = b_name y" "b_owner x = b_owner y" "b_cond x = b_cond y" "b_handle x = b_handle y"
    "heat x = heat y" "count_open x = count_open y" "count_waiting x = count_waiting y" "b_index x = b_index y"
  using arg_cong [OF assms, of b_name] arg_cong [OF assms, of b_owner] arg_cong [OF assms, of b_cond]
    arg_cong [OF assms, of b_handle] arg_cong [OF assms, of heat] arg_cong [OF assms, of count_open]
    arg_cong [OF assms, of count_waiting] arg_cong [OF assms, of b_index]
  by (simp_all add: payload_def)

text \<open>Each slot is in the list of its status, and in no other.\<close>

definition placed :: "sqlx_cache \<Rightarrow> (blist \<Rightarrow> nat list) \<Rightarrow> bool" where
  "placed c L \<longleftrightarrow> linked c L \<and> (\<forall>i < bases_count c. \<forall>w. i \<in> set (L w) \<longleftrightarrow> status c i = st_of w)"

lemma remove_from_list_spec:
  assumes "placed c L" and "b < bases_count c"
  defines "c' \<equiv> sqlx_base_remove_from_list b c"
  shows "\<exists>L'. linked c' L' \<and> (\<forall>w. b \<notin> set (L' w)) \<and> (\<forall>w i. i \<noteq> b \<longrightarrow> i \<in> set (L' w) \<longleftrightarrow> i \<in> set (L w))"
    and "payload (GET c' i) = payload (GET c i)" and "i \<noteq> b \<Longrightarrow> status c' i = status c i" and "frame c' = frame c"
proof -
  have l: "linked c L" using assms(1) by (simp add: placed_def)
  have m: "b \<in> set (L w) \<longleftrightarrow> status c b = st_of w" for w using assms(1,2) by (simp add: placed_def)
  have "(\<exists>L'. linked c' L' \<and> (\<forall>w. b \<notin> set (L' w)) \<and> (\<forall>w i. i \<noteq> b \<longrightarrow> i \<in> set (L' w) \<longleftrightarrow> i \<in> set (L w))) \<and>
    payload (GET c' i) = payload (GET c i) \<and> (i \<noteq> b \<longrightarrow> status c' i = status c i) \<and> frame c' = frame c"
  proof (cases "\<exists>w. status c b = st_of w")
    case True
    then obtain w where w: "status c b = st_of w" by blast
    then have c': "c' = SQLX_REMOVE b w c" by (cases w) (simp_all add: c'_def sqlx_base_remove_from_list_def)
    have bw: "b \<in> set (L w)" using m w by simp
    obtain xs ys where s: "L w = xs @ b # ys" using bw split_list by metis
    have k: "b \<notin> set ((L(w := remove1 b (L w))) w')" for w'
      using linkedD(3) [OF l, of w] linkedD(7) [OF l bw, of w'] by auto
    have "i \<noteq> b \<Longrightarrow> i \<in> set ((L(w := remove1 b (L w))) w') \<longleftrightarrow> i \<in> set (L w')" for i w' by simp
    then show ?thesis unfolding c'
      using linked_REMOVE [OF l bw] k SQLX_REMOVE_spec(1) [OF l s, of i]
      by (intro conjI exI [of _ "L(w := remove1 b (L w))"]) (simp_all add: unlinked_def payload_def)
  next
    case False
    then have "c' = c" unfolding ex_st_of by (auto simp: c'_def sqlx_base_remove_from_list_def)
    then show ?thesis using l m False by (intro conjI exI [of _ L]) auto
  qed
  then show "\<exists>L'. linked c' L' \<and> (\<forall>w. b \<notin> set (L' w)) \<and> (\<forall>w i. i \<noteq> b \<longrightarrow> i \<in> set (L' w) \<longleftrightarrow> i \<in> set (L w))"
    "payload (GET c' i) = payload (GET c i)" "i \<noteq> b \<Longrightarrow> status c' i = status c i" "frame c' = frame c" by blast+
qed

lemma add_to_list_spec:
  fixes C :: "nat \<Rightarrow> gtimeval"
  assumes "linked c L" and "b < bases_count c" and "\<And>w. b \<notin> set (L w)" and "st \<noteq> STATUS_NONE"
  defines "c' \<equiv> sqlx_base_add_to_list C b st c"
  shows "\<exists>L'. linked c' L' \<and> (\<forall>w i. i \<in> set (L' w) \<longleftrightarrow> (if i = b then st = st_of w else i \<in> set (L w)))"
    and "payload (GET c' i) = payload (GET c i)" and "status c' i = (if i = b then st else status c i)"
    and "frame c' = frame c"
proof -
  have "(\<exists>L'. linked c' L' \<and> (\<forall>w i. i \<in> set (L' w) \<longleftrightarrow> (if i = b then st = st_of w else i \<in> set (L w)))) \<and>
    payload (GET c' i) = payload (GET c i) \<and> status c' i = (if i = b then st else status c i) \<and> frame c' = frame c"
  proof (cases "st = SQLX_BASE_CLOSING")
    case True
    then have c': "c' = set_base b (\<lambda>x. x\<lparr>b_status := st\<rparr>) c" by (simp add: c'_def sqlx_base_add_to_list_def)
    have bl: "b < length (bases c)" using assms(2) linkedD(1) [OF assms(1)] by simp
    have "linked c' L"
    proof -
      have "prv c' = prv c" "nxt c' = nxt c" using bl by (simp_all add: c' fun_eq_iff)
      then show ?thesis using assms(1) bl by (simp add: linked_def chained_def listed_def indexed_def c')
    qed
    moreover have "st \<noteq> st_of w" for w using True by (cases w) simp_all
    ultimately show ?thesis using bl assms(3) by (intro conjI exI [of _ L]) (auto simp: c' payload_def)
  next
    case False
    then obtain w where w: "st = st_of w" using assms(4) ex_st_of [of st] by blast
    then have c': "c' = SQLX_UNSHIFT C b w st c" by (cases w) (simp_all add: c'_def sqlx_base_add_to_list_def)
    have ch: "chained c L" using assms(1) by (simp add: linked_def)
    show ?thesis unfolding c'
      using linked_UNSHIFT [OF assms(1-3), of C w st] SQLX_UNSHIFT_spec(1) [OF ch assms(2,3) linkedD(2) [OF assms(1,2)], of C w st i] assms(3)
      by (intro conjI exI [of _ "L(w := b # L w)"]) (auto simp: payload_def w)
  qed
  then show "\<exists>L'. linked c' L' \<and> (\<forall>w i. i \<in> set (L' w) \<longleftrightarrow> (if i = b then st = st_of w else i \<in> set (L w)))"
    "payload (GET c' i) = payload (GET c i)" "status c' i = (if i = b then st else status c i)" "frame c' = frame c" by blast+
qed

lemma move_to_list_spec:
  fixes C :: "nat \<Rightarrow> gtimeval"
  assumes "placed c L" and "b < bases_count c" and "st \<noteq> STATUS_NONE"
  defines "c' \<equiv> sqlx_base_move_to_list C b st c"
  shows "\<exists>L'. placed c' L'" and "payload (GET c' i) = payload (GET c i)"
    and "status c' i = (if i = b then st else status c i)" and "frame c' = frame c"
proof -
  have "(\<exists>L'. placed c' L') \<and> payload (GET c' i) = payload (GET c i) \<and> status c' i = (if i = b then st else status c i) \<and> frame c' = frame c"
  proof (cases "st = status c b")
    case True
    then have "c' = c" by (simp add: c'_def sqlx_base_move_to_list_def)
    then show ?thesis using True assms(1) by auto
  next
    case False
    let ?c1 = "sqlx_base_remove_from_list b c"
    have c': "c' = sqlx_base_add_to_list C b st ?c1" using False by (simp add: c'_def sqlx_base_move_to_list_def)
    note R = remove_from_list_spec [OF assms(1,2)]
    obtain L1 where L1: "linked ?c1 L1" "\<And>w. b \<notin> set (L1 w)" "\<And>w i. i \<noteq> b \<Longrightarrow> i \<in> set (L1 w) \<longleftrightarrow> i \<in> set (L w)"
      using R(1) by blast
    have b1: "b < bases_count ?c1" using assms(2) frameD(3) [OF R(4)] by simp
    note A = add_to_list_spec [OF L1(1) b1 L1(2) assms(3), where C = C]
    obtain L2 where L2: "linked c' L2" "\<And>w i. i \<in> set (L2 w) \<longleftrightarrow> (if i = b then st = st_of w else i \<in> set (L1 w))"
      using A(1) unfolding c' by blast
    have st: "status c' j = (if j = b then st else status c j)" for j using A(3) [of j] R(3) [of j] by (simp add: c')
    have fr: "frame c' = frame c" using A(4) R(4) by (simp add: c')
    have "placed c' L2"
      using L2(1) assms(1) frameD(3) [OF fr] by (auto simp: placed_def L2(2) L1(3) st)
    then show ?thesis using st fr A(2) [of i] R(2) [of i] by (auto simp: c')
  qed
  then show "\<exists>L'. placed c' L'" "payload (GET c' i) = payload (GET c i)"
    "status c' i = (if i = b then st else status c i)" "frame c' = frame c" by blast+
qed

subsection \<open>The initial cache\<close>

lemma set_base_beyond: "\<not> i < length (bases c) \<Longrightarrow> set_base i f c = c"
  by (simp add: set_base_def list_update_beyond)

lemma chained_set_base:
  assumes "chained c L" and "(\<forall>w. i \<notin> set (L w)) \<or> (\<forall>b. link_prev (f b) = link_prev b \<and> link_next (f b) = link_next b)"
  shows "chained (set_base i f c) L"
proof (cases "i < length (bases c)")
  case True
  have "chain (prv (set_base i f c)) (nxt (set_base i f c)) (-1) (L w) (-1) = chain (prv c) (nxt c) (-1) (L w) (-1)" for w
    using assms(2) True by (intro chain_cong) auto
  then show ?thesis using assms(1) by (simp add: chained_def listed_def)
next
  case False
  then show ?thesis using assms(1) by (simp add: set_base_beyond)
qed

definition fresh_slot :: "sqlx_base \<Rightarrow> bool" where
  "fresh_slot b \<longleftrightarrow> b_name b = None \<and> b_owner b = None \<and> b_handle b = None \<and> heat b = 0 \<and> count_open b = 0 \<and> count_waiting b = 0"

definition free_from :: "nat \<Rightarrow> nat \<Rightarrow> blist \<Rightarrow> nat list" where
  "free_from i mx w = (if w = L_FREE then [Suc i..<mx] else [])"

definition half_reset :: "nat \<Rightarrow> sqlx_cache \<Rightarrow> bool" where
  "half_reset i c \<longleftrightarrow>
     chained c (free_from i (bases_count c)) \<and>
     (\<forall>j < bases_count c. fresh_slot (GET c j) \<and>
        (if j \<le> i then b_index (GET c j) = 0 \<and> status c j = STATUS_NONE
         else b_index (GET c j) = int j \<and> status c j = SQLX_BASE_FREE))"

lemma reset_loop_spec:
  "half_reset i c \<Longrightarrow> i < bases_count c \<Longrightarrow> half_reset 0 (reset_loop C i c) \<and> frame (reset_loop C i c) = frame c"
proof (induction i arbitrary: c)
  case (Suc i)
  define n m where "n = Suc i" and "m = bases_count c"
  define c1 where "c1 = set_base n (\<lambda>b. b\<lparr>b_index := int n, link_prev := -1, link_next := -1\<rparr>) c"
  define c2 where "c2 = SQLX_UNSHIFT C n L_FREE SQLX_BASE_FREE c1"
  define c3 where "c3 = set_base n (\<lambda>b. b\<lparr>b_cond := n mod cond_count c2\<rparr>) c2"
  have h: "chained c (free_from n m)"
    "\<And>j. j < m \<Longrightarrow> fresh_slot (GET c j) \<and> (if j \<le> n then b_index (GET c j) = 0 \<and> status c j = STATUS_NONE
       else b_index (GET c j) = int j \<and> status c j = SQLX_BASE_FREE)"
    using Suc.prems(1) by (auto simp: half_reset_def n_def m_def)
  have nm: "n < m" using Suc.prems(2) by (simp add: n_def m_def)
  have len: "n < length (bases c)" using chainedD(1) [OF h(1)] nm by (simp add: m_def)
  have out: "n \<notin> set (free_from n m w)" for w by (simp add: free_from_def)
  have c1: "chained c1 (free_from n m)" unfolding c1_def using out by (intro chained_set_base [OF h(1)]) simp
  have ix: "n < bases_count c1" "b_index (GET c1 n) = int n" using nm len by (simp_all add: c1_def m_def)
  note U = SQLX_UNSHIFT_spec(1) [OF c1 ix(1) out ix(2), of C L_FREE SQLX_BASE_FREE, folded c2_def]
  have f2: "frame c2 = frame c" by (simp add: c2_def c1_def)
  have m2: "bases_count c2 = m" using frameD(3) [OF f2] by (simp add: m_def)
  have e: "(free_from n m)(L_FREE := n # free_from n m L_FREE) = free_from i m"
    using nm by (auto simp: free_from_def fun_eq_iff upt_conv_Cons n_def)
  have c2: "chained c2 (free_from i m)"
    using chained_UNSHIFT [OF c1 ix(1) out ix(2), of C L_FREE SQLX_BASE_FREE] unfolding c2_def e .
  have c3: "chained c3 (free_from i m)" unfolding c3_def by (intro chained_set_base [OF c2]) simp
  have l2: "n < length (bases c2)" using chainedD(1) [OF c2] m2 nm by simp
  have "fresh_slot (GET c3 j) = fresh_slot (GET c j)" "b_index (GET c3 j) = (if j = n then int n else b_index (GET c j))"
    "status c3 j = (if j = n then SQLX_BASE_FREE else status c j)" for j
    using U len l2 by (simp_all add: c3_def c1_def fresh_slot_def)
  then have "half_reset i c3"
    using c3 h(2) m2 by (auto simp: half_reset_def n_def c3_def split: if_splits)
  from Suc.IH [OF this] show ?case
    using nm m2 f2 by (simp add: Let_def c3_def c2_def c1_def n_def)
qed simp

lemma reset_bases_spec:
  assumes "\<not> used c" and "mx > 0"
  shows "\<exists>c'. sqlx_cache_reset_bases C mx c = Some c' \<and> frame c' = frame (c\<lparr>bases_count := mx\<rparr>) \<and>
    (\<exists>L. placed c' L) \<and> (\<forall>j < mx. fresh_slot (GET c' j) \<and> status c' j = (if j = 0 then STATUS_NONE else SQLX_BASE_FREE))"
proof -
  let ?c = "c\<lparr>beacon_free := BEACON_RESET, beacon_idle := BEACON_RESET, beacon_idle_hot := BEACON_RESET,
                     beacon_used := BEACON_RESET, bases_count := mx, bases := replicate mx zero_base\<rparr>"
  have "beacon_of ?c w = BEACON_RESET" for w by (cases w) simp_all
  then have "half_reset (mx - 1) ?c"
    using assms(2) by (auto simp: half_reset_def chained_def listed_def free_from_def GET_def zero_base_def BEACON_RESET_def fresh_slot_def)
  from reset_loop_spec [OF this, of C] have r: "half_reset 0 (reset_loop C (mx - 1) ?c)" "frame (reset_loop C (mx - 1) ?c) = frame ?c"
    using assms(2) by auto
  define c' where "c' = reset_loop C (mx - 1) ?c"
  have m: "bases_count c' = mx" using frameD(3) [OF r(2)] by (simp add: c'_def)
  have h: "chained c' (free_from 0 mx)" "\<And>j. j < mx \<Longrightarrow> fresh_slot (GET c' j) \<and> b_index (GET c' j) = int j \<and>
      status c' j = (if j = 0 then STATUS_NONE else SQLX_BASE_FREE)"
    using r(1) m unfolding c'_def [symmetric] half_reset_def by (auto split: if_splits)
  have "i \<in> set (free_from 0 mx w) \<longleftrightarrow> status c' i = st_of w" if "i < mx" for i w
    using h(2) [OF that] that by (cases w) (auto simp: free_from_def)
  then have "placed c' (free_from 0 mx)" using h m by (simp add: placed_def linked_def indexed_def)
  moreover have "frame c' = frame (c\<lparr>bases_count := mx\<rparr>)" using r(2) by (simp add: frame_def c'_def)
  moreover have "sqlx_cache_reset_bases C mx c = Some c'" using assms by (simp add: sqlx_cache_reset_bases_def Let_def c'_def)
  ultimately show ?thesis using h(2) by blast
qed

subsection \<open>The effect of each operation on the slots\<close>

text \<open>What the users of the cache see of a slot.\<close>

record slot =
  s_st :: sqlx_base_status
  s_name :: "hashstr option"
  s_owner :: "thread option"
  s_open :: u32
  s_wait :: int
  s_heat :: u32

definition sv :: "sqlx_cache \<Rightarrow> nat \<Rightarrow> slot" where
  "sv c i = \<lparr>s_st = status c i, s_name = b_name (GET c i), s_owner = b_owner (GET c i), s_open = count_open (GET c i),
            s_wait = count_waiting (GET c i), s_heat = heat (GET c i)\<rparr>"

definition cache_ok :: "sqlx_cache \<Rightarrow> bool" where
  "cache_ok c \<longleftrightarrow> (\<exists>L. placed c L)"

text \<open>The settings that no operation on the slots changes.\<close>

definition conf :: "sqlx_cache \<Rightarrow> nat \<times> int \<times> int \<times> u32" where
  "conf c = (bases_count c, max_waiting c, open_timeout c, heat_threshold c)"

lemma cache_okD:
  assumes "cache_ok c"
  shows "length (bases c) = bases_count c" and "i < bases_count c \<Longrightarrow> b_index (GET c i) = int i"
  using assms by (auto simp: cache_ok_def placed_def linkedD)

lemma frame_lists [simp]:
  "frame (sqlx_base_remove_from_list b c) = frame c" "frame (sqlx_base_add_to_list C b st c) = frame c"
  "frame (sqlx_base_move_to_list C b st c) = frame c"
proof -
  show r: "frame (sqlx_base_remove_from_list b c) = frame c" for c
    by (simp add: sqlx_base_remove_from_list_def split: sqlx_base_status.split)
  show a: "frame (sqlx_base_add_to_list C b st c) = frame c" for c
    by (simp add: sqlx_base_add_to_list_def split: sqlx_base_status.split)
  show "frame (sqlx_base_move_to_list C b st c) = frame c" by (simp add: sqlx_base_move_to_list_def r a)
qed

lemmas move_frame [simp] = frameD [OF frame_lists(3)]

lemma move_sv:
  assumes "cache_ok c" and "b < bases_count c" and "st \<noteq> STATUS_NONE"
  shows "cache_ok (sqlx_base_move_to_list C b st c)"
    and "sv (sqlx_base_move_to_list C b st c) = (sv c)(b := (sv c b)\<lparr>s_st := st\<rparr>)"
    and "b_index (GET (sqlx_base_move_to_list C b st c) i) = b_index (GET c i)"
    and "b_handle (GET (sqlx_base_move_to_list C b st c) i) = b_handle (GET c i)"
proof -
  obtain L where "placed c L" using assms(1) by (auto simp: cache_ok_def)
  note M = move_to_list_spec [OF this assms(2,3), where C = C]
  show "cache_ok (sqlx_base_move_to_list C b st c)" using M(1) by (auto simp: cache_ok_def)
  show "sv (sqlx_base_move_to_list C b st c) = (sv c)(b := (sv c b)\<lparr>s_st := st\<rparr>)"
    using M(3) payloadD [OF M(2)] by (auto simp: sv_def fun_eq_iff)
  show "b_index (GET (sqlx_base_move_to_list C b st c) i) = b_index (GET c i)" using payloadD(8) [OF M(2)] .
  show "b_handle (GET (sqlx_base_move_to_list C b st c) i) = b_handle (GET c i)" using payloadD(4) [OF M(2)] .
qed

lemma set_base_ok:
  assumes "cache_ok c" and "\<And>x. link_prev (f x) = link_prev x \<and> link_next (f x) = link_next x \<and> b_status (f x) = b_status x \<and> b_index (f x) = b_index x"
  shows "cache_ok (set_base b f c)"
proof -
  obtain L where L: "placed c L" using assms(1) by (auto simp: cache_ok_def)
  have "b_status (GET (set_base b f c) i) = b_status (GET c i)" "b_index (GET (set_base b f c) i) = b_index (GET c i)" for i
    using assms(2) by (cases "b < length (bases c)"; simp add: set_base_beyond)+
  then have "placed (set_base b f c) L"
    using L chained_set_base [of c L b f] assms(2) by (simp add: placed_def linked_def indexed_def)
  then show ?thesis by (auto simp: cache_ok_def)
qed

lemma set_base_sv:
  assumes "cache_ok c" and "b < bases_count c"
  shows "sv (set_base b f c) = (sv c)(b := \<lparr>s_st = b_status (f (GET c b)), s_name = b_name (f (GET c b)), s_owner = b_owner (f (GET c b)),
     s_open = count_open (f (GET c b)), s_wait = count_waiting (f (GET c b)), s_heat = heat (f (GET c b))\<rparr>)"
  using assms cache_okD(1) [OF assms(1)] by (auto simp: sv_def fun_eq_iff)

lemma sv_sel:
  "s_st (sv c i) = status c i" "s_name (sv c i) = b_name (GET c i)" "s_owner (sv c i) = b_owner (GET c i)"
  "s_open (sv c i) = count_open (GET c i)" "s_wait (sv c i) = count_waiting (GET c i)" "s_heat (sv c i) = heat (GET c i)"
  by (simp_all add: sv_def)

lemma light_updates [simp]:
  "cache_ok (c\<lparr>used := u\<rparr>) = cache_ok c" "sv (c\<lparr>used := u\<rparr>) = sv c"
  "cache_ok (c\<lparr>bases_by_name := n\<rparr>) = cache_ok c" "sv (c\<lparr>bases_by_name := n\<rparr>) = sv c"
  "cache_ok (c\<lparr>c_closed := h\<rparr>) = cache_ok c" "sv (c\<lparr>c_closed := h\<rparr>) = sv c"
  "cache_ok (c\<lparr>c_tick := k\<rparr>) = cache_ok c" "sv (c\<lparr>c_tick := k\<rparr>) = sv c"
  "cache_ok (g_cond_signal b c) = cache_ok c" "sv (g_cond_signal b c) = sv c"
  "bases_by_name (g_cond_signal b c) = bases_by_name c" "conf (g_cond_signal b c) = conf c"
  "conf (c\<lparr>used := u\<rparr>) = conf c" "conf (c\<lparr>bases_by_name := n\<rparr>) = conf c" "conf (c\<lparr>c_closed := h\<rparr>) = conf c"
  "conf (c\<lparr>c_tick := k\<rparr>) = conf c" "conf (set_base b f c) = conf c" "conf (sqlx_base_move_to_list C b st c) = conf c"
  "close_hook (g_cond_signal b c) = close_hook c" "c_closed (g_cond_signal b c) = c_closed c" "bases_count (g_cond_signal b c) = bases_count c" "GET (g_cond_signal b c) = GET c"
  by (simp_all add: cache_ok_def placed_def linked_def chained_def listed_def indexed_def sv_def fun_eq_iff g_cond_signal_def conf_def)

lemma conf_count: "conf c' = conf c \<Longrightarrow> bases_count c' = bases_count c"
  by (simp add: conf_def)

lemma expire_base_begin_sv:
  assumes "cache_ok c" and "b < bases_count c"
  shows "cache_ok (expire_base_begin C b c)" and "sv (expire_base_begin C b c) = (sv c)(b := (sv c b)\<lparr>s_st := SQLX_BASE_CLOSING\<rparr>)"
    and "bases_by_name (expire_base_begin C b c) = bases_by_name c" and "conf (expire_base_begin C b c) = conf c"
    and "c_closed (expire_base_begin C b c) = c_closed c @ (if close_hook c then [b_handle (GET c b)] else [])"
  using move_sv [OF assms, of SQLX_BASE_CLOSING C]
  by (simp_all add: expire_base_begin_def Let_def)

lemma expire_base_end_sv:
  assumes "cache_ok c" and "b < bases_count c"
  shows "cache_ok (expire_base_end C n b c)"
    and "sv (expire_base_end C n b c) = (sv c)(b := (sv c b)\<lparr>s_st := SQLX_BASE_FREE, s_name := None, s_owner := None, s_open := 0\<rparr>)"
    and "bases_by_name (expire_base_end C n b c) = g_tree_remove hashstr_quick_cmp (bases_by_name c) n"
    and "conf (expire_base_end C n b c) = conf c"
proof -
  let ?c1 = "set_base b (\<lambda>x. x\<lparr>b_handle := None, b_owner := None, b_name := None, count_open := 0, last_update := 0\<rparr>) c"
  have o: "cache_ok ?c1" by (intro set_base_ok [OF assms(1)]) simp
  have b: "b < bases_count ?c1" using assms(2) by simp
  note M = move_sv [OF o b, of SQLX_BASE_FREE C]
  show "cache_ok (expire_base_end C n b c)" using M(1) by (simp add: expire_base_end_def Let_def)
  show "sv (expire_base_end C n b c) = (sv c)(b := (sv c b)\<lparr>s_st := SQLX_BASE_FREE, s_name := None, s_owner := None, s_open := 0\<rparr>)"
    using M(2) set_base_sv [OF assms] by (simp add: expire_base_end_def Let_def sv_def fun_eq_iff)
  show "bases_by_name (expire_base_end C n b c) = g_tree_remove hashstr_quick_cmp (bases_by_name c) n"
    "conf (expire_base_end C n b c) = conf c" by (simp_all add: expire_base_end_def Let_def)
qed

lemma expire_specific_begin_sv:
  assumes "cache_ok c" and "b < bases_count c" and "expire_specific_base_begin C t now g b c = (r, c')"
  shows "if r then cache_ok c' \<and> conf c' = conf c \<and> bases_by_name c' = bases_by_name c \<and>
      sv c' = (sv c)(b := (sv c b)\<lparr>s_st := SQLX_BASE_CLOSING, s_owner := Some t\<rparr>) else c' = c \<and> now \<noteq> None"
proof (cases r)
  case True
  let ?c1 = "set_base b (\<lambda>x. x\<lparr>b_owner := Some t\<rparr>) c"
  let ?c2 = "sqlx_base_move_to_list C b SQLX_BASE_USED ?c1"
  have c': "c' = expire_base_begin C b ?c2" using assms(3) True by (auto simp: expire_specific_base_begin_def Let_def split: if_splits)
  have o: "cache_ok ?c1" by (intro set_base_ok [OF assms(1)]) simp
  have b: "b < bases_count ?c1" "b < bases_count ?c2" using assms(2) by simp_all
  note M = move_sv [OF o b(1), of SQLX_BASE_USED C]
  note E = expire_base_begin_sv [OF M(1) b(2), of C, simplified]
  show ?thesis using True E M(2) set_base_sv [OF assms(1,2)]
    by (simp add: c' sv_def fun_eq_iff)
next
  case False
  then show ?thesis using assms(3) by (auto simp: expire_specific_base_begin_def Let_def split: if_splits option.splits)
qed

lemma beacon_last:
  assumes "cache_ok c" and "0 \<le> b_last (beacon_of c w)"
  shows "nat (b_last (beacon_of c w)) < bases_count c" and "status c (nat (b_last (beacon_of c w))) = st_of w"
proof -
  obtain L where L: "placed c L" using assms(1) by (auto simp: cache_ok_def)
  then have l: "linked c L" by (simp add: placed_def)
  have "L w \<noteq> []" using assms(2) linkedD(6) [OF l, of w] by (cases "L w") auto
  then have "nat (b_last (beacon_of c w)) \<in> set (L w)" using linkedD(6) [OF l, of w] last_in_set by (simp add: last_i_last)
  then show "nat (b_last (beacon_of c w)) < bases_count c" "status c (nat (b_last (beacon_of c w))) = st_of w"
    using linkedD(4) [OF l] L by (auto simp: placed_def)
qed

lemma beacon_none:
  assumes "cache_ok c" and "i < bases_count c" and "status c i = st_of w"
  shows "0 \<le> b_last (beacon_of c w)"
proof -
  obtain L where L: "placed c L" using assms(1) by (auto simp: cache_ok_def)
  then have l: "linked c L" and i: "i \<in> set (L w)" using assms(2,3) by (auto simp: placed_def)
  then have "L w \<noteq> []" by auto
  then show ?thesis using linkedD(6) [OF l, of w] by (simp add: last_i_last)
qed

lemma beacon_first:
  assumes "cache_ok c"
  shows "sqlx_get_by_id c (b_first (beacon_of c w)) = None \<longleftrightarrow> (\<forall>i < bases_count c. status c i \<noteq> st_of w)"
    and "sqlx_get_by_id c (b_first (beacon_of c w)) = Some b \<Longrightarrow> b < bases_count c \<and> status c b = st_of w"
proof -
  obtain L where L: "placed c L" using assms(1) by (auto simp: cache_ok_def)
  then have l: "linked c L" by (simp add: placed_def)
  have s: "set (L w) \<subseteq> {..<bases_count c}" using linkedD(4) [OF l, of _ w] by auto
  have g: "sqlx_get_by_id c (b_first (beacon_of c w)) = (if L w = [] then None else Some (hd (L w)))"
    using linkedD(6) [OF l, of w] get_by_id_first [OF s] by simp
  have m: "i < bases_count c \<Longrightarrow> i \<in> set (L w) \<longleftrightarrow> status c i = st_of w" for i using L by (simp add: placed_def)
  show "sqlx_get_by_id c (b_first (beacon_of c w)) = None \<longleftrightarrow> (\<forall>i < bases_count c. status c i \<noteq> st_of w)"
    unfolding g using m s by (cases "L w") auto
  show "sqlx_get_by_id c (b_first (beacon_of c w)) = Some b \<Longrightarrow> b < bases_count c \<and> status c b = st_of w"
    unfolding g using m s by (cases "L w") auto
qed

text \<open>The names in the tree are those of the slots, each with the number of its slot.\<close>

definition named :: "sqlx_cache \<Rightarrow> bool" where
  "named c \<longleftrightarrow>
     gtree_ok hashstr_quick_cmp hashstr_wf (bases_by_name c) \<and>
     (\<forall>n j. map_of (bases_by_name c) n = Some j \<longleftrightarrow> (\<exists>i < bases_count c. j = int i + 1 \<and> s_name (sv c i) = Some n))"

lemma named_unique:
  assumes "named c" and "i < bases_count c" and "j < bases_count c" and "s_name (sv c i) = Some n" and "s_name (sv c j) = Some n"
  shows "i = j"
proof -
  have "map_of (bases_by_name c) n = Some (int i + 1)" "map_of (bases_by_name c) n = Some (int j + 1)"
    using assms by (auto simp: named_def)
  then show ?thesis by simp
qed

lemma lookup_id_spec:
  assumes "named c" and "hashstr_wf n"
  shows "sqlx_lookup_id c n < 0 \<longleftrightarrow> (\<forall>i < bases_count c. s_name (sv c i) \<noteq> Some n)"
    and "\<not> sqlx_lookup_id c n < 0 \<Longrightarrow> nat (sqlx_lookup_id c n) < bases_count c \<and> s_name (sv c (nat (sqlx_lookup_id c n))) = Some n"
proof -
  have l: "g_tree_lookup hashstr_quick_cmp (bases_by_name c) n = map_of (bases_by_name c) n"
    using assms by (auto simp: named_def hstr.lookup_map_of)
  have m: "map_of (bases_by_name c) n = Some j \<longleftrightarrow> (\<exists>i < bases_count c. j = int i + 1 \<and> s_name (sv c i) = Some n)" for j
    using assms(1) by (simp add: named_def)
  show "sqlx_lookup_id c n < 0 \<longleftrightarrow> (\<forall>i < bases_count c. s_name (sv c i) \<noteq> Some n)"
  proof (cases "map_of (bases_by_name c) n")
    case None
    then show ?thesis using m by (auto simp: sqlx_lookup_id_def l)
  next
    case (Some j)
    then show ?thesis using m [of j] by (auto simp: sqlx_lookup_id_def l)
  qed
  show "\<not> sqlx_lookup_id c n < 0 \<Longrightarrow> nat (sqlx_lookup_id c n) < bases_count c \<and> s_name (sv c (nat (sqlx_lookup_id c n))) = Some n"
  proof (cases "map_of (bases_by_name c) n")
    case (Some j)
    then show ?thesis using m [of j] by (auto simp: sqlx_lookup_id_def l)
  qed (simp add: sqlx_lookup_id_def l)
qed

lemma named_same:
  "named c \<Longrightarrow> bases_by_name c' = bases_by_name c \<Longrightarrow> bases_count c' = bases_count c \<Longrightarrow>
     (\<And>i. i < bases_count c \<Longrightarrow> s_name (sv c' i) = s_name (sv c i)) \<Longrightarrow> named c'"
  by (auto simp: named_def)

lemma named_add:
  assumes "named c" and "hashstr_wf n" and "b < bases_count c" and "s_name (sv c b) = None"
    and "\<And>i. i < bases_count c \<Longrightarrow> s_name (sv c i) \<noteq> Some n"
    and "bases_by_name c' = g_tree_replace hashstr_quick_cmp (bases_by_name c) n (int b + 1)"
    and "bases_count c' = bases_count c" and "\<And>i. s_name (sv c' i) = (if i = b then Some n else s_name (sv c i))"
  shows "named c'"
proof -
  have g: "gtree_ok hashstr_quick_cmp hashstr_wf (bases_by_name c)" using assms(1) by (simp add: named_def)
  have m: "map_of (bases_by_name c') = (map_of (bases_by_name c))(n \<mapsto> int b + 1)" "gtree_ok hashstr_quick_cmp hashstr_wf (bases_by_name c')"
    using hstr.replace_eq_insert [OF g assms(2)] hstr.map_of_insert [OF g assms(2)] hstr.ok_insert [OF g assms(2)] assms(6) by simp_all
  have o: "map_of (bases_by_name c) k = Some j \<longleftrightarrow> (\<exists>i < bases_count c. j = int i + 1 \<and> s_name (sv c i) = Some k)" for k j
    using assms(1) by (simp add: named_def)
  have "map_of (bases_by_name c') k = Some j \<longleftrightarrow> (\<exists>i < bases_count c. j = int i + 1 \<and> s_name (sv c' i) = Some k)" for k j
  proof (cases "k = n")
    case True
    have "s_name (sv c' i) = Some n \<longleftrightarrow> i = b" if "i < bases_count c" for i using assms(5,8) that by simp
    then show ?thesis using True assms(3) m(1) by auto
  next
    case False
    have "s_name (sv c' i) = Some k \<longleftrightarrow> s_name (sv c i) = Some k" for i using assms(4,8) False by simp
    then show ?thesis using False m(1) o by simp
  qed
  then show ?thesis using m(2) assms(7) by (simp add: named_def)
qed

lemma named_remove:
  assumes "named c" and "b < bases_count c" and "s_name (sv c b) = Some n"
    and "bases_by_name c' = g_tree_remove hashstr_quick_cmp (bases_by_name c) n"
    and "bases_count c' = bases_count c" and "\<And>i. s_name (sv c' i) = (if i = b then None else s_name (sv c i))"
  shows "named c'"
proof -
  have g: "gtree_ok hashstr_quick_cmp hashstr_wf (bases_by_name c)" using assms(1) by (simp add: named_def)
  have "map_of (bases_by_name c) n = Some (int b + 1)" using assms(1-3) by (auto simp: named_def)
  then have w: "hashstr_wf n" using hstr.ok_okk [OF g] by (metis domI dom_map_of_conv_image_fst)
  have m: "map_of (bases_by_name c') = (map_of (bases_by_name c))(n := None)" "gtree_ok hashstr_quick_cmp hashstr_wf (bases_by_name c')"
    unfolding assms(4) hstr.remove_filter [OF g w] using gtree_ok_filter [OF g]
    by (simp_all add: map_of_filter_key)
  have o: "map_of (bases_by_name c) k = Some j \<longleftrightarrow> (\<exists>i < bases_count c. j = int i + 1 \<and> s_name (sv c i) = Some k)" for k j
    using assms(1) by (simp add: named_def)
  have "map_of (bases_by_name c') k = Some j \<longleftrightarrow> (\<exists>i < bases_count c. j = int i + 1 \<and> s_name (sv c' i) = Some k)" for k j
  proof (cases "k = n")
    case True
    have "s_name (sv c' i) \<noteq> Some n" if "i < bases_count c" for i
      using named_unique [OF assms(1) that assms(2) _ assms(3)] assms(6) by auto
    then show ?thesis using True m(1) by auto
  next
    case False
    have "s_name (sv c' i) = Some k \<longleftrightarrow> s_name (sv c i) = Some k" for i using assms(3,6) False by auto
    then show ?thesis using False m(1) o by simp
  qed
  then show ?thesis using m(2) assms(5) by (simp add: named_def)
qed

definition quiet :: "sqlx_cache \<Rightarrow> sqlx_cache \<Rightarrow> bool" where
  "quiet c c' \<longleftrightarrow> cache_ok c' \<and> conf c' = conf c \<and> bases_by_name c' = bases_by_name c"

lemma reserve_spec:
  assumes "cache_ok c" and "hashstr_wf n" and "sqlx_base_reserve C t n c = (r, c')"
  shows "case r of
      Inl e \<Rightarrow> c' = c \<and> (\<forall>i < bases_count c. s_st (sv c i) \<noteq> SQLX_BASE_FREE)
    | Inr b \<Rightarrow> b < bases_count c \<and> s_st (sv c b) = SQLX_BASE_FREE \<and> cache_ok c' \<and> conf c' = conf c \<and>
        bases_by_name c' = g_tree_replace hashstr_quick_cmp (bases_by_name c) n (int b + 1) \<and>
        sv c' = (sv c)(b := (sv c b)\<lparr>s_st := SQLX_BASE_USED, s_name := Some n, s_owner := Some t, s_open := 1\<rparr>)"
proof (cases "sqlx_poll_free_base c")
  case None
  then show ?thesis using assms(3) beacon_first(1) [OF assms(1), of L_FREE]
    by (auto simp: sqlx_base_reserve_def sqlx_poll_free_base_def sv_sel)
next
  case (Some b)
  have b: "b < bases_count c" "status c b = SQLX_BASE_FREE"
    using beacon_first(2) [OF assms(1), of L_FREE b] Some by (simp_all add: sqlx_poll_free_base_def)
  let ?c1 = "set_base b (\<lambda>x. x\<lparr>b_name := Some (hashstr_dup n), count_open := 1, b_handle := None, b_owner := Some t\<rparr>) c"
  let ?c2 = "sqlx_base_move_to_list C b SQLX_BASE_USED ?c1"
  have rc: "r = Inr b" "c' = sqlx_save_id b ?c2" using assms(3) Some by (simp_all add: sqlx_base_reserve_def Let_def)
  have o: "cache_ok ?c1" by (intro set_base_ok [OF assms(1)]) simp
  have b1: "b < bases_count ?c1" using b by simp
  note M = move_sv [OF o b1, of SQLX_BASE_USED C]
  have s: "sv ?c2 = (sv c)(b := (sv c b)\<lparr>s_st := SQLX_BASE_USED, s_name := Some n, s_owner := Some t, s_open := 1\<rparr>)"
    using M(2) set_base_sv [OF assms(1) b(1)] hashstr_dup_wf [OF assms(2)] by (simp add: sv_def fun_eq_iff)
  have nm: "b_name (GET ?c2 b) = Some n" using s sv_sel(2) [of ?c2 b] by simp
  have ix: "b_index (GET ?c2 b) = int b" using M(3) cache_okD [OF assms(1)] b(1) by simp
  show ?thesis using rc b M(1) s nm ix by (simp add: sqlx_save_id_def sv_sel)
qed

lemma expire_first_spec:
  assumes "cache_ok c" and "expire_first_idle_begin C t now c = (r, c')"
  shows "case r of
      None \<Rightarrow> c' = c \<and> (now = None \<longrightarrow> (\<forall>i < bases_count c. s_st (sv c i) \<notin> {SQLX_BASE_IDLE, SQLX_BASE_IDLE_HOT}))
    | Some b \<Rightarrow> b < bases_count c \<and> s_st (sv c b) \<in> {SQLX_BASE_IDLE, SQLX_BASE_IDLE_HOT} \<and> quiet c c' \<and>
        sv c' = (sv c)(b := (sv c b)\<lparr>s_st := SQLX_BASE_CLOSING, s_owner := Some t\<rparr>)"
proof -
  let ?att = "\<lambda>w g. if 0 \<le> b_last (beacon_of c w)
    then expire_specific_base_begin C t now g (nat (b_last (beacon_of c w))) c else (False, c)"
  have att: "if x then nat (b_last (beacon_of c w)) < bases_count c \<and> status c (nat (b_last (beacon_of c w))) = st_of w \<and> quiet c c1 \<and>
      sv c1 = (sv c)(nat (b_last (beacon_of c w)) := (sv c (nat (b_last (beacon_of c w))))\<lparr>s_st := SQLX_BASE_CLOSING, s_owner := Some t\<rparr>)
    else c1 = c \<and> (now = None \<longrightarrow> (\<forall>i < bases_count c. status c i \<noteq> st_of w))"
    if "?att w g = (x, c1)" for w g x c1
  proof (cases "0 \<le> b_last (beacon_of c w)")
    case True
    note b = beacon_last [OF assms(1) True]
    have "expire_specific_base_begin C t now g (nat (b_last (beacon_of c w))) c = (x, c1)" using that True by simp
    from expire_specific_begin_sv [OF assms(1) b(1) this] show ?thesis using b by (auto simp: quiet_def)
  next
    case False
    then show ?thesis using that beacon_none [OF assms(1)] by auto
  qed
  obtain x1 c1 where t1: "?att L_IDLE (cool_grace_delay c) = (x1, c1)" by (metis surj_pair)
  show ?thesis
  proof (cases x1)
    case True
    then have "r = Some (nat (b_last (beacon_idle c)))" "c' = c1"
      using assms(2) t1 by (auto simp: expire_first_idle_begin_def Let_def split: if_splits)
    then show ?thesis using att [OF t1] True by (simp add: sv_sel)
  next
    case False
    then have c1: "c1 = c" "now = None \<longrightarrow> (\<forall>i < bases_count c. status c i \<noteq> SQLX_BASE_IDLE)" using att [OF t1] by auto
    obtain x2 c2 where t2: "?att L_IDLE_HOT (hot_grace_delay c) = (x2, c2)" by (metis surj_pair)
    have r: "r = (if x2 then Some (nat (b_last (beacon_idle_hot c))) else None)" "c' = c2"
      using assms(2) t1 t2 c1(1) False by (auto simp: expire_first_idle_begin_def Let_def split: if_splits)
    show ?thesis using att [OF t2] r c1(2) by (cases x2) (auto simp: sv_sel)
  qed
qed

text \<open>What an attempt to open a base leaves, for each way it may end.\<close>

fun open_effect :: "thread \<Rightarrow> hashstr \<Rightarrow> sqlx_cache \<Rightarrow> sqlx_cache \<Rightarrow> open_end \<Rightarrow> bool" where
  "open_effect t n c c' (Opened (Some b)) \<longleftrightarrow> b < bases_count c \<and> cache_ok c' \<and> conf c' = conf c \<and> named c' \<and>
     (s_st (sv c b) = SQLX_BASE_FREE \<and> (\<forall>i < bases_count c. s_name (sv c i) \<noteq> Some n) \<and>
      sv c' = (sv c)(b := (sv c b)\<lparr>s_st := SQLX_BASE_USED, s_name := Some n, s_owner := Some t, s_open := 1\<rparr>) \<or>
      s_name (sv c b) = Some n \<and>
      (s_st (sv c b) \<in> {SQLX_BASE_IDLE, SQLX_BASE_IDLE_HOT} \<or> s_st (sv c b) = SQLX_BASE_USED \<and> s_owner (sv c b) = Some t) \<and>
      sv c' = (sv c)(b := (sv c b)\<lparr>s_st := SQLX_BASE_USED, s_owner := Some t, s_open := s_open (sv c b) + 1\<rparr>))"
| "open_effect t n c c' (Opened None) \<longleftrightarrow> (\<exists>b < bases_count c. s_name (sv c b) = Some n \<and> s_st (sv c b) = STATUS_NONE)"
| "open_effect t n c c' (Refused e) \<longleftrightarrow> quiet c c' \<and> sv c' = sv c"
| "open_effect t n c c' Retry \<longleftrightarrow> c' = c \<and> (\<forall>i < bases_count c. s_name (sv c i) \<noteq> Some n \<and>
     s_st (sv c i) \<notin> {SQLX_BASE_FREE, SQLX_BASE_IDLE, SQLX_BASE_IDLE_HOT})"
| "open_effect t n c c' (Wait b) \<longleftrightarrow> b < bases_count c \<and> s_name (sv c b) = Some n \<and> s_st (sv c b) = SQLX_BASE_USED \<and>
     s_owner (sv c b) \<noteq> Some t \<and> (max_waiting c > 0 \<longrightarrow> s_wait (sv c b) < max_waiting c) \<and> quiet c c' \<and>
     sv c' = (sv c)(b := (sv c b)\<lparr>s_wait := s_wait (sv c b) + 1\<rparr>)"
| "open_effect t n c c' (Wait_closing b) \<longleftrightarrow> c' = c \<and> b < bases_count c \<and> s_name (sv c b) = Some n \<and> s_st (sv c b) = SQLX_BASE_CLOSING"
| "open_effect t n c c' (Hook b) \<longleftrightarrow> b < bases_count c \<and> s_st (sv c b) \<in> {SQLX_BASE_IDLE, SQLX_BASE_IDLE_HOT} \<and> quiet c c' \<and>
     sv c' = (sv c)(b := (sv c b)\<lparr>s_st := SQLX_BASE_CLOSING, s_owner := Some t\<rparr>)"
| "open_effect t n c c' Abort \<longleftrightarrow> (\<exists>b < bases_count c. s_name (sv c b) = Some n \<and> s_st (sv c b) = SQLX_BASE_FREE)"

lemma open_known_spec:
  assumes "cache_ok c" and "named c" and "b < bases_count c" and "s_name (sv c b) = Some n" and "open_known C t b c = (r, c')"
  shows "open_effect t n c c' r"
proof -
  have idle: "open_effect t n c (g_cond_signal b (set_base b (\<lambda>x. x\<lparr>count_open := count_open x + 1, b_owner := Some t\<rparr>)
      (sqlx_base_move_to_list C b SQLX_BASE_USED c))) (Opened (Some b))" (is "open_effect t n c ?c3 _")
    if i: "status c b = SQLX_BASE_IDLE \<or> status c b = SQLX_BASE_IDLE_HOT"
  proof -
    let ?c1 = "sqlx_base_move_to_list C b SQLX_BASE_USED c"
    note M = move_sv [OF assms(1,3), of SQLX_BASE_USED C]
    have b1: "b < bases_count ?c1" using assms(3) by simp
    have f: "status ?c1 b = SQLX_BASE_USED" "b_name (GET ?c1 b) = b_name (GET c b)" "count_open (GET ?c1 b) = count_open (GET c b)"
      "count_waiting (GET ?c1 b) = count_waiting (GET c b)" "heat (GET ?c1 b) = heat (GET c b)"
      using fun_cong [OF M(2), of b] by (simp_all add: sv_def)
    have o: "cache_ok ?c3" using set_base_ok [OF M(1)] by simp
    have s: "sv ?c3 = (sv c)(b := (sv c b)\<lparr>s_st := SQLX_BASE_USED, s_owner := Some t, s_open := s_open (sv c b) + 1\<rparr>)"
      using set_base_sv [OF M(1) b1] f by (simp add: M(2)) (simp add: sv_def)
    have "named ?c3" by (rule named_same [OF assms(2)]) (use s in simp_all)
    then show ?thesis using o s i assms(3,4) by (auto simp: sv_sel)
  qed
  have mine: "open_effect t n c (g_cond_signal b (set_base b (\<lambda>x. x\<lparr>b_owner := Some t, count_open := count_open x + 1\<rparr>) c)) (Opened (Some b))"
    (is "open_effect t n c ?c3 _") if i: "status c b = SQLX_BASE_USED" "b_owner (GET c b) = Some t"
  proof -
    have o: "cache_ok ?c3" using set_base_ok [OF assms(1)] by simp
    have s: "sv ?c3 = (sv c)(b := (sv c b)\<lparr>s_st := SQLX_BASE_USED, s_owner := Some t, s_open := s_open (sv c b) + 1\<rparr>)"
      using set_base_sv [OF assms(1,3)] i by (simp add: sv_def)
    have "named ?c3" by (rule named_same [OF assms(2)]) (use s in simp_all)
    then show ?thesis using o s i assms(3,4) by (auto simp: sv_sel)
  qed
  have wait: "quiet c (set_base b (\<lambda>x. x\<lparr>count_waiting := count_waiting x + 1\<rparr>) c) \<and>
      sv (set_base b (\<lambda>x. x\<lparr>count_waiting := count_waiting x + 1\<rparr>) c) = (sv c)(b := (sv c b)\<lparr>s_wait := s_wait (sv c b) + 1\<rparr>)"
    using set_base_ok [OF assms(1)] set_base_sv [OF assms(1,3)] by (simp add: quiet_def sv_def)
  show ?thesis
    using assms(3,4,5) idle mine wait assms(1)
    by (cases "status c b") (auto simp: open_known_def open_done_def Let_def sv_sel quiet_def split: if_splits)
qed

lemma open_retry_spec:
  assumes "cache_ok c" and "named c" and "hashstr_wf n" and "\<forall>i < bases_count c. s_st (sv c i) = SQLX_BASE_FREE \<longrightarrow> s_name (sv c i) = None"
    and "open_retry C t n c = (r, c')"
  shows "open_effect t n c c' r"
proof (cases "sqlx_lookup_id c n < 0")
  case False
  note k = lookup_id_spec(2) [OF assms(2,3) False]
  show ?thesis using open_known_spec [OF assms(1,2) conjunct1 [OF k] conjunct2 [OF k]] assms(5) False
    by (simp add: open_retry_def Let_def)
next
  case True
  then have no: "\<And>i. i < bases_count c \<Longrightarrow> s_name (sv c i) \<noteq> Some n" using lookup_id_spec(1) [OF assms(2,3)] by blast
  obtain x c1 where x: "sqlx_base_reserve C t n c = (x, c1)" by (metis surj_pair)
  note R = reserve_spec [OF assms(1,3) x]
  show ?thesis
  proof (cases x)
    case (Inr b)
    then have b: "b < bases_count c" "s_st (sv c b) = SQLX_BASE_FREE" "cache_ok c1" "conf c1 = conf c"
      "bases_by_name c1 = g_tree_replace hashstr_quick_cmp (bases_by_name c) n (int b + 1)"
      "sv c1 = (sv c)(b := (sv c b)\<lparr>s_st := SQLX_BASE_USED, s_name := Some n, s_owner := Some t, s_open := 1\<rparr>)"
      using R by auto
    have "named c1"
      by (rule named_add [OF assms(2,3) b(1) _ no b(5) conf_count [OF b(4)]]) (use assms(4) b in auto)
    then have "named (g_cond_signal b c1)" by (rule named_same) simp_all
    then show ?thesis using assms(5) True x Inr b no by (auto simp: open_retry_def open_done_def Let_def)
  next
    case (Inl e)
    then have c1: "c1 = c" "\<forall>i < bases_count c. s_st (sv c i) \<noteq> SQLX_BASE_FREE" using R by auto
    obtain y c2 where y: "expire_first_idle_begin C t None c = (y, c2)" by (metis surj_pair)
    have "r = (case y of Some b \<Rightarrow> Hook b | None \<Rightarrow> Retry)" "c' = c2"
      using assms(5) True x Inl c1(1) y by (auto simp: open_retry_def Let_def split: option.splits)
    then show ?thesis using expire_first_spec [OF assms(1) y] c1(2) no by (cases y) auto
  qed
qed

lemma close_eq:
  assumes "cache_ok c" and "b < bases_count c" and "s_st (sv c b) = SQLX_BASE_USED" and "s_heat (sv c b) < heat_threshold c"
  defines "c1 \<equiv> set_base b (\<lambda>x. x\<lparr>count_open := count_open x - 1\<rparr>) (c\<lparr>used := True\<rparr>)"
  shows "sqlx_cache_unlock_and_close_begin C (int b) force c =
    (if s_open (sv c b) = 1 then if force then (Close_hook b, expire_base_begin C b c1)
     else (Closed None, g_cond_signal b (sqlx_base_move_to_list C b SQLX_BASE_IDLE (set_base b (\<lambda>x. x\<lparr>b_owner := None\<rparr>) c1)))
     else (Closed None, g_cond_signal b c1))"
proof -
  have l: "length (bases c) = bases_count c" using assms(1) cache_okD(1) by simp
  have id: "\<not> base_id_out c (int b)" using assms(2) by (simp add: base_id_out_def)
  have u: "b_status (GET (c\<lparr>used := True\<rparr>) b) = SQLX_BASE_USED" using assms(3) by (simp add: sv_sel)
  show ?thesis
    using assms(2,4) id u l unfolding sqlx_cache_unlock_and_close_begin_def Let_def nat_int c1_def
    by (auto simp: sv_sel not_le split: if_splits)
qed

lemma close_spec:
  assumes "cache_ok c" and "b < bases_count c" and "s_st (sv c b) = SQLX_BASE_USED" and "s_heat (sv c b) < heat_threshold c"
    and "sqlx_cache_unlock_and_close_begin C (int b) force c = (r, c')"
  shows "quiet c c' \<and>
    (if s_open (sv c b) \<noteq> 1 then r = Closed None \<and> sv c' = (sv c)(b := (sv c b)\<lparr>s_open := s_open (sv c b) - 1\<rparr>)
     else if force then r = Close_hook b \<and> sv c' = (sv c)(b := (sv c b)\<lparr>s_open := 0, s_st := SQLX_BASE_CLOSING\<rparr>)
     else r = Closed None \<and> sv c' = (sv c)(b := (sv c b)\<lparr>s_open := 0, s_owner := None, s_st := SQLX_BASE_IDLE\<rparr>))"
proof -
  let ?c1 = "set_base b (\<lambda>x. x\<lparr>count_open := count_open x - 1\<rparr>) (c\<lparr>used := True\<rparr>)"
  let ?c2 = "set_base b (\<lambda>x. x\<lparr>b_owner := None\<rparr>) ?c1"
  have o: "cache_ok (c\<lparr>used := True\<rparr>)" "b < bases_count (c\<lparr>used := True\<rparr>)" using assms(1,2) by simp_all
  have o1: "cache_ok ?c1" "b < bases_count ?c1" using set_base_ok [OF o(1)] o(2) by simp_all
  have o2: "cache_ok ?c2" "b < bases_count ?c2" using set_base_ok [OF o1(1)] o1(2) by simp_all
  have s1: "sv ?c1 = (sv c)(b := (sv c b)\<lparr>s_open := s_open (sv c b) - 1\<rparr>)" using set_base_sv [OF o(1,2)] by (simp add: sv_def)
  have s2: "sv ?c2 = (sv ?c1)(b := (sv ?c1 b)\<lparr>s_owner := None\<rparr>)" using set_base_sv [OF o1] by (simp add: sv_def)
  note E = expire_base_begin_sv [OF o1, of C]
  note M = move_sv [OF o2, of SQLX_BASE_IDLE C]
  note r = assms(5) [unfolded close_eq [OF assms(1-4)]]
  show ?thesis
  proof (cases "s_open (sv c b) = 1")
    case True
    then show ?thesis using r E M s1 s2 o1(1) by (cases force) (auto simp: quiet_def)
  next
    case False
    then show ?thesis using r s1 o1(1) by (auto simp: quiet_def)
  qed
qed

lemma expire_turn_spec:
  assumes "cache_ok c" and "expire_turn C t mx fin nb c = (r, c')"
  shows "case r of
      None \<Rightarrow> quiet c c' \<and> sv c' = sv c
    | Some b \<Rightarrow> b < bases_count c \<and> s_st (sv c b) \<in> {SQLX_BASE_IDLE, SQLX_BASE_IDLE_HOT} \<and> quiet c c' \<and>
        sv c' = (sv c)(b := (sv c b)\<lparr>s_st := SQLX_BASE_CLOSING, s_owner := Some t\<rparr>)"
proof (cases "expire_first_idle_begin C t (Some (C (c_tick c))) (c\<lparr>c_tick := c_tick c + 1\<rparr>) = (r, c')")
  case True
  then show ?thesis using expire_first_spec [OF _ True] assms(1) by (cases r) (auto simp: quiet_def)
next
  case False
  then have "r = None" "c' = c \<or> c' = c\<lparr>c_tick := c_tick c + 1\<rparr>"
    using assms(2) by (auto simp: expire_turn_def Let_def split: if_splits)
  then show ?thesis using assms(1) by (auto simp: quiet_def)
qed

lemma count_beacon_loop_spec:
  assumes "cache_ok c"
  shows "count_beacon_loop c (b_first (beacon_of c w)) 0 = Some (card {i. i < bases_count c \<and> s_st (sv c i) = st_of w})"
proof -
  obtain L where L: "placed c L" using assms(1) by (auto simp: cache_ok_def)
  then have l: "linked c L" by (simp add: placed_def)
  have "{i. i < bases_count c \<and> s_st (sv c i) = st_of w} = set (L w)" using L linkedD(4) [OF l, of _ w] by (auto simp: placed_def sv_sel)
  then have "card {i. i < bases_count c \<and> s_st (sv c i) = st_of w} = length (L w)"
    using distinct_card [OF linkedD(3) [OF l]] by simp
  then show ?thesis
    using count_beacon_loop_chain [OF linkedD(5) [OF l, of w], of 0] linkedD(6) [OF l, of w] by simp
qed

end
