(* ===== verification/Base_Cache_Threads.thy ===== *)
theory Base_Cache_Threads
  imports Base_Cache
begin

section \<open>The threads that share the cache of bases\<close>

text \<open>
  Any number of threads on one cache. A thread holds the lock of the cache from a point where
  it takes it to the next where it releases it, so a step is what the function of the source
  does between the two: from the start of a call, from a wake-up or the deadline of a wait,
  or from the end of the close hook. Nothing is assumed of the order of the steps, and a
  thread may wake up without a signal. The label \<open>retry\<close> reached with the lock still held is the
  one point where a step ends without releasing it. Threads close what they have opened
  only, give a handle to what they have opened only, and never hold \<open>2^32 - 1\<close> times a lock.
\<close>

subsection \<open>States and steps\<close>

text \<open>What follows the close hook: the loop of an opening, of an expiration, or the end of a close.\<close>

datatype cont = K_open hashstr | K_close | K_expire_all nat | K_expire nat "gtimeval option" nat

datatype pc =
    Out | Spin hashstr | Waiting hashstr nat | Waiting_closing hashstr nat | In_hook nat hashstr cont

record sys =
  cache :: sqlx_cache
  pcs :: "thread \<Rightarrow> pc"
  held :: "thread \<Rightarrow> (hashstr \<times> nat) list"
  lock :: "thread option"
  aborted :: bool

definition goes :: "thread \<Rightarrow> pc \<Rightarrow> sqlx_cache \<Rightarrow> sys \<Rightarrow> sys" where
  "goes t p c S = S\<lparr>cache := c, pcs := (pcs S)(t := p), lock := None\<rparr>"

definition name_of :: "sqlx_cache \<Rightarrow> nat \<Rightarrow> hashstr" where
  "name_of c b = the (b_name (GET c b))"

fun after_open :: "thread \<Rightarrow> hashstr \<Rightarrow> open_end \<times> sqlx_cache \<Rightarrow> sys \<Rightarrow> sys" where
  "after_open t n (Opened (Some b), c) S = (goes t Out c S)\<lparr>held := (held S)(t := (n, b) # held S t)\<rparr>"
| "after_open t n (Opened None, c) S = goes t Out c S"
| "after_open t n (Refused e, c) S = goes t Out c S"
| "after_open t n (Retry, c) S = (goes t (Spin n) c S)\<lparr>lock := Some t\<rparr>"
| "after_open t n (Wait b, c) S = goes t (Waiting n b) c S"
| "after_open t n (Wait_closing b, c) S = goes t (Waiting_closing n b) c S"
| "after_open t n (Hook b, c) S = goes t (In_hook b (name_of c b) (K_open n)) c S"
| "after_open t n (Abort, c) S = (goes t Out c S)\<lparr>aborted := True\<rparr>"

fun after_close :: "thread \<Rightarrow> hashstr \<times> nat \<Rightarrow> close_end \<times> sqlx_cache \<Rightarrow> sys \<Rightarrow> sys" where
  "after_close t p (Closed e, c) S = (goes t Out c S)\<lparr>held := (held S)(t := remove1 p (held S t))\<rparr>"
| "after_close t p (Close_hook b, c) S =
     (goes t (In_hook b (name_of c b) K_close) c S)\<lparr>held := (held S)(t := remove1 p (held S t))\<rparr>"
| "after_close t p (Close_abort, c) S = (goes t Out c S)\<lparr>aborted := True\<rparr>"

fun after_expire :: "thread \<Rightarrow> cont \<Rightarrow> nat option \<times> sqlx_cache \<Rightarrow> sys \<Rightarrow> sys" where
  "after_expire t k (Some b, c) S = goes t (In_hook b (name_of c b) k) c S"
| "after_expire t k (None, c) S = goes t Out c S"

fun after_hook :: "(nat \<Rightarrow> gtimeval) \<Rightarrow> thread \<Rightarrow> nat \<Rightarrow> hashstr \<Rightarrow> cont \<Rightarrow> sys \<Rightarrow> sys" where
  "after_hook C t b n (K_open m) S =
     after_open t m (open_retry C t m (expire_specific_base_end C n b (cache S))) S"
| "after_hook C t b n K_close S = goes t Out (unlock_and_close_end C n b (cache S)) S"
| "after_hook C t b n (K_expire_all nb) S =
     after_expire t (K_expire_all (nb + 1))
       (expire_first_idle_begin C t None (expire_specific_base_end C n b (cache S))) S"
| "after_hook C t b n (K_expire mx fin nb) S =
     after_expire t (K_expire mx fin (nb + 1))
       (expire_turn C t mx fin (nb + 1) (expire_specific_base_end C n b (cache S))) S"

inductive bstep :: "(nat \<Rightarrow> gtimeval) \<Rightarrow> sys \<Rightarrow> sys \<Rightarrow> bool" for C where
  b_open: "\<not> aborted S \<Longrightarrow> lock S = None \<Longrightarrow> pcs S t = Out \<Longrightarrow> hashstr_wf n \<Longrightarrow> length (held S t) < 2 ^ 32 - 1 \<Longrightarrow>
    bstep C S (after_open t n (sqlx_cache_open_begin C t n (cache S)) S)"
| b_spin: "\<not> aborted S \<Longrightarrow> lock S = Some t \<Longrightarrow> pcs S t = Spin n \<Longrightarrow>
    bstep C S (after_open t n (open_retry C t n (cache S)) S)"
| b_woken: "\<not> aborted S \<Longrightarrow> lock S = None \<Longrightarrow> pcs S t = Waiting n b \<Longrightarrow>
    bstep C S (after_open t n (open_woken C t n b (cache S)) S)"
| b_late: "\<not> aborted S \<Longrightarrow> lock S = None \<Longrightarrow> pcs S t = Waiting n b \<Longrightarrow> open_timeout (cache S) \<ge> 0 \<Longrightarrow>
    bstep C S (after_open t n (open_late b (cache S)) S)"
| b_woken_closing: "\<not> aborted S \<Longrightarrow> lock S = None \<Longrightarrow> pcs S t = Waiting_closing n b \<Longrightarrow>
    bstep C S (after_open t n (open_retry C t n (cache S)) S)"
| b_late_closing: "\<not> aborted S \<Longrightarrow> lock S = None \<Longrightarrow> pcs S t = Waiting_closing n b \<Longrightarrow> open_timeout (cache S) \<ge> 0 \<Longrightarrow>
    bstep C S (after_open t n (open_late_closing b (cache S)) S)"
| b_close: "\<not> aborted S \<Longrightarrow> lock S = None \<Longrightarrow> pcs S t = Out \<Longrightarrow> (n, b) \<in> set (held S t) \<Longrightarrow>
    bstep C S (after_close t (n, b) (sqlx_cache_unlock_and_close_begin C (int b) force (cache S)) S)"
| b_hook: "\<not> aborted S \<Longrightarrow> lock S = None \<Longrightarrow> pcs S t = In_hook b n k \<Longrightarrow> bstep C S (after_hook C t b n k S)"
| b_expire_all: "\<not> aborted S \<Longrightarrow> lock S = None \<Longrightarrow> pcs S t = Out \<Longrightarrow>
    bstep C S (after_expire t (K_expire_all 0) (expire_first_idle_begin C t None ((cache S)\<lparr>used := True\<rparr>)) S)"
| b_expire: "\<not> aborted S \<Longrightarrow> lock S = None \<Longrightarrow> pcs S t = Out \<Longrightarrow>
    bstep C S (after_expire t (K_expire mx fin 0) (expire_turn C t mx fin 0 ((cache S)\<lparr>used := True\<rparr>)) S)"
| b_handle: "\<not> aborted S \<Longrightarrow> pcs S t = Out \<Longrightarrow> (n, b) \<in> set (held S t) \<Longrightarrow>
    bstep C S (S\<lparr>cache := sqlx_cache_set_handle b h (cache S)\<rparr>)"

inductive_cases bstep_cases: "bstep C S S'"

text \<open>The states reached from a cache just configured.\<close>

definition start :: "sqlx_cache \<Rightarrow> sys" where
  "start c = \<lparr>cache = c, pcs = (\<lambda>_. Out), held = (\<lambda>_. []), lock = None, aborted = False\<rparr>"

definition reach :: "(nat \<Rightarrow> gtimeval) \<Rightarrow> sqlx_cache \<Rightarrow> sys \<Rightarrow> bool" where
  "reach C c S \<longleftrightarrow> (bstep C)\<^sup>*\<^sup>* (start c) S"

text \<open>
  The counters. A count of a list takes the lock, so in a state where a thread has it the count
  waits, \<open>None\<close>; it changes nothing. The three counts of \<open>sqlx_cache_count\<close> take the lock one after the
  other, and the other threads run in between: \<open>S\<close> is the state of the call, \<open>S1\<close>, \<open>S2\<close> and
  \<open>S3\<close> those in which the three counts are done. A null cache has all its counters at zero.
\<close>

definition count_beacon :: "sys \<Rightarrow> blist \<Rightarrow> nat option" where
  "count_beacon S w =
     (if lock S = None then count_beacon_loop (cache S) (b_first (beacon_of (cache S) w)) 0 else None)"

fun sqlx_cache_count :: "sys option \<Rightarrow> sys \<Rightarrow> sys \<Rightarrow> sys \<Rightarrow> cache_counts option" where
  "sqlx_cache_count None S1 S2 S3 = Some \<lparr>cc_max = 0, cc_cold = 0, cc_hot = 0, cc_used = 0\<rparr>"
| "sqlx_cache_count (Some S) S1 S2 S3 =
     Option.bind (count_beacon S1 L_IDLE) (\<lambda>cold.
     Option.bind (count_beacon S2 L_IDLE_HOT) (\<lambda>hot.
     map_option (\<lambda>u. \<lparr>cc_max = bases_count (cache S), cc_cold = cold, cc_hot = hot, cc_used = u\<rparr>)
       (count_beacon S3 L_USED)))"

subsection \<open>The invariant on the slots and the threads\<close>

type_synonym slots = "nat \<Rightarrow> slot"
type_synonym holdings = "thread \<Rightarrow> (hashstr \<times> nat) list"

definition times_held :: "holdings \<Rightarrow> thread \<Rightarrow> nat \<Rightarrow> nat" where
  "times_held H t i = length (filter (\<lambda>p. snd p = i) (H t))"

text \<open>What the status of a slot says of it.\<close>

definition slot_ok :: "slots \<Rightarrow> (thread \<Rightarrow> pc) \<Rightarrow> holdings \<Rightarrow> nat \<Rightarrow> bool" where
  "slot_ok V P H i \<longleftrightarrow> s_heat (V i) = 0 \<and>
     (case s_st (V i) of
        STATUS_NONE \<Rightarrow> s_name (V i) = None \<and> s_owner (V i) = None \<and> s_open (V i) = 0
      | SQLX_BASE_FREE \<Rightarrow> s_name (V i) = None \<and> s_owner (V i) = None \<and> s_open (V i) = 0
      | SQLX_BASE_IDLE \<Rightarrow> s_name (V i) \<noteq> None \<and> s_owner (V i) = None \<and> s_open (V i) = 0
      | SQLX_BASE_IDLE_HOT \<Rightarrow> False
      | SQLX_BASE_USED \<Rightarrow> s_name (V i) \<noteq> None \<and>
          (\<exists>t. s_owner (V i) = Some t \<and> s_open (V i) = of_nat (times_held H t i) \<and> times_held H t i > 0)
      | SQLX_BASE_CLOSING \<Rightarrow> s_name (V i) \<noteq> None \<and> s_open (V i) = 0 \<and> (\<exists>t n k. s_owner (V i) = Some t \<and> P t = In_hook i n k))"

definition held_ok :: "nat \<Rightarrow> slots \<Rightarrow> holdings \<Rightarrow> bool" where
  "held_ok N V H \<longleftrightarrow> (\<forall>t n b. (n, b) \<in> set (H t) \<longrightarrow>
     b < N \<and> s_st (V b) = SQLX_BASE_USED \<and> s_owner (V b) = Some t \<and> s_name (V b) = Some n)"

definition hooks_ok :: "nat \<Rightarrow> slots \<Rightarrow> (thread \<Rightarrow> pc) \<Rightarrow> bool" where
  "hooks_ok N V P \<longleftrightarrow> (\<forall>t b n k. P t = In_hook b n k \<longrightarrow>
     b < N \<and> s_st (V b) = SQLX_BASE_CLOSING \<and> s_owner (V b) = Some t \<and> s_name (V b) = Some n)"

fun opens_now :: "pc \<Rightarrow> hashstr option" where
  "opens_now (Spin n) = Some n"
| "opens_now (Waiting n b) = Some n"
| "opens_now (Waiting_closing n b) = Some n"
| "opens_now (In_hook b m (K_open n)) = Some n"
| "opens_now _ = None"

definition calls_ok :: "(thread \<Rightarrow> pc) \<Rightarrow> holdings \<Rightarrow> bool" where
  "calls_ok P H \<longleftrightarrow> (\<forall>t. length (H t) < 2 ^ 32 \<and>
     (\<forall>n. opens_now (P t) = Some n \<longrightarrow> hashstr_wf n \<and> length (H t) < 2 ^ 32 - 1))"

definition lock_ok :: "(thread \<Rightarrow> pc) \<Rightarrow> thread option \<Rightarrow> bool" where
  "lock_ok P l \<longleftrightarrow> (\<forall>t. (\<exists>n. P t = Spin n) \<longleftrightarrow> l = Some t)"

definition waiters :: "(thread \<Rightarrow> pc) \<Rightarrow> nat \<Rightarrow> thread set" where
  "waiters P b = {t. \<exists>n. P t = Waiting n b}"

definition waits_ok :: "nat \<Rightarrow> int \<Rightarrow> slots \<Rightarrow> (thread \<Rightarrow> pc) \<Rightarrow> bool" where
  "waits_ok N W V P \<longleftrightarrow> finite {t. P t \<noteq> Out} \<and> (\<forall>t n b. P t = Waiting n b \<longrightarrow> b < N) \<and>
     (\<forall>b < N. s_wait (V b) = int (card (waiters P b)) \<and> (W > 0 \<longrightarrow> s_wait (V b) \<le> W))"

definition sinv :: "sys \<Rightarrow> bool" where
  "sinv S \<longleftrightarrow> \<not> aborted S \<and> cache_ok (cache S) \<and> named (cache S) \<and> heat_threshold (cache S) > 0 \<and>
     (\<forall>i < bases_count (cache S). slot_ok (sv (cache S)) (pcs S) (held S) i) \<and>
     held_ok (bases_count (cache S)) (sv (cache S)) (held S) \<and>
     hooks_ok (bases_count (cache S)) (sv (cache S)) (pcs S) \<and>
     calls_ok (pcs S) (held S) \<and> lock_ok (pcs S) (lock S) \<and>
     waits_ok (bases_count (cache S)) (max_waiting (cache S)) (sv (cache S)) (pcs S)"

text \<open>The invariant of a state, part by part.\<close>

lemma sinvI:
  assumes "\<not> aborted S" and "cache_ok (cache S)" and "named (cache S)" and "conf (cache S) = conf c" and "heat_threshold c > 0"
    and "\<And>i. i < bases_count c \<Longrightarrow> slot_ok (sv (cache S)) (pcs S) (held S) i"
    and "held_ok (bases_count c) (sv (cache S)) (held S)" and "hooks_ok (bases_count c) (sv (cache S)) (pcs S)"
    and "calls_ok (pcs S) (held S)" and "lock_ok (pcs S) (lock S)"
    and "waits_ok (bases_count c) (max_waiting c) (sv (cache S)) (pcs S)"
  shows "sinv S"
  using assms by (auto simp: sinv_def conf_def)

lemma sinvD:
  assumes "sinv S"
  shows "\<not> aborted S" and "cache_ok (cache S)" and "named (cache S)" and "heat_threshold (cache S) > 0"
    and "\<And>i. i < bases_count (cache S) \<Longrightarrow> slot_ok (sv (cache S)) (pcs S) (held S) i"
    and "held_ok (bases_count (cache S)) (sv (cache S)) (held S)" and "hooks_ok (bases_count (cache S)) (sv (cache S)) (pcs S)"
    and "calls_ok (pcs S) (held S)" and "lock_ok (pcs S) (lock S)"
    and "waits_ok (bases_count (cache S)) (max_waiting (cache S)) (sv (cache S)) (pcs S)"
  using assms by (auto simp: sinv_def)

subsubsection \<open>How the parts change\<close>

lemma times_held_Cons [simp]:
  "times_held (H(t := (n, b) # H t)) t' i = (if t' = t \<and> i = b then Suc (times_held H t i) else times_held H t' i)"
  by (simp add: times_held_def)

lemma times_held_remove1:
  "(n, b) \<in> set (H t) \<Longrightarrow> times_held (H(t := remove1 (n, b) (H t))) t' i =
     (if t' = t \<and> i = b then times_held H t i - 1 else times_held H t' i)"
  by (auto simp: times_held_def filter_remove1 length_remove1)

lemma times_held_pos: "times_held H t i > 0 \<longleftrightarrow> (\<exists>n. (n, i) \<in> set (H t))"
  by (force simp: times_held_def filter_empty_conv)

lemma times_held_le: "times_held H t i \<le> length (H t)"
  by (simp add: times_held_def)

text \<open>A slot other than the one that moves.\<close>

lemma slot_ok_other:
  assumes "slot_ok V P H i" and "V' i = V i" and "\<And>t. times_held H' t i = times_held H t i"
    and "\<And>t n k. P t = In_hook i n k \<Longrightarrow> \<exists>n k. P' t = In_hook i n k"
  shows "slot_ok V' P' H' i"
  using assms by (fastforce simp: slot_ok_def split: sqlx_base_status.splits)

lemma waiters_upd:
  "waiters (P(t := p)) b = (if \<exists>n. p = Waiting n b then insert t (waiters P b) else waiters P b - {t})"
  by (auto simp: waiters_def)

lemma waits_finite: "waits_ok N W V P \<Longrightarrow> finite (waiters P b)"
  by (rule finite_subset [of _ "{t. P t \<noteq> Out}"]) (auto simp: waits_ok_def waiters_def)

lemma finite_upd: "finite {t. P t \<noteq> Out} \<Longrightarrow> finite {t'. (P(t := p)) t' \<noteq> Out}"
  by (rule finite_subset [of _ "insert t {t. P t \<noteq> Out}"]) auto

text \<open>A thread that was not waiting, and is not after.\<close>

lemma waits_calm:
  assumes "waits_ok N W V P" and "\<And>n b. P t \<noteq> Waiting n b" and "\<And>n b. p \<noteq> Waiting n b"
    and "\<And>b. b < N \<Longrightarrow> s_wait (V' b) = s_wait (V b)"
  shows "waits_ok N W V' (P(t := p))"
proof -
  have "waiters (P(t := p)) b = waiters P b" for b using assms(2,3) by (auto simp: waiters_def)
  then show ?thesis using assms finite_upd [of P t p] by (auto simp: waits_ok_def)
qed

lemma waits_enter:
  assumes "waits_ok N W V P" and "\<And>n b. P t \<noteq> Waiting n b" and "b < N" and "W > 0 \<longrightarrow> s_wait (V b) < W"
  shows "waits_ok N W (V(b := (V b)\<lparr>s_wait := s_wait (V b) + 1\<rparr>)) (P(t := Waiting n b))"
proof -
  have "t \<notin> waiters P b'" for b' using assms(2) by (simp add: waiters_def)
  then show ?thesis
    using assms finite_upd [of P t "Waiting n b"] waits_finite [OF assms(1)] by (auto simp: waits_ok_def waiters_upd)
qed

lemma waits_leave:
  assumes "waits_ok N W V P" and "P t = Waiting n b"
  shows "waits_ok N W (V(b := (V b)\<lparr>s_wait := s_wait (V b) - 1\<rparr>)) (P(t := Out))"
proof -
  have "t \<in> waiters P b" "b' \<noteq> b \<Longrightarrow> t \<notin> waiters P b'" for b' using assms(2) by (auto simp: waiters_def)
  moreover have "card (waiters P b) > 0" using calculation(1) waits_finite [OF assms(1)] card_gt_0_iff by blast
  moreover have "b < N" using assms unfolding waits_ok_def by blast
  moreover have "W > 0 \<longrightarrow> int (card (waiters P b)) \<le> W" using assms(1) \<open>b < N\<close> unfolding waits_ok_def by metis
  ultimately show ?thesis
    using assms finite_upd [of P t Out] waits_finite [OF assms(1)] by (auto simp: waits_ok_def waiters_upd)
qed

lemma upd_out: "P t = Out \<Longrightarrow> P(t := Out) = P"
  by auto

lemma held_other: "held_ok N V H \<Longrightarrow> (m, i) \<in> set (H t) \<Longrightarrow> s_st (V b) \<noteq> SQLX_BASE_USED \<Longrightarrow> i \<noteq> b"
  by (auto simp: held_ok_def)

lemma hooks_other: "hooks_ok N V P \<Longrightarrow> P t = In_hook i n k \<Longrightarrow> s_st (V b) \<noteq> SQLX_BASE_CLOSING \<Longrightarrow> i \<noteq> b"
  by (auto simp: hooks_ok_def)

text \<open>A slot taken by a thread, for the first time or again.\<close>

lemma taken_inv:
  assumes S: "sinv S" "pcs S t = Out" "lock S = None" "length (held S t) < 2 ^ 32 - 1"
    and b: "b < bases_count (cache S)" "cache_ok c" "named c" "conf c = conf (cache S)"
    and sv: "sv c = (sv (cache S))(b := s)" "s_st s = SQLX_BASE_USED" "s_name s = Some n" "s_owner s = Some t"
      "s_open s = of_nat (Suc (times_held (held S) t b))" "s_wait s = s_wait (sv (cache S) b)" "s_heat s = 0"
    and old: "s_st (sv (cache S) b) \<noteq> SQLX_BASE_CLOSING"
      "s_st (sv (cache S) b) = SQLX_BASE_USED \<longrightarrow> s_owner (sv (cache S) b) = Some t \<and> s_name (sv (cache S) b) = Some n"
  shows "sinv ((goes t Out c S)\<lparr>held := (held S)(t := (n, b) # held S t)\<rparr>)"
proof -
  note D = sinvD [OF S(1)]
  let ?V = "sv (cache S)" and ?N = "bases_count (cache S)" and ?H = "(held S)(t := (n, b) # held S t)"
  have hooks: "P = pcs S \<Longrightarrow> P t' = In_hook i m k \<Longrightarrow> i \<noteq> b" for P t' i m k using hooks_other [OF D(7) _ old(1)] by blast
  have mine: "(m, b) \<in> set (held S t') \<Longrightarrow> t' = t \<and> m = n" for m t' using D(6) old(2) by (auto simp: held_ok_def)
  have "slot_ok (sv c) (pcs S) ?H i" if "i < ?N" for i
  proof (cases "i = b")
    case True
    then show ?thesis using sv by (simp add: slot_ok_def)
  next
    case False
    then show ?thesis by (intro slot_ok_other [OF D(5) [OF that]]) (auto simp: sv(1))
  qed
  moreover have "held_ok ?N (sv c) ?H"
    unfolding held_ok_def
  proof (intro allI impI)
    fix t' m x assume h: "(m, x) \<in> set (?H t')"
    have "x = b \<Longrightarrow> t' = t \<and> m = n" using h mine by (auto split: if_splits)
    moreover have "x \<noteq> b \<Longrightarrow> (m, x) \<in> set (held S t')" using h by (auto split: if_splits)
    moreover have "(m, x) \<in> set (held S t') \<Longrightarrow> x < ?N \<and> s_st (?V x) = SQLX_BASE_USED \<and> s_owner (?V x) = Some t' \<and> s_name (?V x) = Some m"
      using D(6) unfolding held_ok_def by blast
    ultimately show "x < ?N \<and> s_st (sv c x) = SQLX_BASE_USED \<and> s_owner (sv c x) = Some t' \<and> s_name (sv c x) = Some m"
      using b(1) sv by (cases "x = b") simp_all
  qed
  moreover have "hooks_ok ?N (sv c) (pcs S)" using D(7) hooks unfolding hooks_ok_def sv(1) by fastforce
  moreover have "calls_ok (pcs S) ?H" using D(8) S(2,4) by (auto simp: calls_ok_def)
  moreover have "waits_ok ?N (max_waiting (cache S)) (sv c) (pcs S)"
    using waits_calm [OF D(10), of t Out "sv c"] S(2) sv(1,6) by (simp add: upd_out)
  ultimately show ?thesis
    using D(1,4,9) b S(2,3) by (intro sinvI [where c = "cache S"]) (simp_all add: goes_def upd_out)
qed

text \<open>A slot that stays as it is.\<close>

lemma calm_inv:
  assumes S: "sinv S" "\<And>n b. pcs S t \<noteq> Waiting n b" "\<And>b n k. pcs S t \<noteq> In_hook b n k" "quiet (cache S) c" "sv c = sv (cache S)"
    and p: "\<And>n b. p \<noteq> Waiting n b" "\<And>b n k. p \<noteq> In_hook b n k" "\<And>n. opens_now p = Some n \<Longrightarrow> hashstr_wf n \<and> length (held S t) < 2 ^ 32 - 1"
    and l: "lock_ok ((pcs S)(t := p)) l"
  shows "sinv ((goes t p c S)\<lparr>lock := l\<rparr>)"
proof -
  note D = sinvD [OF S(1)]
  have n: "named c" using S(4) conf_count [of c "cache S"] by (intro named_same [OF D(3)]) (simp_all add: quiet_def S(5))
  have k: "pcs S t' = In_hook i m k \<Longrightarrow> ((pcs S)(t := p)) t' = In_hook i m k" for t' i m k
    using S(3) [of i m k] by (cases "t' = t") simp_all
  have "slot_ok (sv c) ((pcs S)(t := p)) (held S) i" if "i < bases_count (cache S)" for i
    by (rule slot_ok_other [OF D(5) [OF that]], simp add: S(5), simp) (use k in blast)
  moreover have "hooks_ok (bases_count (cache S)) (sv c) ((pcs S)(t := p))" using D(7) p(2) by (auto simp: hooks_ok_def S(5))
  moreover have "calls_ok ((pcs S)(t := p)) (held S)" using D(8) p(3) by (auto simp: calls_ok_def)
  ultimately show ?thesis
    using D(1,4,6) S(4,5) n l waits_calm [OF D(10) S(2) p(1), of "sv c"]
    by (intro sinvI [where c = "cache S"]) (simp_all add: goes_def quiet_def)
qed

text \<open>A thread that starts to wait, and one that ends.\<close>

lemma wait_inv:
  assumes S: "sinv S" "pcs S t = Out" "lock S = None" "hashstr_wf n" "length (held S t) < 2 ^ 32 - 1"
    and b: "b < bases_count (cache S)" "max_waiting (cache S) > 0 \<longrightarrow> s_wait (sv (cache S) b) < max_waiting (cache S)" "quiet (cache S) c"
      "sv c = (sv (cache S))(b := (sv (cache S) b)\<lparr>s_wait := s_wait (sv (cache S) b) + 1\<rparr>)"
  shows "sinv (goes t (Waiting n b) c S)"
proof -
  note D = sinvD [OF S(1)]
  let ?V = "sv (cache S)" and ?N = "bases_count (cache S)"
  have f: "s_st (sv c i) = s_st (?V i)" "s_name (sv c i) = s_name (?V i)" "s_owner (sv c i) = s_owner (?V i)"
    "s_open (sv c i) = s_open (?V i)" "s_heat (sv c i) = s_heat (?V i)" for i by (simp_all add: b(4))
  have n: "named c" using b(3) conf_count [of c "cache S"] by (intro named_same [OF D(3)]) (simp_all add: quiet_def f)
  have k: "pcs S t' = In_hook i m k \<longleftrightarrow> ((pcs S)(t := Waiting n b)) t' = In_hook i m k" for t' i m k
    using S(2) by (cases "t' = t") simp_all
  have "slot_ok (sv c) ((pcs S)(t := Waiting n b)) (held S) i" if "i < ?N" for i
    using D(5) [OF that] unfolding slot_ok_def f k .
  moreover have "hooks_ok ?N (sv c) ((pcs S)(t := Waiting n b))" using D(7) unfolding hooks_ok_def f k .
  moreover have "held_ok ?N (sv c) (held S)" using D(6) unfolding held_ok_def f .
  moreover have "calls_ok ((pcs S)(t := Waiting n b)) (held S)" using D(8) S(4,5) by (simp add: calls_ok_def)
  moreover have "lock_ok ((pcs S)(t := Waiting n b)) None" using D(9) S(3) by (simp add: lock_ok_def)
  moreover have "waits_ok ?N (max_waiting (cache S)) (sv c) ((pcs S)(t := Waiting n b))"
    unfolding b(4) using S(2) by (intro waits_enter [OF D(10) _ b(1,2)]) simp
  ultimately show ?thesis
    using D(1,4) b(3) n by (intro sinvI [where c = "cache S"]) (simp_all add: goes_def quiet_def)
qed

lemma unwait_inv:
  assumes S: "sinv S" "pcs S t = Waiting n b" "lock S = None" and b: "quiet (cache S) c"
      "sv c = (sv (cache S))(b := (sv (cache S) b)\<lparr>s_wait := s_wait (sv (cache S) b) - 1\<rparr>)"
  shows "sinv (goes t Out c S)"
proof -
  note D = sinvD [OF S(1)]
  let ?V = "sv (cache S)" and ?N = "bases_count (cache S)"
  have f: "s_st (sv c i) = s_st (?V i)" "s_name (sv c i) = s_name (?V i)" "s_owner (sv c i) = s_owner (?V i)"
    "s_open (sv c i) = s_open (?V i)" "s_heat (sv c i) = s_heat (?V i)" for i by (simp_all add: b(2))
  have n: "named c" using b(1) conf_count [of c "cache S"] by (intro named_same [OF D(3)]) (simp_all add: quiet_def f)
  have k: "pcs S t' = In_hook i m k \<longleftrightarrow> ((pcs S)(t := Out)) t' = In_hook i m k" for t' i m k
    using S(2) by (cases "t' = t") simp_all
  have "slot_ok (sv c) ((pcs S)(t := Out)) (held S) i" if "i < ?N" for i using D(5) [OF that] unfolding slot_ok_def f k .
  moreover have "hooks_ok ?N (sv c) ((pcs S)(t := Out))" using D(7) unfolding hooks_ok_def f k .
  moreover have "held_ok ?N (sv c) (held S)" using D(6) unfolding held_ok_def f .
  moreover have "calls_ok ((pcs S)(t := Out)) (held S)" using D(8) by (simp add: calls_ok_def)
  moreover have "lock_ok ((pcs S)(t := Out)) None" using D(9) S(3) by (simp add: lock_ok_def)
  moreover have "waits_ok ?N (max_waiting (cache S)) (sv c) ((pcs S)(t := Out))"
    unfolding b(2) by (rule waits_leave [OF D(10) S(2)])
  ultimately show ?thesis
    using D(1,4) b(1) n by (intro sinvI [where c = "cache S"]) (simp_all add: goes_def quiet_def)
qed

text \<open>A slot that a thread gives back, in whole or in part, or begins to close.\<close>

lemma moved_inv:
  assumes S: "sinv S" "lock S = None" "pcs S t = Out" "quiet (cache S) c"
    and sv: "sv c = (sv (cache S))(b := s)" "s_wait s = s_wait (sv (cache S) b)" "s_name s = s_name (sv (cache S) b)"
    and H: "\<And>t' i. i \<noteq> b \<Longrightarrow> times_held H t' i = times_held (held S) t' i" "\<And>t'. set (H t') \<subseteq> set (held S t')"
      "\<And>t'. length (H t') \<le> length (held S t')"
    and b: "slot_ok (sv c) ((pcs S)(t := p)) H b" "s_st (sv (cache S) b) \<noteq> SQLX_BASE_CLOSING"
      "\<And>t' m. (m, b) \<in> set (H t') \<Longrightarrow> s_st s = SQLX_BASE_USED \<and> s_owner s = Some t'"
    and p: "\<And>n x. p \<noteq> Waiting n x" "\<And>n. p \<noteq> Spin n" "\<And>n. opens_now p = Some n \<Longrightarrow> hashstr_wf n \<and> length (H t) < 2 ^ 32 - 1"
      "\<And>x m k. p = In_hook x m k \<Longrightarrow> x = b \<and> b < bases_count (cache S) \<and> s_st s = SQLX_BASE_CLOSING \<and> s_owner s = Some t \<and> s_name s = Some m"
  shows "sinv ((goes t p c S)\<lparr>held := H\<rparr>)"
proof -
  note D = sinvD [OF S(1)]
  let ?V = "sv (cache S)" and ?N = "bases_count (cache S)" and ?P = "(pcs S)(t := p)"
  have nm: "s_name (sv c i) = s_name (?V i)" for i using sv(1,3) by simp
  have n: "named c" using S(4) conf_count [of c "cache S"] by (intro named_same [OF D(3)]) (simp_all add: quiet_def nm)
  have k: "pcs S t' = In_hook i m k \<Longrightarrow> ?P t' = In_hook i m k" for t' i m k using S(3) by (cases "t' = t") simp_all
  have "slot_ok (sv c) ?P H i" if "i < ?N" for i
  proof (cases "i = b")
    case False
    show ?thesis by (rule slot_ok_other [OF D(5) [OF that]]) (use False sv(1) H(1) k in \<open>simp, simp, blast\<close>)
  qed (use b(1) in simp)
  moreover have "held_ok ?N (sv c) H"
    unfolding held_ok_def
  proof (intro allI impI)
    fix t' m x assume h: "(m, x) \<in> set (H t')"
    then have "(m, x) \<in> set (held S t')" using H(2) by blast
    then have o: "x < ?N \<and> s_st (?V x) = SQLX_BASE_USED \<and> s_owner (?V x) = Some t' \<and> s_name (?V x) = Some m"
      using D(6) unfolding held_ok_def by blast
    then show "x < ?N \<and> s_st (sv c x) = SQLX_BASE_USED \<and> s_owner (sv c x) = Some t' \<and> s_name (sv c x) = Some m"
      using b(3) [of m t'] h sv(1,3) by (cases "x = b") simp_all
  qed
  moreover have "hooks_ok ?N (sv c) ?P"
    unfolding hooks_ok_def
  proof (intro allI impI)
    fix t' x m k assume h: "?P t' = In_hook x m k"
    show "x < ?N \<and> s_st (sv c x) = SQLX_BASE_CLOSING \<and> s_owner (sv c x) = Some t' \<and> s_name (sv c x) = Some m"
    proof (cases "t' = t")
      case True
      then show ?thesis using p(4) [of x m k] h sv(1) by simp
    next
      case False
      then have "pcs S t' = In_hook x m k" using h by simp
      then have "x < ?N \<and> s_st (?V x) = SQLX_BASE_CLOSING \<and> s_owner (?V x) = Some t' \<and> s_name (?V x) = Some m" "x \<noteq> b"
        using D(7) hooks_other [OF D(7) _ b(2)] unfolding hooks_ok_def by blast+
      then show ?thesis using sv(1) by simp
    qed
  qed
  moreover have "calls_ok ?P H"
    unfolding calls_ok_def
  proof (intro allI conjI impI)
    fix t'
    have o: "length (held S t') < 2 ^ 32" "opens_now (pcs S t') = Some m \<longrightarrow> hashstr_wf m \<and> length (held S t') < 2 ^ 32 - 1" for m
      using D(8) by (auto simp: calls_ok_def)
    show "length (H t') < 2 ^ 32" using le_less_trans [OF H(3) o(1)] .
    fix m assume "opens_now (?P t') = Some m"
    then show "hashstr_wf m" "length (H t') < 2 ^ 32 - 1"
      using p(3) [of m] o(2) [of m] le_less_trans [OF H(3) [of t'], of "2 ^ 32 - 1"] by (cases "t' = t"; simp)+
  qed
  moreover have "lock_ok ?P None" using D(9) S(2) p(2) by (simp add: lock_ok_def)
  moreover have "waits_ok ?N (max_waiting (cache S)) (sv c) ?P"
    using S(3) sv(1,2) p(1) by (intro waits_calm [OF D(10)]) simp_all
  ultimately show ?thesis
    using D(1,4) S(4) n by (intro sinvI [where c = "cache S"]) (simp_all add: goes_def quiet_def)
qed

text \<open>The end of a close.\<close>

lemma unhook_inv:
  assumes S: "sinv S" "lock S = None" "pcs S t = In_hook b n k"
    and c: "cache_ok c" "conf c = conf (cache S)" "bases_by_name c = g_tree_remove hashstr_quick_cmp (bases_by_name (cache S)) n"
      "sv c = (sv (cache S))(b := (sv (cache S) b)\<lparr>s_st := SQLX_BASE_FREE, s_name := None, s_owner := None, s_open := 0\<rparr>)"
  shows "sinv (goes t Out c S)"
proof -
  note D = sinvD [OF S(1)]
  let ?V = "sv (cache S)" and ?N = "bases_count (cache S)" and ?P = "(pcs S)(t := Out)"
  have b: "b < ?N" "s_st (?V b) = SQLX_BASE_CLOSING" "s_owner (?V b) = Some t" "s_name (?V b) = Some n"
    using D(7) S(3) unfolding hooks_ok_def by blast+
  have n: "named c"
    by (rule named_remove [OF D(3) b(1,4) c(3) conf_count [OF c(2)]]) (simp add: c(4))
  have "slot_ok (sv c) ?P (held S) i" if "i < ?N" for i
  proof (cases "i = b")
    case True
    then show ?thesis using D(5) [OF b(1)] by (simp add: slot_ok_def c(4))
  next
    case False
    have "pcs S t' = In_hook i m j \<Longrightarrow> ?P t' = In_hook i m j" for t' m j using S(3) False by (cases "t' = t") simp_all
    then show ?thesis by (intro slot_ok_other [OF D(5) [OF that]]) (use False c(4) in \<open>simp_all, blast?\<close>)
  qed
  moreover have "held_ok ?N (sv c) (held S)"
    using D(6) held_other [OF D(6), of _ _ _ b] b(2) unfolding held_ok_def c(4) by fastforce
  moreover have "hooks_ok ?N (sv c) ?P"
    unfolding hooks_ok_def
  proof (intro allI impI)
    fix t' x m j assume "?P t' = In_hook x m j"
    then have h: "pcs S t' = In_hook x m j" "t' \<noteq> t" by (auto split: if_splits)
    then have "x < ?N \<and> s_st (?V x) = SQLX_BASE_CLOSING \<and> s_owner (?V x) = Some t' \<and> s_name (?V x) = Some m"
      using D(7) unfolding hooks_ok_def by blast
    then show "x < ?N \<and> s_st (sv c x) = SQLX_BASE_CLOSING \<and> s_owner (sv c x) = Some t' \<and> s_name (sv c x) = Some m"
      using b(3) h(2) c(4) by (cases "x = b") simp_all
  qed
  moreover have "calls_ok ?P (held S)" using D(8) by (simp add: calls_ok_def)
  moreover have "lock_ok ?P None" using D(9) S(2) by (simp add: lock_ok_def)
  moreover have "waits_ok ?N (max_waiting (cache S)) (sv c) ?P"
    using S(3) c(4) by (intro waits_calm [OF D(10)]) simp_all
  ultimately show ?thesis using D(1,4) c(1,2) n by (intro sinvI [where c = "cache S"]) (simp_all add: goes_def)
qed

subsubsection \<open>Every step keeps the invariant\<close>

lemma free_unnamed: "sinv S \<Longrightarrow> \<forall>i < bases_count (cache S). s_st (sv (cache S) i) = SQLX_BASE_FREE \<longrightarrow> s_name (sv (cache S) i) = None"
  using sinvD(5) by (fastforce simp: slot_ok_def)

text \<open>The start of an expiration.\<close>

lemma hook_inv:
  assumes S: "sinv S" "lock S = None" "pcs S t = Out"
    and b: "b < bases_count (cache S)" "s_st (sv (cache S) b) \<in> {SQLX_BASE_IDLE, SQLX_BASE_IDLE_HOT}" "quiet (cache S) c"
      "sv c = (sv (cache S))(b := (sv (cache S) b)\<lparr>s_st := SQLX_BASE_CLOSING, s_owner := Some t\<rparr>)"
    and k: "\<And>n. opens_now (In_hook b (name_of c b) k) = Some n \<Longrightarrow> hashstr_wf n \<and> length (held S t) < 2 ^ 32 - 1"
  shows "sinv (goes t (In_hook b (name_of c b) k) c S)"
proof -
  note D = sinvD [OF S(1)]
  have ok: "slot_ok (sv (cache S)) (pcs S) (held S) b" using D(5) b(1) .
  have "name_of c b = the (s_name (sv c b))" by (simp add: name_of_def sv_sel(2))
  moreover have "s_name (sv c b) = s_name (sv (cache S) b)" by (simp add: b(4))
  moreover have "s_name (sv (cache S) b) \<noteq> None" using ok b(2) by (auto simp: slot_ok_def)
  ultimately have nm: "s_name (sv c b) = Some (name_of c b)" "s_name (sv (cache S) b) = Some (name_of c b)" by auto
  have none: "(m, b) \<notin> set (held S t')" for m t' using held_other [OF D(6), of m b t' b] b(2) by auto
  have "sinv ((goes t (In_hook b (name_of c b) k) c S)\<lparr>held := held S\<rparr>)"
    using ok nm none k b
    by (intro moved_inv [OF S(1,2,3) b(3,4)]) (auto simp: slot_ok_def b(4))
  then show ?thesis by (simp add: goes_def)
qed

lemma open_inv:
  assumes S: "sinv S" "pcs S t = Out" "lock S = None" "hashstr_wf n" "length (held S t) < 2 ^ 32 - 1"
    and e: "open_effect t n (cache S) c r"
  shows "sinv (after_open t n (r, c) S)"
proof -
  note D = sinvD [OF S(1)]
  let ?V = "sv (cache S)" and ?N = "bases_count (cache S)"
  have ok: "i < ?N \<Longrightarrow> slot_ok ?V (pcs S) (held S) i" for i using D(5) .
  have calm: "sinv ((goes t p c S)\<lparr>lock := l\<rparr>)"
    if "quiet (cache S) c" "sv c = ?V" "\<And>n b. p \<noteq> Waiting n b" "\<And>b n k. p \<noteq> In_hook b n k" "p = Out \<or> opens_now p = Some n"
      "lock_ok ((pcs S)(t := p)) l" for p l
    using that S by (intro calm_inv [OF S(1)]) auto
  have q: "quiet (cache S) (cache S)" using D(2) by (simp add: quiet_def)
  have lk: "lock_ok ((pcs S)(t := Out)) None" "lock_ok ((pcs S)(t := Spin n)) (Some t)" "lock_ok ((pcs S)(t := Waiting_closing n b)) None" for b
    using D(9) S(3) by (auto simp: lock_ok_def)
  have g: "(goes t p c S)\<lparr>lock := None\<rparr> = goes t p c S" for p by (simp add: goes_def)
  show ?thesis
  proof (cases r)
    case (Opened x)
    show ?thesis
    proof (cases x)
      case None
      then obtain b where "b < ?N" "s_name (?V b) = Some n" "s_st (?V b) = STATUS_NONE" using e Opened by auto
      then show ?thesis using ok [of b] by (simp add: slot_ok_def)
    next
      case (Some b)
      have b: "b < ?N" "cache_ok c" "named c" "conf c = conf (cache S)" using e Opened Some by auto
      note ob = ok [OF b(1)]
      have h: "s_st (?V b) \<noteq> SQLX_BASE_USED \<Longrightarrow> times_held (held S) t b = 0"
        using times_held_pos [of "held S" t b] held_other [OF D(6), of _ b t b] by auto
      consider (free) "s_st (?V b) = SQLX_BASE_FREE" "sv c = ?V(b := (?V b)\<lparr>s_st := SQLX_BASE_USED, s_name := Some n, s_owner := Some t, s_open := 1\<rparr>)"
        | (idle) "s_name (?V b) = Some n" "s_st (?V b) \<in> {SQLX_BASE_IDLE, SQLX_BASE_IDLE_HOT}"
          "sv c = ?V(b := (?V b)\<lparr>s_st := SQLX_BASE_USED, s_owner := Some t, s_open := s_open (?V b) + 1\<rparr>)"
        | (mine) "s_name (?V b) = Some n" "s_st (?V b) = SQLX_BASE_USED" "s_owner (?V b) = Some t"
          "sv c = ?V(b := (?V b)\<lparr>s_st := SQLX_BASE_USED, s_owner := Some t, s_open := s_open (?V b) + 1\<rparr>)"
        using e Opened Some by auto
      then show ?thesis unfolding Opened Some after_open.simps
      proof cases
        case free
        show "sinv ((goes t Out c S)\<lparr>held := (held S)(t := (n, b) # held S t)\<rparr>)"
          using ob h free(1) by (intro taken_inv [OF S(1,2,3,5) b free(2)]) (auto simp: slot_ok_def)
      next
        case idle
        show "sinv ((goes t Out c S)\<lparr>held := (held S)(t := (n, b) # held S t)\<rparr>)"
          using ob h idle(1,2) by (intro taken_inv [OF S(1,2,3,5) b idle(3)]) (auto simp: slot_ok_def)
      next
        case mine
        show "sinv ((goes t Out c S)\<lparr>held := (held S)(t := (n, b) # held S t)\<rparr>)"
          using ob mine(1,2,3) by (intro taken_inv [OF S(1,2,3,5) b mine(4)]) (auto simp: slot_ok_def)
      qed
    qed
  next
    case (Refused x)
    then show ?thesis using e calm [of Out None] lk(1) g by simp
  next
    case Retry
    then show ?thesis using e calm [of "Spin n" "Some t"] lk(2) q by simp
  next
    case (Wait b)
    then show ?thesis using e wait_inv [OF S(1,2,3,4,5)] by simp
  next
    case (Wait_closing b)
    then show ?thesis using e calm [of "Waiting_closing n b" None] lk(3) g q by simp
  next
    case (Hook b)
    then show ?thesis using e S(4,5) by (auto intro: hook_inv [OF S(1,3,2)])
  next
    case Abort
    then obtain b where "b < ?N" "s_name (?V b) = Some n" "s_st (?V b) = SQLX_BASE_FREE" using e by auto
    then show ?thesis using ok [of b] by (simp add: slot_ok_def)
  qed
qed

lemma goes_simps [simp]:
  "cache (goes t p c S) = c" "pcs (goes t p c S) = (pcs S)(t := p)" "held (goes t p c S) = held S" "lock (goes t p c S) = None"
  "aborted (goes t p c S) = aborted S"
  by (simp_all add: goes_def)

lemma after_open_goes: "after_open t n x (goes t p c S) = after_open t n x S"
  by (cases "(t, n, x, S)" rule: after_open.cases) (simp_all add: goes_def)

lemma after_expire_goes: "after_expire t k x (goes t p c S) = after_expire t k x S"
  by (cases "(t, k, x, S)" rule: after_expire.cases) (simp_all add: goes_def)

lemma retry_inv:
  assumes "sinv S" "pcs S t = Out" "lock S = None" "hashstr_wf n" "length (held S t) < 2 ^ 32 - 1"
  shows "sinv (after_open t n (open_retry C t n (cache S)) S)"
proof -
  obtain r c where r: "open_retry C t n (cache S) = (r, c)" by (metis surj_pair)
  from open_retry_spec [OF sinvD(2,3) [OF assms(1)] assms(4) free_unnamed [OF assms(1)] r]
  show ?thesis unfolding r by (rule open_inv [OF assms])
qed

text \<open>A change of the cache that nobody sees.\<close>

lemma quiet_inv: "sinv S \<Longrightarrow> pcs S t = Out \<Longrightarrow> lock S = None \<Longrightarrow> quiet (cache S) c \<Longrightarrow> sv c = sv (cache S) \<Longrightarrow> sinv (goes t Out c S)"
  using calm_inv [of S t c Out None] sinvD(9) [of S] by (simp add: upd_out goes_def)

lemma expire_inv:
  assumes S: "sinv S" "pcs S t = Out" "lock S = None"
    and x: "case r of None \<Rightarrow> quiet (cache S) c \<and> sv c = sv (cache S)
      | Some b \<Rightarrow> b < bases_count (cache S) \<and> s_st (sv (cache S) b) \<in> {SQLX_BASE_IDLE, SQLX_BASE_IDLE_HOT} \<and> quiet (cache S) c \<and>
        sv c = (sv (cache S))(b := (sv (cache S) b)\<lparr>s_st := SQLX_BASE_CLOSING, s_owner := Some t\<rparr>)"
    and k: "\<And>b m n. opens_now (In_hook b m k) \<noteq> Some n"
  shows "sinv (after_expire t k (r, c) S)"
proof (cases r)
  case None
  then show ?thesis using quiet_inv [OF S] x by simp
next
  case (Some b)
  then have "b < bases_count (cache S)" "s_st (sv (cache S) b) \<in> {SQLX_BASE_IDLE, SQLX_BASE_IDLE_HOT}" "quiet (cache S) c"
    "sv c = (sv (cache S))(b := (sv (cache S) b)\<lparr>s_st := SQLX_BASE_CLOSING, s_owner := Some t\<rparr>)" using x by auto
  then show ?thesis unfolding Some after_expire.simps by (rule hook_inv [OF S(1,3,2)]) (simp add: k)
qed

lemma expire_first_inv:
  assumes "sinv S" "pcs S t = Out" "lock S = None"
  shows "sinv (after_expire t (K_expire_all nb) (expire_first_idle_begin C t None (cache S)) S)"
proof -
  obtain r c where r: "expire_first_idle_begin C t None (cache S) = (r, c)" by (metis surj_pair)
  note E = expire_first_spec [OF sinvD(2) [OF assms(1)] r]
  show ?thesis unfolding r
    by (rule expire_inv [OF assms]) (use E sinvD(2) [OF assms(1)] in \<open>auto simp: quiet_def split: option.splits\<close>)
qed

lemma expire_turn_inv:
  assumes "sinv S" "pcs S t = Out" "lock S = None"
  shows "sinv (after_expire t (K_expire mx fin nb) (expire_turn C t mx fin nb' (cache S)) S)"
proof -
  obtain r c where r: "expire_turn C t mx fin nb' (cache S) = (r, c)" by (metis surj_pair)
  show ?thesis unfolding r
    by (rule expire_inv [OF assms]) (use expire_turn_spec [OF sinvD(2) [OF assms(1)] r] in \<open>auto split: option.splits\<close>)
qed

lemma hook_end_inv:
  assumes "sinv S" "lock S = None" "pcs S t = In_hook b n k"
  shows "sinv (goes t Out (expire_specific_base_end C n b (cache S)) S)" "sinv (goes t Out (unlock_and_close_end C n b (cache S)) S)"
proof -
  have b: "b < bases_count (cache S)" using sinvD(7) [OF assms(1)] assms(3) unfolding hooks_ok_def by blast
  note E = expire_base_end_sv [OF sinvD(2) [OF assms(1)] b, of C n]
  show "sinv (goes t Out (expire_specific_base_end C n b (cache S)) S)" "sinv (goes t Out (unlock_and_close_end C n b (cache S)) S)"
    using E unfolding expire_specific_base_end_def unlock_and_close_end_def by (intro unhook_inv [OF assms]; simp)+
qed

lemma after_hook_inv:
  assumes "sinv S" "lock S = None" "pcs S t = In_hook b n k"
  shows "sinv (after_hook C t b n k S)"
proof -
  note H = hook_end_inv [OF assms, of C]
  show ?thesis
  proof (cases k)
    case (K_open m)
    have "hashstr_wf m \<and> length (held S t) < 2 ^ 32 - 1"
      using sinvD(8) [OF assms(1)] assms(3) K_open unfolding calls_ok_def by (metis opens_now.simps(4))
    then show ?thesis using retry_inv [OF H(1), of t m C] K_open by (simp add: after_open_goes)
  next
    case K_close
    then show ?thesis using H(2) by simp
  next
    case (K_expire_all nb)
    then show ?thesis using expire_first_inv [OF H(1), of t "nb + 1" C] by (simp add: after_expire_goes)
  next
    case (K_expire mx fin nb)
    then show ?thesis using expire_turn_inv [OF H(1), of t mx fin "nb + 1" C "nb + 1"] by (simp add: after_expire_goes)
  qed
qed

lemma unwait_sv:
  assumes "cache_ok c" and "b < bases_count c"
  defines "c' \<equiv> set_base b (\<lambda>x. x\<lparr>count_waiting := count_waiting x - 1\<rparr>) c"
  shows "quiet c c' \<and> sv c' = (sv c)(b := (sv c b)\<lparr>s_wait := s_wait (sv c b) - 1\<rparr>)"
  using set_base_ok [OF assms(1)] set_base_sv [OF assms(1,2)] by (simp add: c'_def quiet_def sv_def)

lemma close_inv:
  assumes S: "sinv S" "pcs S t = Out" "lock S = None" "(n, b) \<in> set (held S t)"
  shows "sinv (after_close t (n, b) (sqlx_cache_unlock_and_close_begin C (int b) force (cache S)) S)"
proof -
  note D = sinvD [OF S(1)]
  let ?V = "sv (cache S)" and ?H = "(held S)(t := remove1 (n, b) (held S t))"
  have b: "b < bases_count (cache S)" "s_st (?V b) = SQLX_BASE_USED" "s_owner (?V b) = Some t" "s_name (?V b) = Some n"
    using D(6) S(4) unfolding held_ok_def by blast+
  have mine: "(m, b) \<in> set (held S t') \<Longrightarrow> t' = t \<and> m = n" for t' m using D(6) b(3,4) by (auto simp: held_ok_def)
  have ok: "s_heat (?V b) = 0" "s_open (?V b) = of_nat (times_held (held S) t b)"
    using D(5) [OF b(1)] b(2,3) by (auto simp: slot_ok_def)
  have pos: "times_held (held S) t b > 0" using times_held_pos S(4) by blast
  have len: "times_held (held S) t b < 2 ^ 32" using D(8) times_held_le [of "held S" t b] by (auto simp: calls_ok_def intro: le_less_trans)
  have one: "s_open (?V b) = 1 \<longleftrightarrow> times_held (held S) t b = 1"
  proof -
    have "unat (of_nat (times_held (held S) t b) :: u32) = times_held (held S) t b" using len by (simp add: unat_of_nat)
    then show ?thesis unfolding ok(2) by (auto dest: arg_cong [of _ _ unat])
  qed
  have rem: "times_held ?H t' i = (if t' = t \<and> i = b then times_held (held S) t b - 1 else times_held (held S) t' i)" for t' i
    using times_held_remove1 [of n b "held S" t, OF S(4)] by simp
  have last: "(m, b) \<notin> set (?H t')" if "times_held (held S) t b = 1" for m t'
  proof
    assume m: "(m, b) \<in> set (?H t')"
    then have "(m, b) \<in> set (held S t')" using set_remove1_subset [of "(n, b)" "held S t"] by (auto split: if_splits)
    then have "t' = t" using mine by blast
    then show False using m rem [of t b] that times_held_pos [of ?H t b] by auto
  qed
  have H: "i \<noteq> b \<Longrightarrow> times_held ?H t' i = times_held (held S) t' i" "set (?H t') \<subseteq> set (held S t')" "length (?H t') \<le> length (held S t')" for t' i
    using rem set_remove1_subset [of "(n, b)" "held S t"] by (auto simp: length_remove1)
  obtain r c where r: "sqlx_cache_unlock_and_close_begin C (int b) force (cache S) = (r, c)" by (metis surj_pair)
  have heat: "s_heat (?V b) < heat_threshold (cache S)" using ok(1) D(4) by simp
  note E = close_spec [OF D(2) b(1,2) heat r]
  have q: "quiet (cache S) c" using E by simp
  show ?thesis
  proof (cases "times_held (held S) t b = 1")
    case False
    then have E1: "r = Closed None" "sv c = ?V(b := (?V b)\<lparr>s_open := s_open (?V b) - 1\<rparr>)" using E one by auto
    have o: "s_open (?V b) - 1 = of_nat (times_held ?H t b)" "times_held ?H t b > 0"
      using pos False rem [of t b] by (simp_all add: ok(2) of_nat_diff)
    have so: "slot_ok (sv c) ((pcs S)(t := Out)) ?H b" using o b(2-4) ok(1) by (simp add: slot_ok_def E1(2))
    have m: "(m, b) \<in> set (?H t') \<Longrightarrow> t' = t" for m t' using subsetD [OF H(2) [of t'], of "(m, b)"] mine [of m t'] by blast
    let ?s = "(?V b)\<lparr>s_open := s_open (?V b) - 1\<rparr>"
    have used: "s_st ?s = SQLX_BASE_USED \<and> s_owner ?s = Some t'" if "(m', b) \<in> set (?H t')" for t' m'
      using m [OF that] b(2,3) by simp
    have "sinv ((goes t Out c S)\<lparr>held := ?H\<rparr>)"
    proof (rule moved_inv [of S t c b ?s ?H Out, OF S(1,3,2) q E1(2)])
      show "s_wait ?s = s_wait (?V b)" "s_name ?s = s_name (?V b)" by simp_all
      show "s_st (?V b) \<noteq> SQLX_BASE_CLOSING" unfolding b(2) by simp
      show "slot_ok (sv c) ((pcs S)(t := Out)) ?H b" by (rule so)
      show "times_held ?H t' i = times_held (held S) t' i" if "i \<noteq> b" for t' i using that by (rule H(1))
      show "set (?H t') \<subseteq> set (held S t')" "length (?H t') \<le> length (held S t')" for t' by (rule H)+
      show "s_st ?s = SQLX_BASE_USED \<and> s_owner ?s = Some t'" if "(m', b) \<in> set (?H t')" for t' m' using that by (rule used)
    qed simp_all
    then show ?thesis unfolding r E1(1) after_close.simps .
  next
    case True
    show ?thesis
    proof (cases force)
      case F: True
      then have E1: "r = Close_hook b" "sv c = ?V(b := (?V b)\<lparr>s_open := 0, s_st := SQLX_BASE_CLOSING\<rparr>)" using E one True by auto
      have "name_of c b = the (s_name (sv c b))" by (simp add: name_of_def sv_sel(2))
      then have nm: "name_of c b = n" using E1(2) b(4) by simp
      show ?thesis unfolding r E1(1) after_close.simps nm
        using H b ok(1) last [OF True]
        by (intro moved_inv [OF S(1,3,2) q E1(2)]) (auto simp: slot_ok_def E1(2))
    next
      case F: False
      then have E1: "r = Closed None" "sv c = ?V(b := (?V b)\<lparr>s_open := 0, s_owner := None, s_st := SQLX_BASE_IDLE\<rparr>)" using E one True by auto
      show ?thesis unfolding r E1(1) after_close.simps
        using H b ok(1) last [OF True]
        by (intro moved_inv [OF S(1,3,2) q E1(2)]) (auto simp: slot_ok_def E1(2))
    qed
  qed
qed

lemma bstep_inv: "bstep C S S' \<Longrightarrow> sinv S \<Longrightarrow> sinv S'"
proof (induction rule: bstep.induct)
  case (b_open S t n)
  have "sinv (goes t Out ((cache S)\<lparr>used := True\<rparr>) S)"
    using b_open sinvD(2) [OF b_open(6)] by (intro quiet_inv) (simp_all add: quiet_def)
  from retry_inv [OF this, of t n C] show ?case using b_open by (simp add: sqlx_cache_open_begin_def after_open_goes)
next
  case (b_spin S t n)
  have l: "lock_ok ((pcs S)(t := Out)) None" using sinvD(9) [OF b_spin(4)] b_spin(2) unfolding lock_ok_def by auto
  have "sinv ((goes t Out (cache S) S)\<lparr>lock := None\<rparr>)"
    using b_spin sinvD(2) [OF b_spin(4)] l by (intro calm_inv) (simp_all add: quiet_def)
  then have "sinv (goes t Out (cache S) S)" by (simp add: goes_def)
  moreover have "hashstr_wf n \<and> length (held S t) < 2 ^ 32 - 1"
    using sinvD(8) [OF b_spin(4)] b_spin(3) unfolding calls_ok_def by (metis opens_now.simps(1))
  ultimately show ?case using retry_inv [of "goes t Out (cache S) S" t n C] by (simp add: after_open_goes)
next
  case (b_woken S t n b)
  have bN: "b < bases_count (cache S)" using sinvD(10) [OF b_woken(4)] b_woken(3) unfolding waits_ok_def by blast
  let ?c = "set_base b (\<lambda>x. x\<lparr>count_waiting := count_waiting x - 1\<rparr>) (cache S)"
  have "sinv (goes t Out ?c S)" using unwait_sv [OF sinvD(2) [OF b_woken(4)] bN] by (intro unwait_inv [OF b_woken(4,3,2)]) simp_all
  moreover have "hashstr_wf n \<and> length (held S t) < 2 ^ 32 - 1"
    using sinvD(8) [OF b_woken(4)] b_woken(3) unfolding calls_ok_def by (metis opens_now.simps(2))
  ultimately show ?case using retry_inv [of "goes t Out ?c S" t n C] by (simp add: after_open_goes open_woken_def)
next
  case (b_late S t n b)
  have bN: "b < bases_count (cache S)" using sinvD(10) [OF b_late(5)] b_late(3) unfolding waits_ok_def by blast
  show ?case using unwait_sv [OF sinvD(2) [OF b_late(5)] bN]
    by (simp add: open_late_def open_done_def, intro unwait_inv [OF b_late(5,3,2)]) (simp_all add: quiet_def)
next
  case (b_woken_closing S t n b)
  have "sinv (goes t Out (cache S) S)"
    using b_woken_closing calm_inv [of S t "cache S" Out None] sinvD(2,9) [OF b_woken_closing(4)]
    by (simp add: quiet_def lock_ok_def) (simp add: goes_def)
  moreover have "hashstr_wf n \<and> length (held S t) < 2 ^ 32 - 1"
    using sinvD(8) [OF b_woken_closing(4)] b_woken_closing(3) unfolding calls_ok_def by (metis opens_now.simps(3))
  ultimately show ?case using retry_inv [of "goes t Out (cache S) S" t n C] by (simp add: after_open_goes)
next
  case (b_late_closing S t n b)
  show ?case
    using b_late_closing calm_inv [of S t "g_cond_signal b (cache S)" Out None] sinvD(2,9) [OF b_late_closing(5)]
    by (simp add: open_late_closing_def open_done_def quiet_def lock_ok_def) (simp add: goes_def)
next
  case (b_close S t n b force)
  then show ?case by (intro close_inv)
next
  case (b_hook S t b n k)
  then show ?case by (intro after_hook_inv)
next
  case (b_expire_all S t)
  have "sinv (goes t Out ((cache S)\<lparr>used := True\<rparr>) S)"
    using b_expire_all sinvD(2) [OF b_expire_all(4)] by (intro quiet_inv) (simp_all add: quiet_def)
  from expire_first_inv [OF this, of t 0 C] show ?case by (simp add: after_expire_goes)
next
  case (b_expire S t mx fin)
  have "sinv (goes t Out ((cache S)\<lparr>used := True\<rparr>) S)"
    using b_expire sinvD(2) [OF b_expire(4)] by (intro quiet_inv) (simp_all add: quiet_def)
  from expire_turn_inv [OF this, of t mx fin 0 C 0] show ?case by (simp add: after_expire_goes)
next
  case (b_handle S t n b h)
  let ?c = "sqlx_cache_set_handle b h (cache S)"
  note D = sinvD [OF b_handle(4)]
  have bN: "b < bases_count (cache S)" using D(6) b_handle(3) unfolding held_ok_def by blast
  have o: "cache_ok ?c" "sv ?c = sv (cache S)" "conf ?c = conf (cache S)" "bases_by_name ?c = bases_by_name (cache S)"
    using set_base_ok [OF D(2)] set_base_sv [OF D(2) bN] by (simp_all add: sqlx_cache_set_handle_def sv_def fun_eq_iff)
  have "named ?c" using o conf_count [OF o(3)] by (intro named_same [OF D(3)]) simp_all
  then show ?case using D o by (intro sinvI [where c = "cache S"]) simp_all
qed

lemma start_inv:
  assumes "\<not> used c" and "bases_by_name c = []" and "heat_threshold c > 0" and "mx > 0"
    and "sqlx_cache_reset_bases C mx c = Some c'"
  shows "sinv (start c')"
proof -
  obtain c1 where r: "sqlx_cache_reset_bases C mx c = Some c1" "frame c1 = frame (c\<lparr>bases_count := mx\<rparr>)" "\<exists>L. placed c1 L"
    "\<And>j. j < mx \<Longrightarrow> fresh_slot (GET c1 j) \<and> status c1 j = (if j = 0 then STATUS_NONE else SQLX_BASE_FREE)"
    using reset_bases_spec [OF assms(1,4), of C] by blast
  then have c1: "c1 = c'" using assms(5) by simp
  note F = frameD [OF r(2)[unfolded c1]]
  have v: "s_name (sv c' i) = None" "s_st (sv c' i) = (if i = 0 then STATUS_NONE else SQLX_BASE_FREE)" "s_wait (sv c' i) = 0"
    "s_heat (sv c' i) = 0" "s_owner (sv c' i) = None" "s_open (sv c' i) = 0" if "i < mx" for i using r(4) [OF that] c1 by (auto simp: sv_def fresh_slot_def)
  have n: "named c'" using F v assms(2) by (auto simp: named_def hstr.ok_Nil)
  show ?thesis
    using r(3) c1 n F v assms(3)
    by (intro sinvI [where c = c']) (auto simp: start_def cache_ok_def slot_ok_def held_ok_def hooks_ok_def calls_ok_def lock_ok_def waits_ok_def waiters_def)
qed

end
