(* ===== verification/Base_Cache_Properties.thy ===== *)
theory Base_Cache_Properties
  imports Base_Cache_Threads
begin

section \<open>What the cache of bases promises to its threads\<close>

text \<open>
  The properties of \<open>sqliterepo/cache.c\<close> in every state that threads can reach from a cache
  just configured, by the invariant of \<open>Base_Cache_Threads\<close>: a base has one user at a time, the
  status of a slot says what it holds, the counters count, and a cache with no slot left hangs.
\<close>

subsection \<open>Reachable states\<close>

text \<open>A cache that no call but the setters has touched.\<close>

definition new_cache :: "sqlx_cache \<Rightarrow> bool" where
  "new_cache c \<longleftrightarrow> \<not> used c \<and> bases_by_name c = [] \<and> heat_threshold c > 0"

lemma new_cache_setters [simp]:
  "new_cache (sqlx_cache_set_close_hook c h) = new_cache c" "new_cache (sqlx_cache_set_open_timeout c T) = new_cache c"
  "new_cache (sqlx_cache_set_max_waiting c W) = new_cache c"
  by (simp_all add: new_cache_def sqlx_cache_set_close_hook_def sqlx_cache_set_open_timeout_def sqlx_cache_set_max_waiting_def)

lemma new_cache_reset:
  assumes "new_cache c" and "mx > 0"
  shows "\<exists>c'. sqlx_cache_set_max_bases C c mx = Some c' \<and> new_cache c' \<and> bases_count c' = mx"
proof -
  have "\<not> used c" using assms(1) by (simp add: new_cache_def)
  then obtain c' where c': "sqlx_cache_reset_bases C mx c = Some c'" "frame c' = frame (c\<lparr>bases_count := mx\<rparr>)"
    using reset_bases_spec [of c mx C] assms(2) by blast
  show ?thesis using c'(1) frameD [OF c'(2)] assms(1) by (auto simp: sqlx_cache_set_max_bases_def new_cache_def)
qed

lemma init_new_cache: "\<exists>c. sqlx_cache_init C = Some c \<and> new_cache c \<and> bases_count c = SQLX_MAX_BASES"
  using new_cache_reset [of _ SQLX_MAX_BASES C]
  by (simp add: sqlx_cache_init_def sqlx_cache_set_max_bases_def new_cache_def SQLX_MAX_BASES_def)

interpretation bases: step_system "bstep C" sinv for C
  by unfold_locales (rule bstep_inv)

lemma reach_inv:
  assumes "new_cache c" and "sqlx_cache_set_max_bases C c mx = Some c0" and "reach C c0 S"
  shows "sinv S"
proof -
  have "mx > 0" using assms(1,2)
    by (auto simp: sqlx_cache_set_max_bases_def sqlx_cache_reset_bases_def new_cache_def split: if_splits)
  then have "sinv (start c0)"
    using assms(1,2) by (intro start_inv [of c mx C c0]) (simp_all add: new_cache_def sqlx_cache_set_max_bases_def)
  then show ?thesis using assms(3) bases.steps_keep by (simp add: reach_def)
qed

text \<open>The slots in use are those that some thread holds.\<close>

lemma used_held:
  assumes "sinv S" and "i < bases_count (cache S)"
  shows "s_st (sv (cache S) i) = SQLX_BASE_USED \<longleftrightarrow> (\<exists>t n. (n, i) \<in> set (held S t))"
proof
  assume u: "s_st (sv (cache S) i) = SQLX_BASE_USED"
  obtain t where "times_held (held S) t i > 0"
    using sinvD(5) [OF assms] u by (auto simp: slot_ok_def)
  then show "\<exists>t n. (n, i) \<in> set (held S t)" using times_held_pos by blast
next
  assume "\<exists>t n. (n, i) \<in> set (held S t)"
  then show "s_st (sv (cache S) i) = SQLX_BASE_USED" using sinvD(6) [OF assms(1)] unfolding held_ok_def by blast
qed

lemma no_hot:
  assumes "sinv S" and "i < bases_count (cache S)"
  shows "s_st (sv (cache S) i) \<noteq> SQLX_BASE_IDLE_HOT"
  using sinvD(5) [OF assms] by (auto simp: slot_ok_def)

subsection \<open>A cache with no slot left\<close>

definition full :: "hashstr \<Rightarrow> sqlx_cache \<Rightarrow> bool" where
  "full n c \<longleftrightarrow> (\<forall>i < bases_count c. b_name (GET c i) \<noteq> Some n \<and>
     b_status (GET c i) \<notin> {SQLX_BASE_FREE, SQLX_BASE_IDLE, SQLX_BASE_IDLE_HOT})"

lemma full_retries:
  assumes "cache_ok c" and "named c" and "hashstr_wf n" and "full n c"
  shows "open_retry C t n c = (Retry, c)"
proof -
  have n: "sqlx_lookup_id c n < 0" using lookup_id_spec(1) [OF assms(2,3)] assms(4) by (simp add: full_def sv_sel)
  obtain x c1 where x: "sqlx_base_reserve C t n c = (x, c1)" by (metis surj_pair)
  obtain e where e: "x = Inl e" "c1 = c" using reserve_spec [OF assms(1,3) x] assms(4) by (cases x) (auto simp: full_def sv_sel)
  obtain y c2 where y: "expire_first_idle_begin C t None c = (y, c2)" by (metis surj_pair)
  have "y = None \<and> c2 = c" using expire_first_spec [OF assms(1) y] assms(4) by (cases y) (auto simp: full_def sv_sel)
  then show ?thesis using n x e y by (simp add: open_retry_def Let_def)
qed

text \<open>A thread that spins, all else as in a state \<open>S0\<close>.\<close>

definition spins :: "thread \<Rightarrow> hashstr \<Rightarrow> sys \<Rightarrow> sys \<Rightarrow> bool" where
  "spins t n S0 S \<longleftrightarrow> sinv S \<and> full n (cache S) \<and> pcs S t = Spin n \<and> lock S = Some t \<and>
     pcs S = pcs S0 \<and> held S = held S0 \<and> sv (cache S) = sv (cache S0)"

lemma set_handle_sv:
  assumes "cache_ok c" and "b < bases_count c"
  shows "sv (sqlx_cache_set_handle b h c) = sv c" and "bases_count (sqlx_cache_set_handle b h c) = bases_count c"
  using set_base_sv [OF assms] by (simp_all add: sqlx_cache_set_handle_def sv_def fun_eq_iff)

lemma full_same: "sv c' = sv c \<Longrightarrow> bases_count c' = bases_count c \<Longrightarrow> full n c' = full n c"
  unfolding full_def sv_sel [symmetric] by simp

lemma spin_same: "pcs S t = p \<Longrightarrow> lock S = l \<Longrightarrow> (goes t p (cache S) S)\<lparr>lock := l\<rparr> = S"
  by (cases S) (simp add: goes_def fun_upd_idem)

lemma spins_step:
  assumes "bstep C S S'" and "spins t n S0 S"
  shows "spins t n S0 S'"
proof -
  have i: "sinv S'" using bstep_inv [OF assms(1)] assms(2) by (simp add: spins_def)
  have s: "lock S = Some t" "pcs S t = Spin n" "sinv S" "full n (cache S)" using assms(2) by (auto simp: spins_def)
  from assms(1) show ?thesis
  proof (cases rule: bstep.cases)
    case (b_spin t' n')
    then have t: "t' = t" "n' = n" using s by auto
    have "hashstr_wf n" using sinvD(8) [OF s(3)] s(2) unfolding calls_ok_def by (metis opens_now.simps(1))
    then have "open_retry C t n (cache S) = (Retry, cache S)"
      using full_retries sinvD(2,3) [OF s(3)] s(4) by blast
    then have "S' = (goes t (Spin n) (cache S) S)\<lparr>lock := Some t\<rparr>" using b_spin(1) t by simp
    then show ?thesis using spin_same [OF s(2,1)] assms(2) by simp
  next
    case (b_handle t' n' b h)
    then have "b < bases_count (cache S)" using sinvD(6) [OF s(3)] unfolding held_ok_def by blast
    note h = set_handle_sv [OF sinvD(2) [OF s(3)] this, of h]
    show ?thesis using i assms(2) b_handle(1) h full_same [OF h] by (auto simp: spins_def)
  qed (use s in simp_all)
qed

interpretation spinning: step_system "bstep C" "spins t n S0" for C t n S0
  by unfold_locales (rule spins_step)

subsection \<open>A base closed and opened again\<close>

lemma close_keeps_handle:
  assumes "cache_ok c" and "b < bases_count c" and "s_st (sv c b) = SQLX_BASE_USED" and "s_heat (sv c b) < heat_threshold c"
    and "s_open (sv c b) = 1" and "sqlx_cache_unlock_and_close_begin C (int b) False c = (r, c')"
  shows "b_handle (GET c' b) = b_handle (GET c b) \<and> c_closed c' = c_closed c"
proof -
  let ?c1 = "set_base b (\<lambda>x. x\<lparr>count_open := count_open x - 1\<rparr>) (c\<lparr>used := True\<rparr>)"
  let ?c2 = "set_base b (\<lambda>x. x\<lparr>b_owner := None\<rparr>) ?c1"
  have o: "cache_ok (c\<lparr>used := True\<rparr>)" "length (bases c) = bases_count c" using assms(1) cache_okD(1) by simp_all
  have o2: "cache_ok ?c2" by (intro set_base_ok set_base_ok [OF o(1)]) simp_all
  have "c' = g_cond_signal b (sqlx_base_move_to_list C b SQLX_BASE_IDLE ?c2)"
    using assms(5,6) by (simp add: close_eq [OF assms(1-4)])
  then show ?thesis using move_sv(4) [OF o2, of b SQLX_BASE_IDLE C b] assms(2) o(2) by simp
qed

lemma open_idle:
  assumes "cache_ok c" and "named c" and "hashstr_wf n" and "b < bases_count c" and "s_name (sv c b) = Some n" and "s_st (sv c b) = SQLX_BASE_IDLE"
  shows "\<exists>c'. sqlx_cache_open_begin C t n c = (Opened (Some b), c') \<and> b_handle (GET c' b) = b_handle (GET c b) \<and> c_closed c' = c_closed c"
proof -
  let ?c = "c\<lparr>used := True\<rparr>"
  have nm: "named ?c" using assms(2) by (rule named_same) simp_all
  have "\<not> (\<forall>i < bases_count ?c. s_name (sv ?c i) \<noteq> Some n)" using assms(4,5) by auto
  then have k: "\<not> sqlx_lookup_id ?c n < 0" unfolding lookup_id_spec(1) [OF nm assms(3)] .
  have b: "nat (sqlx_lookup_id ?c n) = b"
    by (rule named_unique [OF nm, where n = n]) (use lookup_id_spec(2) [OF nm assms(3) k] assms(4,5) in simp_all)
  let ?m = "sqlx_base_move_to_list C b SQLX_BASE_USED ?c"
  have m: "b_handle (GET ?m b) = b_handle (GET c b)" "length (bases ?m) = bases_count c" "c_closed ?m = c_closed c"
    using move_sv(1,4) [of ?c b SQLX_BASE_USED C] cache_okD(1) [of ?m] assms(1,4) by simp_all
  have "sqlx_cache_open_begin C t n c =
      (Opened (Some b), g_cond_signal b (set_base b (\<lambda>x. x\<lparr>count_open := count_open x + 1, b_owner := Some t\<rparr>) ?m))"
    using k b assms(6) by (simp add: sqlx_cache_open_begin_def open_retry_def open_known_def open_done_def Let_def sv_sel)
  then show ?thesis using m assms(4) by simp
qed

subsection \<open>A small cache\<close>

text \<open>
  A cache of three slots, the first of which is never used. The threads 1 and 2 take the two
  others, and the thread 3 waits for the first of them.
\<close>

definition blank_cache :: sqlx_cache where
  "blank_cache = \<lparr>used = False, bases_by_name = [], bases_count = 0, bases = [], cond_count = SQLX_MAX_COND,
     open_timeout = DEFAULT_CACHE_OPEN_TIMEOUT, max_waiting = DEFAULT_CACHE_MAX_WAITING, heat_threshold = 1,
     cool_grace_delay = SQLX_GRACE_DELAY_COOL, hot_grace_delay = SQLX_GRACE_DELAY_HOT,
     beacon_free = BEACON_RESET, beacon_idle = BEACON_RESET, beacon_idle_hot = BEACON_RESET,
     beacon_used = BEACON_RESET, close_hook = False, c_tick = 0, c_signals = [], c_closed = []\<rparr>"

definition no_clock :: "nat \<Rightarrow> gtimeval" where "no_clock k = 0"

definition name_a :: hashstr where "name_a = \<lparr>hl = \<lparr>hl_h = 177670, hl_l = 1\<rparr>, s0 = ''a''\<rparr>"

definition name_b :: hashstr where "name_b = \<lparr>hl = \<lparr>hl_h = 177671, hl_l = 1\<rparr>, s0 = ''b''\<rparr>"

definition name_c :: hashstr where "name_c = \<lparr>hl = \<lparr>hl_h = 177672, hl_l = 1\<rparr>, s0 = ''c''\<rparr>"

definition cache_0 :: sqlx_cache where "cache_0 = the (sqlx_cache_set_max_bases no_clock blank_cache 3)"

definition cache_1 :: sqlx_cache where "cache_1 = snd (sqlx_cache_open_begin no_clock 1 name_a cache_0)"

definition cache_2 :: sqlx_cache where "cache_2 = snd (sqlx_cache_open_begin no_clock 2 name_b cache_1)"

definition cache_3 :: sqlx_cache where "cache_3 = snd (sqlx_cache_open_begin no_clock 3 name_a cache_2)"

definition sys_1 :: sys where
  "sys_1 = \<lparr>cache = cache_1, pcs = (\<lambda>_. Out), held = (\<lambda>_. [])(1 := [(name_a, 1)]), lock = None, aborted = False\<rparr>"

definition sys_2 :: sys where
  "sys_2 = \<lparr>cache = cache_2, pcs = (\<lambda>_. Out), held = (\<lambda>_. [])(1 := [(name_a, 1)], 2 := [(name_b, 2)]), lock = None, aborted = False\<rparr>"

definition sys_3 :: sys where
  "sys_3 = sys_2\<lparr>cache := cache_3, pcs := (\<lambda>_. Out)(3 := Waiting name_a 1)\<rparr>"

lemma small_opens:
  "sqlx_cache_open_begin no_clock 1 name_a cache_0 = (Opened (Some 1), cache_1)"
  "sqlx_cache_open_begin no_clock 2 name_b cache_1 = (Opened (Some 2), cache_2)"
  "sqlx_cache_open_begin no_clock 3 name_a cache_2 = (Wait 1, cache_3)"
proof -
  have "fst (sqlx_cache_open_begin no_clock 1 name_a cache_0) = Opened (Some 1)" by code_simp
  then show "sqlx_cache_open_begin no_clock 1 name_a cache_0 = (Opened (Some 1), cache_1)" by (simp add: cache_1_def prod_eq_iff)
  have "fst (sqlx_cache_open_begin no_clock 2 name_b cache_1) = Opened (Some 2)" by code_simp
  then show "sqlx_cache_open_begin no_clock 2 name_b cache_1 = (Opened (Some 2), cache_2)" by (simp add: cache_2_def prod_eq_iff)
  have "fst (sqlx_cache_open_begin no_clock 3 name_a cache_2) = Wait 1" by code_simp
  then show "sqlx_cache_open_begin no_clock 3 name_a cache_2 = (Wait 1, cache_3)" by (simp add: cache_3_def prod_eq_iff)
qed

lemma small_names: "hashstr_wf name_a" "hashstr_wf name_b" "hashstr_wf name_c"
  by (simp_all add: hashstr_wf_def name_a_def name_b_def name_c_def NUL_def)

lemma small_new: "new_cache blank_cache" "sqlx_cache_set_max_bases no_clock blank_cache 3 = Some cache_0"
proof -
  show n: "new_cache blank_cache" by (simp add: new_cache_def blank_cache_def)
  show "sqlx_cache_set_max_bases no_clock blank_cache 3 = Some cache_0"
    using new_cache_reset [OF n, of 3 no_clock] by (auto simp: cache_0_def)
qed

lemma sys_1_reached: "reach no_clock cache_0 sys_1"
proof -
  have "bstep no_clock (start cache_0) sys_1"
    using b_open [of "start cache_0" 1 name_a no_clock] small_names small_opens(1) by (simp add: start_def sys_1_def goes_def fun_upd_idem)
  then show ?thesis by (simp add: reach_def r_into_rtranclp)
qed

lemma sys_1_2_step: "bstep no_clock sys_1 sys_2"
  using b_open [of sys_1 2 name_b no_clock] small_names small_opens(2) by (simp add: sys_1_def sys_2_def goes_def fun_upd_idem)

lemma sys_2_reached: "reach no_clock cache_0 sys_2"
  using rtranclp.rtrancl_into_rtrancl [of "bstep no_clock"] sys_1_reached sys_1_2_step unfolding reach_def by metis

lemma sys_3_reached: "reach no_clock cache_0 sys_3"
proof -
  have "bstep no_clock sys_2 sys_3"
    using b_open [of sys_2 3 name_a no_clock] small_names small_opens(3) by (simp add: sys_2_def sys_3_def goes_def)
  then show ?thesis using rtranclp.rtrancl_into_rtrancl [of "bstep no_clock"] sys_2_reached unfolding reach_def by metis
qed

lemma open_keeps_conf:
  assumes "sinv S" and "hashstr_wf n" and "sqlx_cache_open_begin C t n (cache S) = (r, c')"
  shows "conf c' = conf (cache S) \<or> r = Abort \<or> r = Opened None"
proof -
  let ?c = "(cache S)\<lparr>used := True\<rparr>"
  have nm: "named ?c" using sinvD(3) [OF assms(1)] by (rule named_same) simp_all
  have "\<forall>i < bases_count ?c. s_st (sv ?c i) = SQLX_BASE_FREE \<longrightarrow> s_name (sv ?c i) = None"
    using sinvD(5) [OF assms(1)] by (force simp: slot_ok_def)
  then have "open_effect t n ?c c' r"
    using open_retry_spec [OF _ nm assms(2)] sinvD(2) [OF assms(1)] assms(3) by (simp add: sqlx_cache_open_begin_def)
  then show ?thesis by (cases "(t, n, ?c, c', r)" rule: open_effect.cases) (auto simp: quiet_def)
qed

lemma small_conf: "conf cache_2 = (3, 8, 15000, 1)" "conf cache_3 = (3, 8, 15000, 1)" "conf cache_1 = (3, 8, 15000, 1)"
proof -
  have i: "sinv (start cache_0)" "sinv sys_1" "sinv sys_2"
    using reach_inv [OF small_new] sys_1_reached sys_2_reached by (auto simp: reach_def)
  have c: "cache (start cache_0) = cache_0" "cache sys_1 = cache_1" "cache sys_2 = cache_2"
    by (simp_all add: start_def sys_1_def sys_2_def)
  have "conf cache_0 = (3, 8, 15000, 1)" by code_simp
  then show "conf cache_2 = (3, 8, 15000, 1)" "conf cache_3 = (3, 8, 15000, 1)" "conf cache_1 = (3, 8, 15000, 1)"
    using open_keeps_conf [OF i(1) small_names(1), of no_clock 1] open_keeps_conf [OF i(2) small_names(2), of no_clock 2]
      open_keeps_conf [OF i(3) small_names(1), of no_clock 3] unfolding c by (simp_all add: small_opens small_opens [unfolded One_nat_def])
qed

lemma small_counts: "\<forall>i < 3. b_status (GET cache_1 i) \<noteq> SQLX_BASE_IDLE" "full name_c cache_2"
  by code_simp+

subsection \<open>Properties\<close>

text \<open>
  C2: a base has one user at a time. In every state the threads can reach, a thread that holds
  a base named \<open>n\<close> in the slot \<open>b\<close> is the owner of that slot, which is in use under that name;
  two holdings have the same name exactly when they have the same slot, and then they
  are of one thread.
\<close>

theorem base_mutual_exclusion:
  assumes "new_cache c" and "sqlx_cache_set_max_bases C c mx = Some c0" and "reach C c0 S"
    and "(n, b) \<in> set (held S t)" and "(n', b') \<in> set (held S t')"
  shows "b_status (GET (cache S) b) = SQLX_BASE_USED \<and> b_owner (GET (cache S) b) = Some t \<and>
    b_name (GET (cache S) b) = Some n \<and> (n = n' \<longleftrightarrow> b = b') \<and> (b = b' \<longrightarrow> t = t')"
proof -
  have i: "sinv S" using reach_inv [OF assms(1-3)] .
  have h: "x < bases_count (cache S) \<and> s_st (sv (cache S) x) = SQLX_BASE_USED \<and> s_owner (sv (cache S) x) = Some u \<and>
      s_name (sv (cache S) x) = Some m" if "(m, x) \<in> set (held S u)" for m x u
    using sinvD(6) [OF i] that unfolding held_ok_def by blast
  note h1 = h [OF assms(4)] and h2 = h [OF assms(5)]
  have "n = n' \<Longrightarrow> b = b'" using named_unique [OF sinvD(3) [OF i], of b b' n] h1 h2 by simp
  moreover have "b = b' \<Longrightarrow> n = n' \<and> t = t'" using h1 h2 by simp
  ultimately show ?thesis using h1 unfolding sv_sel by blast
qed

theorem base_mutual_exclusion_witness:
  "(name_a, 1) \<in> set (held sys_2 1) \<and> (name_b, 2) \<in> set (held sys_2 2) \<and> name_a \<noteq> name_b \<and>
   b_owner (GET (cache sys_2) 1) = Some 1 \<and> b_owner (GET (cache sys_2) 2) = Some 2"
proof -
  have h: "(name_a, 1) \<in> set (held sys_2 1)" "(name_b, 2) \<in> set (held sys_2 2)" by (simp_all add: sys_2_def)
  show ?thesis
    using h base_mutual_exclusion [OF small_new sys_2_reached h] base_mutual_exclusion [OF small_new sys_2_reached h(2,1)] by simp
qed

text \<open>
  C20: the slots are well typed. In every reachable state no assertion of the code has failed,
  each slot is in the list of its status, the tree has exactly the names of the slots, and the
  status of a slot fixes the rest of it. A free slot has no name, no owner and no opening; an idle
  one has a name, no owner and no opening; a used one has a name, an owner and as many
  openings as that thread holds of it, at least one; a closing one has a name, no opening, and an owner
  that is in the close hook for it.
  The status \<open>SQLX_BASE_IDLE_HOT\<close> is never reached.
\<close>

theorem bases_well_typed:
  assumes "new_cache c" and "sqlx_cache_set_max_bases C c mx = Some c0" and "reach C c0 S"
  shows "\<not> aborted S \<and> cache_ok (cache S) \<and> named (cache S) \<and>
    (\<forall>i < bases_count (cache S). slot_ok (sv (cache S)) (pcs S) (held S) i \<and> b_status (GET (cache S) i) \<noteq> SQLX_BASE_IDLE_HOT)"
proof -
  have i: "sinv S" using reach_inv [OF assms] .
  have "b_status (GET (cache S) j) \<noteq> SQLX_BASE_IDLE_HOT" if "j < bases_count (cache S)" for j
    using no_hot [OF i that] by (simp add: sv_sel)
  then show ?thesis using sinvD(1,2,3,5) [OF i] by blast
qed

theorem bases_well_typed_witness:
  "\<not> aborted sys_3 \<and> named (cache sys_3) \<and> slot_ok (sv (cache sys_3)) (pcs sys_3) (held sys_3) 1"
  using bases_well_typed [OF small_new sys_3_reached] small_conf(2) by (simp add: sys_3_def conf_def)

text \<open>
  C23: the counters of the cache, read while the other threads run. From a reachable state, and
  whatever runs between the three counts, \<open>sqlx_cache_count\<close> returns exactly when the lock is free
  in the three states where it takes it. The hot count is then zero, the cold count is
  the number of slots idle when the first count was done, the used count is the number of slots held by
  some thread when the last was done, and the maximum that of the call: the counters need not be
  those of one state. A state where a thread spins with the lock has no count.
\<close>

theorem sqlx_cache_count_exact:
  assumes "new_cache c" and "sqlx_cache_set_max_bases C c mx = Some c0" and "reach C c0 S"
    and "(bstep C)\<^sup>*\<^sup>* S S1" and "(bstep C)\<^sup>*\<^sup>* S1 S2" and "(bstep C)\<^sup>*\<^sup>* S2 S3"
  shows "sqlx_cache_count (Some S) S1 S2 S3 =
    (if lock S1 = None \<and> lock S2 = None \<and> lock S3 = None
     then Some \<lparr>cc_max = bases_count (cache S),
       cc_cold = card {i. i < bases_count (cache S1) \<and> b_status (GET (cache S1) i) = SQLX_BASE_IDLE}, cc_hot = 0,
       cc_used = card {i. \<exists>t n. (n, i) \<in> set (held S3 t)}\<rparr>
     else None)"
proof -
  have r: "reach C c0 S1" "reach C c0 S2" "reach C c0 S3" using assms(3-6) unfolding reach_def by (meson rtranclp_trans)+
  note R = reach_inv [OF assms(1,2)]
  have i1: "cache_ok (cache S1)" and i2: "sinv S2" and i3: "sinv S3"
    using sinvD(2) [OF R [OF r(1)]] R [OF r(2)] R [OF r(3)] by blast+
  have hot: "{j. j < bases_count (cache S2) \<and> s_st (sv (cache S2) j) = SQLX_BASE_IDLE_HOT} = {}"
    using no_hot [OF i2] by blast
  have "(n, j) \<in> set (held S3 t) \<Longrightarrow> j < bases_count (cache S3)" for n j t
    using sinvD(6) [OF i3] unfolding held_ok_def by blast
  then have u: "{j. j < bases_count (cache S3) \<and> s_st (sv (cache S3) j) = SQLX_BASE_USED} = {j. \<exists>t n. (n, j) \<in> set (held S3 t)}"
    using used_held [OF i3] by blast
  show ?thesis
    using count_beacon_loop_spec [OF i1, of L_IDLE] count_beacon_loop_spec [OF sinvD(2) [OF i2], of L_IDLE_HOT]
      count_beacon_loop_spec [OF sinvD(2) [OF i3], of L_USED] hot u by (simp add: count_beacon_def sv_sel)
qed

theorem sqlx_cache_count_exact_witness:
  "(bstep no_clock)\<^sup>*\<^sup>* sys_1 sys_2 \<and> sys_1 \<noteq> sys_2 \<and>
   sqlx_cache_count (Some sys_1) sys_1 sys_2 sys_2 = Some \<lparr>cc_max = 3, cc_cold = 0, cc_hot = 0, cc_used = 2\<rparr>"
proof -
  have s: "(bstep no_clock)\<^sup>*\<^sup>* sys_1 sys_2" using sys_1_2_step by (rule r_into_rtranclp)
  have u: "{i. \<exists>t n. (n, i) \<in> set (held sys_2 t)} = {1, 2}" by (auto simp: sys_2_def split: if_splits)
  have i: "{i. i < 3 \<and> b_status (GET cache_1 i) = SQLX_BASE_IDLE} = {}" using small_counts(1) by blast
  have "held sys_1 2 \<noteq> held sys_2 2" by (simp add: sys_1_def sys_2_def)
  then have "sys_1 \<noteq> sys_2" by metis
  then show ?thesis
    using sqlx_cache_count_exact [OF small_new sys_1_reached rtranclp.rtrancl_refl s rtranclp.rtrancl_refl] s u i small_conf(3)
    by (simp add: sys_1_def sys_2_def conf_def)
qed

text \<open>
  the bound on the threads that wait. In every reachable state the counter of a slot is
  the number of threads that wait for the slot, and with a positive \<open>max_waiting\<close> it is never
  more than that, so a waiting thread is never counted twice nor forgotten.
\<close>

theorem waiting_bounded:
  assumes "new_cache c" and "sqlx_cache_set_max_bases C c mx = Some c0" and "reach C c0 S" and "b < bases_count (cache S)"
  shows "count_waiting (GET (cache S) b) = int (card {t. \<exists>n. pcs S t = Waiting n b}) \<and>
    (max_waiting (cache S) > 0 \<longrightarrow> count_waiting (GET (cache S) b) \<le> max_waiting (cache S))"
  using sinvD(10) [OF reach_inv [OF assms(1-3)]] assms(4) unfolding waits_ok_def waiters_def sv_sel by blast

theorem waiting_bounded_witness: "count_waiting (GET (cache sys_3) 1) = 1 \<and> max_waiting (cache sys_3) = 8"
proof -
  have "{t. \<exists>n. pcs sys_3 t = Waiting n 1} = {3}" by (auto simp: sys_3_def split: if_splits)
  then show ?thesis using waiting_bounded [OF small_new sys_3_reached, of 1] small_conf(2) by (simp add: sys_3_def conf_def)
qed

text \<open>
  C21: a full cache hangs. When no slot is free nor idle and a thread opens a base that is not
  in the cache, it returns to the label \<open>retry\<close> with the lock, and from then on, whatever the
  threads do, it is still there: no slot changes hands, no thread moves, and the next turn of the
  loop is always possible.
\<close>

theorem full_cache_hangs:
  assumes "new_cache c" and "sqlx_cache_set_max_bases C c mx = Some c0" and "reach C c0 S"
    and "pcs S t = Out" and "lock S = None" and "hashstr_wf n" and "full n (cache S)" and "length (held S t) < 2 ^ 32 - 1"
  shows "\<exists>S1. bstep C S S1 \<and> (\<forall>S2. (bstep C)\<^sup>*\<^sup>* S1 S2 \<longrightarrow>
    lock S2 = Some t \<and> pcs S2 = (pcs S)(t := Spin n) \<and> held S2 = held S \<and> full n (cache S2) \<and> bstep C S2 S2)"
proof -
  have i: "sinv S" using reach_inv [OF assms(1-3)] .
  let ?c = "(cache S)\<lparr>used := True\<rparr>" and ?S = "(goes t (Spin n) ((cache S)\<lparr>used := True\<rparr>) S)\<lparr>lock := Some t\<rparr>"
  have f: "full n ?c" using assms(7) by (simp add: full_def)
  have q: "quiet (cache S) ?c" using sinvD(2) [OF i] by (simp add: quiet_def)
  have "named ?c" using sinvD(3) [OF i] by (rule named_same) simp_all
  then have "open_retry C t n ?c = (Retry, ?c)" using full_retries q f assms(6) by (simp add: quiet_def)
  then have st: "bstep C S ?S"
    using b_open [OF sinvD(1) [OF i] assms(5,4,6,8), of C] by (simp add: sqlx_cache_open_begin_def)
  then have s: "spins t n ?S ?S" using bstep_inv [OF st i] f by (simp add: spins_def goes_def)
  have "lock S2 = Some t \<and> pcs S2 = (pcs S)(t := Spin n) \<and> held S2 = held S \<and> full n (cache S2) \<and> bstep C S2 S2"
    if "(bstep C)\<^sup>*\<^sup>* ?S S2" for S2
  proof -
    have p: "spins t n ?S S2" using spinning.steps_keep [OF that s] .
    then have p2: "sinv S2" "full n (cache S2)" "pcs S2 t = Spin n" "lock S2 = Some t" by (auto simp: spins_def)
    have "open_retry C t n (cache S2) = (Retry, cache S2)" using full_retries sinvD(2,3) [OF p2(1)] p2(2) assms(6) by blast
    then have "bstep C S2 ((goes t (Spin n) (cache S2) S2)\<lparr>lock := Some t\<rparr>)"
      using b_spin [OF sinvD(1) [OF p2(1)] p2(4,3), of C] by simp
    then have "bstep C S2 S2" using spin_same [OF p2(3,4)] by simp
    then show ?thesis using p p2 by (simp add: spins_def goes_def)
  qed
  then show ?thesis using st by blast
qed

theorem full_cache_hangs_witness:
  "\<exists>S1. bstep no_clock sys_2 S1 \<and> (\<forall>S2. (bstep no_clock)\<^sup>*\<^sup>* S1 S2 \<longrightarrow>
     lock S2 = Some 3 \<and> pcs S2 = (pcs sys_2)(3 := Spin name_c) \<and> held S2 = held sys_2 \<and> full name_c (cache S2) \<and> bstep no_clock S2 S2)"
  by (rule full_cache_hangs [OF small_new sys_2_reached _ _ small_names(3)])
    (use small_counts(2) in \<open>simp_all add: sys_2_def\<close>)



end
