(* ===== verification/Services.thy ===== *)
theory Services
  imports Complex_Main Url
begin

section \<open>Services: addresses, tags, locations, storage classes\<close>

text \<open>
  What the load-balancer reads of a service: \<open>utils_addr_info.c\<close> (comparison and hash of
  addresses), \<open>utils_service_info.c\<close> (copy and tags of a service), \<open>utils_duplication.c\<close> (distance
  between two locations) and \<open>storage_policy.c\<close> (storage classes). A pointer that may be NULL is an
  option; a read through NULL is \<open>None\<close> in the functions where the source can do it.
\<close>

subsection \<open>Case-insensitive strings\<close>

definition g_ascii_tolower :: "char \<Rightarrow> char" where
  "g_ascii_tolower c = (if 65 \<le> byte_of c \<and> byte_of c \<le> 90 then char_of (byte_of c + 32) else c)"

text \<open>\<open>!g_ascii_strcasecmp (a, b)\<close> and \<open>!g_ascii_strncasecmp (a, b, n)\<close>.\<close>

definition strcase_eq :: "string \<Rightarrow> string \<Rightarrow> bool" where
  "strcase_eq a b \<longleftrightarrow> map g_ascii_tolower a = map g_ascii_tolower b"

definition strncase_eq :: "nat \<Rightarrow> string \<Rightarrow> string \<Rightarrow> bool" where
  "strncase_eq n a b \<longleftrightarrow> strcase_eq (take n a) (take n b)"

subsection \<open>Addresses\<close>

datatype id_addr_type = TADDR_V4 | TADDR_V6

instantiation id_addr_type :: linorder
begin

definition less_eq_id_addr_type :: "id_addr_type \<Rightarrow> id_addr_type \<Rightarrow> bool" where
  "less_eq_id_addr_type a b \<longleftrightarrow> a = TADDR_V4 \<or> b = TADDR_V6"

definition less_id_addr_type :: "id_addr_type \<Rightarrow> id_addr_type \<Rightarrow> bool" where
  "less_id_addr_type a b \<longleftrightarrow> a = TADDR_V4 \<and> b = TADDR_V6"

instance
  by standard (auto simp: less_eq_id_addr_type_def less_id_addr_type_def; metis id_addr_type.exhaust)+

end

text \<open>The union holds 16 bytes, of which an address of version 4 uses the first four.\<close>

record addr_info =
  ai_type :: id_addr_type
  ai_addr :: string
  ai_port :: u16
  ai_protocol :: u16

text \<open>What the comparisons read of an address.\<close>

type_synonym addr_key = "id_addr_type \<times> u16 \<times> string"

definition addr_key :: "addr_info \<Rightarrow> addr_key" where
  "addr_key a = (ai_type a, ai_port a, take (case ai_type a of TADDR_V4 \<Rightarrow> 4 | TADDR_V6 \<Rightarrow> 16) (ai_addr a))"

fun addr_key_compare :: "addr_key \<Rightarrow> addr_key \<Rightarrow> int" where
  "addr_key_compare (t, p, b) (t', p', b') =
     (if t \<noteq> t' then CMP t' t else if p \<noteq> p' then CMP p' p else strcmp b b')"

text \<open>The first argument says whether the two pointers are the same.\<close>

definition addr_info_compare :: "bool \<Rightarrow> addr_info \<Rightarrow> addr_info \<Rightarrow> int" where
  "addr_info_compare same a b = (if same then 1 else addr_key_compare (addr_key a) (addr_key b))"

definition addr_info_equal :: "addr_info \<Rightarrow> addr_info \<Rightarrow> bool" where
  "addr_info_equal a b \<longleftrightarrow> addr_key a = addr_key b"

text \<open>The hash of the 24 bytes of the structure, in the order of the fields.\<close>

definition addr_bytes :: "addr_info \<Rightarrow> string" where
  "addr_bytes a =
     (case ai_type a of TADDR_V4 \<Rightarrow> [CHR 0x00, CHR 0x00, CHR 0x00, CHR 0x00] @ take 4 (ai_addr a) @ replicate 12 (CHR 0x00)
                      | TADDR_V6 \<Rightarrow> [CHR 0x01, CHR 0x00, CHR 0x00, CHR 0x00] @ ai_addr a) @
     [char_of (unat (ai_port a) mod 256), char_of (unat (ai_port a) div 256),
      char_of (unat (ai_protocol a) mod 256), char_of (unat (ai_protocol a) div 256)]"

definition addr_info_hash :: "addr_info \<Rightarrow> u32" where
  "addr_info_hash a = djb_hash_buf (addr_bytes a)"

interpretation akey: gcompare addr_key_compare "\<lambda>_. True"
proof unfold_locales
  fix a b c :: addr_key
  obtain t p s t' p' s' t'' p'' s'' where e: "a = (t, p, s)" "b = (t', p', s')" "c = (t'', p'', s'')" by (metis surj_pair)
  show "addr_key_compare a b = 0 \<longleftrightarrow> a = b" by (auto simp: e CMP_def of_bool_def split: if_splits)
  show "addr_key_compare a b < 0 \<longleftrightarrow> 0 < addr_key_compare b a" using strcmp_sym [of s s'] by (auto simp: e CMP_def of_bool_def)
  show "addr_key_compare a b < 0 \<Longrightarrow> addr_key_compare b c < 0 \<Longrightarrow> addr_key_compare a c < 0"
    using strcmp_trans [of s s' s''] by (auto simp: e CMP_def of_bool_def split: if_splits)
qed

subsection \<open>Services and their tags\<close>

datatype tag_value =
    STVT_I64 int | STVT_REAL rat | STVT_BOOL bool | STVT_STR string | STVT_BUF string | STVT_MACRO string string

record service_tag =
  tag_name :: string
  tag_val :: tag_value

record service_info =
  si_ns_name :: string
  si_type :: string
  si_addr :: addr_info
  si_score :: int
  si_score_ts :: int
  si_tags :: "service_tag option list option"

definition LIMIT_LENGTH_TAGNAME :: nat where "LIMIT_LENGTH_TAGNAME = 32"

definition service_info_copy_tags :: "service_tag option list option \<Rightarrow> service_tag option list option" where
  "service_info_copy_tags original = map_option (filter (\<lambda>t. t \<noteq> None)) original"

definition service_info_dup :: "service_info \<Rightarrow> service_info" where
  "service_info_dup si = si\<lparr>si_tags := service_info_copy_tags (si_tags si)\<rparr>"

fun get_tag_loop :: "nat \<Rightarrow> string \<Rightarrow> service_tag option list \<Rightarrow> service_tag option" where
  "get_tag_loop len name [] = None"
| "get_tag_loop len name (None # a) = None"
| "get_tag_loop len name (Some t # a) = (if strncase_eq len (tag_name t) name then Some t else get_tag_loop len name a)"

definition service_info_get_tag :: "service_tag option list \<Rightarrow> string \<Rightarrow> service_tag option" where
  "service_info_get_tag a name = get_tag_loop (min (length name + 1) LIMIT_LENGTH_TAGNAME) name a"

definition service_info_get_tag_value :: "service_info \<Rightarrow> string \<Rightarrow> string option \<Rightarrow> string option" where
  "service_info_get_tag_value si name d =
     (case si_tags si of
        None \<Rightarrow> d
      | Some tags \<Rightarrow>
          (case service_info_get_tag tags name of
             None \<Rightarrow> d
           | Some tag \<Rightarrow> (case tag_val tag of STVT_STR s \<Rightarrow> Some s | STVT_BUF s \<Rightarrow> Some s | _ \<Rightarrow> d)))"

definition NAME_TAGNAME_RAWX_LOC :: string where "NAME_TAGNAME_RAWX_LOC = ''tag.loc''"

definition NAME_TAGNAME_RAWX_STGCLASS :: string where "NAME_TAGNAME_RAWX_STGCLASS = ''tag.stgclass''"

definition service_info_get_rawx_location :: "service_info \<Rightarrow> string option \<Rightarrow> string option" where
  "service_info_get_rawx_location si d = service_info_get_tag_value si NAME_TAGNAME_RAWX_LOC d"

subsection \<open>Storage classes\<close>

record storage_class =
  sc_name :: string
  sc_fallbacks :: "string option list"

definition STORAGE_CLASS_ANY :: string where "STORAGE_CLASS_ANY = ''DUMMY''"

definition is_none :: "string option \<Rightarrow> bool" where
  "is_none s \<longleftrightarrow> (case s of None \<Rightarrow> True | Some s \<Rightarrow> s = [] \<or> strcase_eq s ''none'')"

definition is_any :: "string option \<Rightarrow> bool" where
  "is_any s \<longleftrightarrow> is_none s \<or> (case s of None \<Rightarrow> False | Some s \<Rightarrow> strcase_eq s STORAGE_CLASS_ANY)"

definition storage_class_get_name :: "storage_class option \<Rightarrow> string option" where
  "storage_class_get_name sc = map_option sc_name sc"

definition storage_class_get_fallbacks :: "storage_class option \<Rightarrow> string option list" where
  "storage_class_get_fallbacks sc = (case sc of None \<Rightarrow> [] | Some sc \<Rightarrow> sc_fallbacks sc)"

definition storage_class_is_satisfied :: "string option \<Rightarrow> string option \<Rightarrow> bool" where
  "storage_class_is_satisfied wsc asc \<longleftrightarrow>
     is_any wsc \<or> (case asc of None \<Rightarrow> False | Some a \<Rightarrow> strcase_eq (the wsc) a)"

definition storage_class_is_satisfied2 :: "storage_class option \<Rightarrow> string option \<Rightarrow> bool \<Rightarrow> bool" where
  "storage_class_is_satisfied2 wsc asc strict \<longleftrightarrow>
     (case wsc of
        None \<Rightarrow> True
      | Some sc \<Rightarrow>
          storage_class_is_satisfied (Some (sc_name sc)) asc \<or>
          \<not> strict \<and> list_ex (\<lambda>f. f \<noteq> None \<and> storage_class_is_satisfied f asc) (sc_fallbacks sc))"

definition service_info_check_storage_class :: "service_info \<Rightarrow> string option \<Rightarrow> bool" where
  "service_info_check_storage_class si wanted_class =
     storage_class_is_satisfied wanted_class (service_info_get_tag_value si NAME_TAGNAME_RAWX_STGCLASS None)"

subsection \<open>Distance between locations\<close>

text \<open>
  The loop on the tokens of the first location: the tokens of the second one left to read,
  whether \<open>cur_tok2\<close> is not NULL, whether a difference was found, and the two counters.
\<close>

fun distance_loop :: "string list \<Rightarrow> string list \<Rightarrow> bool \<Rightarrow> bool \<Rightarrow> nat \<Rightarrow> nat \<Rightarrow> string list \<times> bool \<times> bool \<times> nat \<times> nat" where
  "distance_loop [] it2 cur2 found_diff num_tok cur_iter = (it2, cur2, found_diff, num_tok, cur_iter)"
| "distance_loop (tok1 # it1) it2 cur2 found_diff num_tok cur_iter =
     (if \<not> cur2 then distance_loop it1 it2 False found_diff (num_tok + 1) cur_iter
      else case it2 of
             [] \<Rightarrow> distance_loop it1 [] False found_diff (num_tok + 1) cur_iter
           | tok2 # it2 \<Rightarrow>
               if found_diff then distance_loop it1 it2 True found_diff (num_tok + 1) cur_iter
               else distance_loop it1 it2 True (tok1 \<noteq> tok2) (num_tok + 1) (cur_iter + 1))"

text \<open>
  \<open>None\<close> for a NULL location beside one that is not empty, which the source splits and reads,
  and for a shift of 32 bits or more.
\<close>

definition distance_between_location :: "string option \<Rightarrow> string option \<Rightarrow> nat option" where
  "distance_between_location loc1 loc2 =
     (if (loc1 = None \<or> loc1 = Some []) \<and> (loc2 = None \<or> loc2 = Some []) then Some 1
      else case (loc1, loc2) of
             (Some l1, Some l2) \<Rightarrow>
               let t2 = g_strsplit l2 (CHR ''.'');
                   (it2, cur2, found_diff, num_tok, cur_iter) = distance_loop (g_strsplit l1 (CHR ''.'')) t2 (t2 \<noteq> []) False 0 0;
                   num_tok = (if cur2 then num_tok + length it2 else num_tok);
                   token_dist = num_tok - cur_iter + 1
               in if token_dist > 1 then if token_dist - 1 < 32 then Some (2 ^ (token_dist - 1)) else None
                  else Some (if found_diff then 1 else 0)
           | _ \<Rightarrow> None)"

definition distance_between_services :: "service_info \<Rightarrow> service_info \<Rightarrow> nat option" where
  "distance_between_services si0 si1 =
     distance_between_location (service_info_get_rawx_location si0 (Some [])) (service_info_get_rawx_location si1 (Some []))"

subsubsection \<open>What the distance is\<close>

definition lcp :: "'a list \<Rightarrow> 'a list \<Rightarrow> nat" where
  "lcp xs ys = length (takeWhile (\<lambda>(a, b). a = b) (zip xs ys))"

lemma lcp_simps [simp]:
  "lcp [] ys = 0" "lcp xs [] = 0" "lcp (x # xs) (y # ys) = (if x = y then Suc (lcp xs ys) else 0)"
  by (simp_all add: lcp_def)

lemma lcp_sym: "lcp xs ys = lcp ys xs"
  by (induction xs ys rule: list_induct2') auto

lemma lcp_le: "lcp xs ys \<le> length xs" "lcp xs ys \<le> length ys"
  by (induction xs ys rule: list_induct2') auto

lemma lcp_all: "lcp xs ys = length xs \<Longrightarrow> lcp xs ys = length ys \<Longrightarrow> xs = ys"
  by (induction xs ys rule: list_induct2') (auto split: if_splits)

text \<open>
  The distance between two token lists: \<open>0\<close> for the same list, and otherwise a power of two that
  grows with the number of tokens after the common beginning.
\<close>

definition token_distance :: "string list \<Rightarrow> string list \<Rightarrow> nat" where
  "token_distance xs ys =
     (if xs = ys then 0
      else if lcp xs ys < min (length xs) (length ys) then 2 ^ (max (length xs) (length ys) - lcp xs ys - 1)
      else 2 ^ (max (length xs) (length ys) - lcp xs ys))"

lemma loop_off: "distance_loop xs it2 False fd n c = (it2, False, fd, n + length xs, c)"
  by (induction xs arbitrary: n) simp_all

lemma loop_diff:
  "distance_loop xs ys True True n c = (drop (length xs) ys, length xs \<le> length ys, True, n + length xs, c)"
  by (induction xs arbitrary: ys n) (auto simp: loop_off split: list.split)

lemma loop_spec:
  "distance_loop xs ys True False n c =
     (drop (length xs) ys, length xs \<le> length ys, lcp xs ys < min (length xs) (length ys), n + length xs,
      c + (if lcp xs ys < min (length xs) (length ys) then lcp xs ys + 1 else lcp xs ys))"
proof (induction xs arbitrary: ys n c)
  case (Cons x xs)
  then show ?case by (cases ys) (simp_all add: loop_off loop_diff)
qed simp

lemma distance_tokens:
  assumes "l1 \<noteq> [] \<or> l2 \<noteq> []"
  shows "distance_between_location (Some l1) (Some l2) =
    (let d = token_distance (g_strsplit l1 (CHR ''.'')) (g_strsplit l2 (CHR ''.'')) in if d < 2 ^ 32 then Some d else None)"
proof -
  define xs ys where "xs = g_strsplit l1 (CHR ''.'')" and "ys = g_strsplit l2 (CHR ''.'')"
  have loop: "distance_loop xs ys (ys \<noteq> []) False 0 0 =
    (drop (length xs) ys, ys \<noteq> [] \<and> length xs \<le> length ys, lcp xs ys < min (length xs) (length ys), length xs,
     if lcp xs ys < min (length xs) (length ys) then lcp xs ys + 1 else lcp xs ys)"
    by (cases "ys = []") (simp_all add: loop_off loop_spec)
  define m p where "m = max (length xs) (length ys)" and "p = lcp xs ys"
  define n where "n = (if p < min (length xs) (length ys) then m - p else m - p + 1)"
  have le: "p \<le> length xs" "p \<le> length ys" using lcp_le by (auto simp: p_def)
  have num: "(if ys \<noteq> [] \<and> length xs \<le> length ys then length xs + length (drop (length xs) ys) else length xs) = m"
    by (auto simp: m_def)
  have eq: "n = 1 \<and> \<not> p < min (length xs) (length ys) \<longleftrightarrow> xs = ys"
  proof
    assume "n = 1 \<and> \<not> p < min (length xs) (length ys)"
    then have "p = length xs \<and> p = length ys" using le by (auto simp: n_def m_def)
    then show "xs = ys" using lcp_all [of xs ys] by (simp add: p_def)
  next
    have "lcp zs zs = length zs" for zs :: "string list" by (induction zs) simp_all
    then show "xs = ys \<Longrightarrow> n = 1 \<and> \<not> p < min (length xs) (length ys)" by (simp add: n_def m_def p_def)
  qed
  have n1: "n \<ge> 1" using le by (auto simp: n_def m_def)
  have td: "m - (if p < min (length xs) (length ys) then p + 1 else p) + 1 = n" using le by (auto simp: n_def m_def)
  have d: "token_distance xs ys = (if xs = ys then 0 else 2 ^ (n - 1))"
    by (auto simp: token_distance_def n_def m_def p_def)
  have pw: "(2::nat) ^ (n - 1) < 2 ^ 32 \<longleftrightarrow> n - 1 < 32" by (rule power_strict_increasing_iff) simp
  have "distance_between_location (Some l1) (Some l2) =
      (let (it2, cur2, found_diff, num_tok, cur_iter) = distance_loop xs ys (ys \<noteq> []) False 0 0;
           num_tok = (if cur2 then num_tok + length it2 else num_tok); token_dist = num_tok - cur_iter + 1
       in if token_dist > 1 then if token_dist - 1 < 32 then Some (2 ^ (token_dist - 1)) else None
          else Some (if found_diff then 1 else 0))"
    using assms by (auto simp: distance_between_location_def xs_def ys_def Let_def)
  also have "\<dots> = (if n > 1 then if n - 1 < 32 then Some (2 ^ (n - 1)) else None
      else Some (if p < min (length xs) (length ys) then 1 else 0))"
    unfolding loop Let_def prod.case num p_def [symmetric] td ..
  also have "\<dots> = (if token_distance xs ys < 2 ^ 32 then Some (token_distance xs ys) else None)"
  proof (cases "n = 1")
    case True
    then show ?thesis using eq by (auto simp: d)
  next
    case False
    then show ?thesis using eq n1 unfolding d pw [symmetric] by (auto simp del: power_strict_increasing_iff)
  qed
  finally show ?thesis by (simp add: Let_def xs_def ys_def)
qed

lemma token_distance_sym: "token_distance ys xs = token_distance xs ys"
  by (auto simp: token_distance_def lcp_sym [of ys xs] min.commute max.commute)

lemma token_distance_bound:
  assumes "length xs \<le> 31" and "length ys \<le> 31"
  shows "token_distance xs ys < 2 ^ 32"
proof -
  have "2 ^ (max (length xs) (length ys) - k) < (2::nat) ^ 32" for k
    using assms by (intro power_strict_increasing) auto
  then show ?thesis by (auto simp: token_distance_def simp del: power_strict_increasing_iff)
qed

lemma distance_sym: "distance_between_location a b = distance_between_location b a"
proof (cases a; cases b)
  fix l1 l2 assume e: "a = Some l1" "b = Some l2"
  show ?thesis
  proof (cases "l1 = [] \<and> l2 = []")
    case False
    then show ?thesis using distance_tokens [of l1 l2] distance_tokens [of l2 l1] by (auto simp: e token_distance_sym [of "g_strsplit l2 _"])
  qed (simp add: e)
qed (auto simp: distance_between_location_def)

text \<open>
  C40: the distance between two locations of at most 31 tokens. It is the same from either side and
  depends on their tokens only. Two empty locations are at distance 1. Otherwise it is zero
  exactly for the same tokens, and for other tokens it is \<open>2 ^ (n - 1)\<close>, where \<open>n\<close>, the
  \<open>token_dist\<close> of the code, is the number of tokens of the longer location after the common
  beginning, plus one when one location is the beginning of the other. The comment above the
  \<open>return\<close> gives \<open>2 ^ n\<close> for \<open>n > 1\<close>, the code half of it.
\<close>

theorem location_distance:
  assumes "length (g_strsplit l1 (CHR ''.'')) \<le> 31" and "length (g_strsplit l2 (CHR ''.'')) \<le> 31"
  shows "\<exists>d. distance_between_location (Some l1) (Some l2) = Some d \<and> distance_between_location (Some l2) (Some l1) = Some d \<and>
    d = (if l1 = [] \<and> l2 = [] then 1 else token_distance (g_strsplit l1 (CHR ''.'')) (g_strsplit l2 (CHR ''.''))) \<and>
    (d = 0 \<longleftrightarrow> g_strsplit l1 (CHR ''.'') = g_strsplit l2 (CHR ''.'') \<and> \<not> (l1 = [] \<and> l2 = []))"
proof (cases "l1 = [] \<and> l2 = []")
  case True
  then show ?thesis by (simp add: distance_between_location_def)
next
  case False
  define xs ys where "xs = g_strsplit l1 (CHR ''.'')" and "ys = g_strsplit l2 (CHR ''.'')"
  have "token_distance xs ys < 2 ^ 32" using token_distance_bound assms by (simp add: xs_def ys_def)
  then show ?thesis
    using distance_tokens [of l1 l2] distance_sym [of "Some l2" "Some l1"] False
    by (auto simp: xs_def [symmetric] ys_def [symmetric] Let_def token_distance_def)
qed

theorem location_distance_witness:
  "distance_between_location (Some ''dc1.rack1.host1'') (Some ''dc1.rack2.host7'') = Some 2 \<and>
   distance_between_location (Some ''dc1.rack1'') (Some ''dc1'') = Some 2 \<and> distance_between_location (Some []) (Some []) = Some 1"
proof -
  have t: "g_strsplit ''dc1.rack1.host1'' (CHR ''.'') = [''dc1'', ''rack1'', ''host1'']"
    "g_strsplit ''dc1.rack2.host7'' (CHR ''.'') = [''dc1'', ''rack2'', ''host7'']"
    "g_strsplit ''dc1.rack1'' (CHR ''.'') = [''dc1'', ''rack1'']" "g_strsplit ''dc1'' (CHR ''.'') = [''dc1'']"
    "g_strsplit [] (CHR ''.'') = []" by (simp_all add: g_strsplit_def)
  show ?thesis
    using location_distance [of "''dc1.rack1.host1''" "''dc1.rack2.host7''"] location_distance [of "''dc1.rack1''" "''dc1''"]
      location_distance [of "[]" "[]"] unfolding t by (simp add: token_distance_def)
qed

end
