(* ===== verification/Load_Balancer.thy ===== *)
theory Load_Balancer
  imports Services "HOL-Library.Log_Nat"
begin

section \<open>The load-balancer\<close>

text \<open>
  Models \<open>metautils/lib/lb.c\<close>: the pool of the services of one type, sorted by score; the iterators
  that serve them (single run, round-robin, by score, at random, shared); the polling of a
  set of services under constraints; and the pools of a namespace. A pool and an iterator
  are entries of the lists of a \<open>lb_world\<close> and a pointer to one is its index; the union of an
  iterator, whose members have the same layout, is one group of fields. The clock, \<open>rand\<close>,
  the sort and \<open>strtod\<close> of the C library and of GLib are the environment.
\<close>

subsection \<open>Doubles\<close>

text \<open>
  A double is the rational it stands for. The result of an operation is the nearest double,
  ties to even; the values here are far from the bounds of the exponent.
\<close>

definition round_even :: "rat \<Rightarrow> int" where
  "round_even y =
     (let f = \<lfloor>y\<rfloor>; d = y - of_int f
      in if d < 1 / 2 then f else if d > 1 / 2 then f + 1 else if even f then f else f + 1)"

definition double_exp :: "rat \<Rightarrow> int" where
  "double_exp y = (if y \<ge> 1 then int (floorlog 2 (nat \<lfloor>y\<rfloor>)) - 1 else - int (floorlog 2 (nat \<lceil>1 / y\<rceil> - 1)))"

definition to_double :: "rat \<Rightarrow> rat" where
  "to_double y =
     (if y = 0 then 0
      else let s = 52 - double_exp y
           in if s \<ge> 0 then of_int (round_even (y * 2 ^ nat s)) / 2 ^ nat s
              else of_int (round_even (y / 2 ^ nat (- s))) * 2 ^ nat (- s))"

text \<open>
  \<open>ceil (sqrt ((gdouble) n))\<close>: the integer is converted first, so \<open>sqrt\<close> gets a whole double. Its result
  has 53 significant bits: the integer root of the argument scaled by \<open>4^k\<close>, rounded to the nearest (a root
  is never half-way), over \<open>2^k\<close>.
\<close>

fun isqrt :: "nat \<Rightarrow> nat" where
  "isqrt n = (if n = 0 then 0 else let r = 2 * isqrt (n div 4) in if (r + 1) * (r + 1) \<le> n then r + 1 else r)"

declare isqrt.simps [simp del]

lemma isqrt_spec: "isqrt n * isqrt n \<le> n \<and> n < (isqrt n + 1) * (isqrt n + 1)"
proof (induction n rule: isqrt.induct)
  case (1 n)
  show ?case
  proof (cases "n = 0")
    case False
    define q where "q = isqrt (n div 4)"
    have q: "q * q \<le> n div 4" "n div 4 < (q + 1) * (q + 1)" using 1 [OF False] by (simp_all add: q_def)
    then have "4 * (q * q) \<le> n" "n < 4 * ((q + 1) * (q + 1))" by linarith+
    then show ?thesis using False by (subst (1 2 3 4) isqrt.simps) (simp add: Let_def q_def [symmetric] algebra_simps)
  qed (simp add: isqrt.simps)
qed

definition sqrt_double :: "nat \<Rightarrow> rat" where
  "sqrt_double m =
     (if m = 0 then 0
      else let k = 53 - floorlog 2 (isqrt m); y = m * 4 ^ k; s = isqrt y
           in of_nat (if y > s * s + s then s + 1 else s) / 2 ^ k)"

definition ceil_sqrt :: "nat \<Rightarrow> nat" where
  "ceil_sqrt n = nat \<lceil>sqrt_double (nat \<lfloor>to_double (of_nat n)\<rfloor>)\<rceil>"

text \<open>A wider integer stored in a \<open>gint\<close>.\<close>

definition to_gint :: "int \<Rightarrow> int" where
  "to_gint x = sint (word_of_int x :: u32)"

subsection \<open>Types\<close>

type_synonym u64 = "64 word"

record score_slot =
  slot_index :: nat
  slot_score :: u32
  slot_sum :: u32

record grid_lb =
  lb_ns :: string
  lb_srvtype :: string
  shorten_ratio :: rat
  standard_deviation :: bool
  reset_delay :: int
  lb_version :: u64
  gpa :: "service_info list"
  id_by_addr :: "(addr_info \<times> nat) list"
  sorted_by_score :: "score_slot list"
  sum_scored :: u32
  size_max :: u32

datatype glbi_type = LBIT_SINGLE | LBIT_SHARED | LBIT_RR | LBIT_WRR | LBIT_RAND | LBIT_WRAND

record lb_iterator =
  it_lb :: nat
  it_version :: u64
  it_type :: glbi_type
  next_idx :: u32
  next_idx_global :: u32
  it_current :: u32
  last_reset :: int
  it_sub :: nat

record lb_world =
  w_lbs :: "grid_lb list"
  w_its :: "lb_iterator list"
  w_tick :: nat

text \<open>
  The environment: \<open>rand\<close>, \<open>time\<close> and \<open>g_random_int_range\<close> by the number of the call, where the
  allocator puts a new service among those already polled, what follows a buffer that is not
  terminated, the sort of GLib, and \<open>g_ascii_strtod\<close>.
\<close>

record lbenv =
  le_rand :: "nat \<Rightarrow> u32"
  le_time :: "nat \<Rightarrow> int"
  le_range :: "nat \<Rightarrow> nat \<Rightarrow> nat"
  le_place :: "nat \<Rightarrow> nat \<Rightarrow> nat"
  le_stack :: "nat \<Rightarrow> string"
  le_sort :: "score_slot list \<Rightarrow> score_slot list"
  le_strtod :: "string \<Rightarrow> rat"

subsection \<open>Helpers\<close>

abbreviation the_lb :: "lb_world \<Rightarrow> nat \<Rightarrow> grid_lb" where
  "the_lb w i \<equiv> w_lbs w ! i"

abbreviation the_it :: "lb_world \<Rightarrow> nat \<Rightarrow> lb_iterator" where
  "the_it w i \<equiv> w_its w ! i"

definition upd_lb :: "nat \<Rightarrow> (grid_lb \<Rightarrow> grid_lb) \<Rightarrow> lb_world \<Rightarrow> lb_world" where
  "upd_lb i f w = w\<lparr>w_lbs := (w_lbs w)[i := f (w_lbs w ! i)]\<rparr>"

definition upd_it :: "nat \<Rightarrow> (lb_iterator \<Rightarrow> lb_iterator) \<Rightarrow> lb_world \<Rightarrow> lb_world" where
  "upd_it i f w = w\<lparr>w_its := (w_its w)[i := f (w_its w ! i)]\<rparr>"

partial_function (option) get_effective_type :: "lb_world \<Rightarrow> nat \<Rightarrow> glbi_type option" where
  "get_effective_type w i =
     (if it_type (the_it w i) = LBIT_SHARED then get_effective_type w (it_sub (the_it w i)) else Some (it_type (the_it w i)))"

definition get_raw :: "grid_lb \<Rightarrow> nat \<Rightarrow> service_info option" where
  "get_raw lb idx = (let len = length (gpa lb) in if len = 0 then None else Some (service_info_dup (gpa lb ! (idx mod len))))"

definition get_by_score :: "grid_lb \<Rightarrow> u32 \<Rightarrow> service_info option" where
  "get_by_score lb idx =
     (if size_max lb = 0 then None else get_raw lb (slot_index (sorted_by_score lb ! unat (idx mod size_max lb))))"

definition get_by_score_no_shorten :: "grid_lb \<Rightarrow> u32 \<Rightarrow> service_info option" where
  "get_by_score_no_shorten lb idx =
     (if gpa lb = [] then None else get_raw lb (slot_index (sorted_by_score lb ! (unat idx mod length (gpa lb)))))"

text \<open>The table from addresses to indices: a key is found by its hash, then by equality.\<close>

definition same_key :: "addr_info \<Rightarrow> addr_info \<Rightarrow> bool" where
  "same_key a b \<longleftrightarrow> addr_info_hash a = addr_info_hash b \<and> addr_info_equal a b"

fun table_insert :: "addr_info \<Rightarrow> nat \<Rightarrow> (addr_info \<times> nat) list \<Rightarrow> (addr_info \<times> nat) list" where
  "table_insert k v [] = [(k, v)]"
| "table_insert k v ((k', v') # t) = (if same_key k' k then (k', v) # t else (k', v') # table_insert k v t)"

definition get_index_by_addr :: "grid_lb \<Rightarrow> addr_info \<Rightarrow> int" where
  "get_index_by_addr lb ai =
     (case List.find (\<lambda>(k, v). same_key k ai) (id_by_addr lb) of None \<Rightarrow> -1 | Some (k, p) \<Rightarrow> int p - 1)"

definition save_index_for_addr :: "addr_info \<Rightarrow> nat \<Rightarrow> grid_lb \<Rightarrow> grid_lb" where
  "save_index_for_addr ai idx lb = lb\<lparr>id_by_addr := table_insert ai (idx + 1) (id_by_addr lb)\<rparr>"

definition sort_slots_by_score :: "score_slot \<Rightarrow> score_slot \<Rightarrow> int" where
  "sort_slots_by_score p1 p2 = CMP (slot_score p2) (slot_score p1)"

subsection \<open>The pool\<close>

definition CLAMP_ratio :: "rat \<Rightarrow> rat" where
  "CLAMP_ratio r = (if r > to_double (1001 / 1000) then to_double (1001 / 1000)
                    else if r < to_double (1 / 1000) then to_double (1 / 1000) else r)"

definition grid_lb_set_SD_shortening :: "bool \<Rightarrow> grid_lb \<Rightarrow> grid_lb" where
  "grid_lb_set_SD_shortening on lb = lb\<lparr>standard_deviation := on\<rparr>"

definition grid_lb_set_shorten_ratio :: "rat \<Rightarrow> grid_lb \<Rightarrow> grid_lb" where
  "grid_lb_set_shorten_ratio ratio lb = lb\<lparr>shorten_ratio := CLAMP_ratio ratio\<rparr>"

definition grid_lb_init :: "string \<Rightarrow> string \<Rightarrow> grid_lb" where
  "grid_lb_init nsname srvtype =
     \<lparr>lb_ns = take 63 nsname, lb_srvtype = take 63 srvtype, shorten_ratio = to_double (1001 / 1000), standard_deviation = False,
      reset_delay = 0, lb_version = 1, gpa = [], id_by_addr = [], sorted_by_score = [], sum_scored = 0, size_max = 0\<rparr>"

definition lb_flush :: "grid_lb \<Rightarrow> grid_lb" where
  "lb_flush lb = lb\<lparr>id_by_addr := [], sorted_by_score := [], gpa := [], sum_scored := 0, size_max := 0\<rparr>"

text \<open>A provider is a step function on a state of its own.\<close>

type_synonym 's provider = "'s \<Rightarrow> bool \<times> service_info option \<times> 's"

partial_function (option) consume_loop :: "'s provider \<Rightarrow> 's \<Rightarrow> service_info list \<Rightarrow> service_info list option" where
  "consume_loop provide s a =
     (case provide s of
        (found, si, s) \<Rightarrow>
          if found
          then consume_loop provide s (case si of None \<Rightarrow> a | Some si \<Rightarrow> if si_score si > 0 then a @ [si] else a)
          else Some a)"

definition lb_consume_provider :: "'s provider \<Rightarrow> 's \<Rightarrow> grid_lb \<Rightarrow> grid_lb option" where
  "lb_consume_provider provide s lb = map_option (\<lambda>a. lb\<lparr>gpa := a\<rparr>) (consume_loop provide s (gpa lb))"

fun relink_loop :: "nat \<Rightarrow> grid_lb \<Rightarrow> grid_lb" where
  "relink_loop 0 lb = lb"
| "relink_loop (Suc i) lb =
     (let si = gpa lb ! i;
          lb = lb\<lparr>sorted_by_score := sorted_by_score lb @ [\<lparr>slot_index = i, slot_score = of_int (si_score si), slot_sum = 0\<rparr>]\<rparr>
      in relink_loop i (save_index_for_addr (si_addr si) i lb))"

definition lb_relink_services :: "lbenv \<Rightarrow> grid_lb \<Rightarrow> grid_lb" where
  "lb_relink_services E lb =
     (let lb = relink_loop (length (gpa lb)) lb in lb\<lparr>sorted_by_score := le_sort E (sorted_by_score lb)\<rparr>)"

fun cumulate :: "score_slot list \<Rightarrow> score_slot list \<times> u32" where
  "cumulate [] = ([], 0)"
| "cumulate (slot # slots) =
     (let (slots, sum) = cumulate slots; sum = sum + slot_score slot in (slot\<lparr>slot_sum := sum\<rparr> # slots, sum))"

definition lb_cumulate_scores_sum :: "grid_lb \<Rightarrow> grid_lb" where
  "lb_cumulate_scores_sum lb =
     (let (slots, sum) = cumulate (sorted_by_score lb) in lb\<lparr>sorted_by_score := slots, sum_scored := sum\<rparr>)"

definition compute_min_score_by_SD :: "grid_lb \<Rightarrow> u32" where
  "compute_min_score_by_SD lb =
     (let cnt = of_nat (length (sorted_by_score lb)) :: u64;
          mx = slot_score (sorted_by_score lb ! 0);
          xs = map (\<lambda>s. ucast (slot_score s) :: u64) (sorted_by_score lb);
          ex = sum_list xs div cnt; ex2 = sum_list (map (\<lambda>x. x * x) xs) div cnt;
          x = ex2 - ex * ex;
          x = of_nat (ceil_sqrt (unat x));
          x = ex - x
      in FUNC_CLAMP (ucast x) 1 mx)"

fun size_greater_loop :: "u32 \<Rightarrow> nat \<Rightarrow> score_slot list \<Rightarrow> nat" where
  "size_greater_loop score i [] = i"
| "size_greater_loop score i (slot # slots) = (if score > slot_score slot then i else size_greater_loop score (i + 1) slots)"

definition compute_size_greater :: "grid_lb \<Rightarrow> u32 \<Rightarrow> nat" where
  "compute_size_greater lb score = size_greater_loop score 0 (sorted_by_score lb)"

definition compute_size_shortened_by_SD :: "grid_lb \<Rightarrow> nat" where
  "compute_size_shortened_by_SD lb =
     (if \<not> standard_deviation lb then length (sorted_by_score lb) else compute_size_greater lb (compute_min_score_by_SD lb))"

definition compute_size_shortened_by_ratio :: "grid_lb \<Rightarrow> u32" where
  "compute_size_shortened_by_ratio lb =
     FUNC_CLAMP (of_int \<lceil>to_double (of_nat (length (sorted_by_score lb)) * shorten_ratio lb)\<rceil>) 1 (of_nat (length (sorted_by_score lb)))"

definition compute_shortened_size :: "grid_lb \<Rightarrow> u32" where
  "compute_shortened_size lb =
     (if sorted_by_score lb = [] then 0
      else MACRO_MIN (of_nat (compute_size_shortened_by_SD lb)) (compute_size_shortened_by_ratio lb))"

definition lb_reload :: "lbenv \<Rightarrow> 's provider \<Rightarrow> 's \<Rightarrow> grid_lb \<Rightarrow> grid_lb option" where
  "lb_reload E provide s lb =
     map_option
       (\<lambda>lb. let lb = lb_relink_services E lb;
                 lb = lb_cumulate_scores_sum lb;
                 lb = lb\<lparr>size_max := compute_shortened_size lb\<rparr>
             in lb\<lparr>lb_version := lb_version lb + 1\<rparr>)
       (lb_consume_provider provide s lb)"

definition grid_lb_reload :: "lbenv \<Rightarrow> 's provider \<Rightarrow> 's \<Rightarrow> grid_lb \<Rightarrow> grid_lb option" where
  "grid_lb_reload E provide s lb = lb_reload E provide s (lb_flush lb)"

definition get_service_from_addr :: "grid_lb \<Rightarrow> addr_info \<Rightarrow> service_info option" where
  "get_service_from_addr lb ai =
     (let idx = get_index_by_addr lb ai in if idx < 0 then None else Some (service_info_dup (gpa lb ! nat idx)))"

definition lb_is_addr_available :: "grid_lb \<Rightarrow> addr_info \<Rightarrow> bool" where
  "lb_is_addr_available lb ai =
     (let idx = get_index_by_addr lb ai in if idx < 0 then False else si_score (gpa lb ! nat idx) > 0)"

text \<open>\<open>None\<close> when an assertion fails.\<close>

definition grid_lb_is_srv_available :: "grid_lb \<Rightarrow> service_info \<Rightarrow> bool option" where
  "grid_lb_is_srv_available lb si =
     (if strncase_eq 32 (si_type si) (lb_srvtype lb) \<and> strncase_eq 256 (si_ns_name si) (lb_ns lb)
      then Some (lb_is_addr_available lb (si_addr si)) else None)"

definition grid_lb_count :: "grid_lb \<Rightarrow> nat" where
  "grid_lb_count lb = unat (size_max lb)"

definition grid_lb_count_all :: "grid_lb \<Rightarrow> nat" where
  "grid_lb_count_all lb = length (gpa lb)"

subsection \<open>Iterators\<close>

definition new_iterator :: "nat \<Rightarrow> glbi_type \<Rightarrow> lb_world \<Rightarrow> nat \<times> lb_world" where
  "new_iterator l ty w =
     (length (w_its w),
      w\<lparr>w_its := w_its w @ [\<lparr>it_lb = l, it_version = lb_version (the_lb w l), it_type = ty, next_idx = 0, next_idx_global = 0,
                            it_current = 0, last_reset = 0, it_sub = 0\<rparr>]\<rparr>)"

definition grid_lb_iterator_share :: "nat \<Rightarrow> lb_world \<Rightarrow> nat \<times> lb_world" where
  "grid_lb_iterator_share sub w =
     (length (w_its w),
      w\<lparr>w_its := w_its w @ [\<lparr>it_lb = it_lb (the_it w sub), it_version = it_version (the_it w sub), it_type = LBIT_SHARED,
                            next_idx = 0, next_idx_global = 0, it_current = 0, last_reset = 0, it_sub = sub\<rparr>]\<rparr>)"

definition grid_lb_iterator_single_run :: "nat \<Rightarrow> lb_world \<Rightarrow> nat \<times> lb_world" where
  "grid_lb_iterator_single_run l w = new_iterator l LBIT_SINGLE w"

definition grid_lb_iterator_round_robin :: "nat \<Rightarrow> lb_world \<Rightarrow> nat \<times> lb_world" where
  "grid_lb_iterator_round_robin l w = new_iterator l LBIT_RR w"

definition grid_lb_iterator_weighted_round_robin :: "nat \<Rightarrow> lb_world \<Rightarrow> nat \<times> lb_world" where
  "grid_lb_iterator_weighted_round_robin l w = new_iterator l LBIT_WRR w"

definition grid_lb_iterator_random :: "nat \<Rightarrow> lb_world \<Rightarrow> nat \<times> lb_world" where
  "grid_lb_iterator_random l w = new_iterator l LBIT_RAND w"

definition grid_lb_iterator_weighted_random :: "nat \<Rightarrow> lb_world \<Rightarrow> nat \<times> lb_world" where
  "grid_lb_iterator_weighted_random l w = new_iterator l LBIT_WRAND w"

definition grid_lb_iterator_init :: "nat \<Rightarrow> string \<Rightarrow> lb_world \<Rightarrow> nat \<times> lb_world" where
  "grid_lb_iterator_init l ty w =
     (if ty \<noteq> [] \<and> strcase_eq ty ''RR'' then grid_lb_iterator_round_robin l w
      else if strcase_eq ty ''RAND'' then grid_lb_iterator_random l w
      else if strcase_eq ty ''WRR'' \<or> strcase_eq ty ''SRR'' then grid_lb_iterator_weighted_round_robin l w
      else if strcase_eq ty ''WRAND'' \<or> strcase_eq ty ''SRAND'' then grid_lb_iterator_weighted_random l w
      else if strcase_eq ty ''SINGLE'' then grid_lb_iterator_single_run l w
      else grid_lb_iterator_round_robin l w)"

definition grid_lb_iterator_is_srv_available :: "nat \<Rightarrow> service_info \<Rightarrow> lb_world \<Rightarrow> bool option" where
  "grid_lb_iterator_is_srv_available i si w = grid_lb_is_srv_available (the_lb w (it_lb (the_it w i))) si"

definition grid_lb_iterator_is_addr_available :: "nat \<Rightarrow> addr_info \<Rightarrow> lb_world \<Rightarrow> bool" where
  "grid_lb_iterator_is_addr_available i ai w = lb_is_addr_available (the_lb w (it_lb (the_it w i))) ai"

subsubsection \<open>Configuration\<close>

definition metautils_cfg_get_bool :: "string option \<Rightarrow> bool \<Rightarrow> bool" where
  "metautils_cfg_get_bool v d =
     (case v of
        None \<Rightarrow> d
      | Some v \<Rightarrow>
          if list_ex (strcase_eq v) [''yes'', ''true'', ''on'', ''enable'', ''enabled''] then True
          else if list_ex (strcase_eq v) [''no'', ''false'', ''off'', ''disable'', ''disabled''] then False
          else d)"

definition grid_lb_configure_kv :: "lbenv \<Rightarrow> string \<Rightarrow> string \<Rightarrow> grid_lb \<Rightarrow> grid_lb" where
  "grid_lb_configure_kv E k v lb =
     (if strcase_eq k ''shorten_ratio'' then lb\<lparr>shorten_ratio := CLAMP_ratio (le_strtod E v)\<rparr>
      else if strcase_eq k ''standard_deviation'' then lb\<lparr>standard_deviation := metautils_cfg_get_bool (Some v) False\<rparr>
      else if strcase_eq k ''reset_delay'' then lb\<lparr>reset_delay := to_gint (strtoll v)\<rparr>
      else lb)"

text \<open>The copy of a pair takes one byte more than the pair, which ends the string only at the end of the options.\<close>

definition grid_lb_configure_pair :: "lbenv \<Rightarrow> nat \<Rightarrow> string \<Rightarrow> nat \<Rightarrow> grid_lb \<Rightarrow> grid_lb" where
  "grid_lb_configure_pair E k p l lb =
     (let pair = (if l < length p then take (l + 1) p @ le_stack E k else p)
      in case strchr pair (CHR ''='') of
           None \<Rightarrow> grid_lb_configure_kv E pair [] lb
         | Some eq \<Rightarrow> grid_lb_configure_kv E (take (length pair - length eq) pair) (tl eq) lb)"

fun next_opt :: "string \<Rightarrow> string \<Rightarrow> string option" where
  "next_opt [] sep = None"
| "next_opt (c # p) sep = (if c \<in> set sep then Some p else next_opt p sep)"

lemma next_opt_length: "next_opt p sep = Some e \<Longrightarrow> length e < length p"
  by (induction p) (auto split: if_splits)

function configure_options_loop :: "lbenv \<Rightarrow> nat \<Rightarrow> string \<Rightarrow> grid_lb \<Rightarrow> grid_lb" where
  "configure_options_loop E k p lb =
     (if p = [] then lb
      else case next_opt p ''?&'' of
             None \<Rightarrow> grid_lb_configure_pair E k p (length p) lb
           | Some e \<Rightarrow> configure_options_loop E (k + 1) e (grid_lb_configure_pair E k p (length p - length e) lb))"
  by pat_completeness auto
termination
  by (relation "measure (\<lambda>(E, k, p, lb). length p)") (auto dest: next_opt_length)

declare configure_options_loop.simps [simp del]

definition grid_lb_configure_options :: "lbenv \<Rightarrow> nat \<Rightarrow> string option \<Rightarrow> grid_lb \<Rightarrow> grid_lb" where
  "grid_lb_configure_options E k opts lb =
     (let lb = lb\<lparr>shorten_ratio := to_double (1001 / 1000), standard_deviation := False\<rparr>
      in case opts of None \<Rightarrow> lb | Some p \<Rightarrow> configure_options_loop E k p lb)"

definition grid_lb_iterator_configure :: "lbenv \<Rightarrow> nat \<Rightarrow> string \<Rightarrow> lb_world \<Rightarrow> lb_world" where
  "grid_lb_iterator_configure E i val w =
     (let it = the_it w i;
          options = (\<lambda>w. (upd_lb (it_lb it) (grid_lb_configure_options E (w_tick w) (next_opt val ''?&'')) w)\<lparr>w_tick := w_tick w + length val\<rparr>)
      in if it_type it = LBIT_SHARED then w
         else if take 1 val = ''R'' then
           options
             (if take 2 val = ''RR'' then
                if it_type it \<noteq> LBIT_RR then upd_it i (\<lambda>it. it\<lparr>it_type := LBIT_RR, next_idx := 0, next_idx_global := 0\<rparr>) w
                else w
              else if take 4 val = ''RAND'' then upd_it i (\<lambda>it. it\<lparr>it_type := LBIT_RAND\<rparr>) w
              else w)
         else if take 1 val = ''S'' \<or> take 1 val = ''W'' then
           options
             (if take 3 val = ''WRR'' \<or> take 3 val = ''SRR'' then
                if it_type it \<noteq> LBIT_WRR
                then (upd_it i (\<lambda>it. it\<lparr>it_type := LBIT_WRR, next_idx := 0, next_idx_global := 0, it_current := 0,
                                       last_reset := to_gint (le_time E (w_tick w))\<rparr>) w)\<lparr>w_tick := w_tick w + 1\<rparr>
                else w
              else if take 5 val = ''WRAND'' \<or> take 5 val = ''SRAND'' then upd_it i (\<lambda>it. it\<lparr>it_type := LBIT_WRAND\<rparr>) w
              else w)
         else w)"

subsubsection \<open>Serving\<close>

definition next_SINGLE :: "grid_lb \<Rightarrow> lb_iterator \<Rightarrow> service_info option \<times> lb_iterator" where
  "next_SINGLE lb it =
     (let mx = length (gpa lb)
      in if it_version it = lb_version lb \<and> mx > 0 \<and> unat (next_idx it) < mx
         then (get_raw lb (unat (next_idx it)), it\<lparr>next_idx := next_idx it + 1\<rparr>)
         else (None, it))"

definition next_RR :: "grid_lb \<Rightarrow> lb_iterator \<Rightarrow> bool \<Rightarrow> service_info option \<times> lb_iterator" where
  "next_RR lb it shorten =
     (if shorten then (get_by_score lb (next_idx it), it\<lparr>next_idx := next_idx it + 1\<rparr>)
      else if size_max lb > 0 then (get_by_score_no_shorten lb (next_idx_global it), it\<lparr>next_idx_global := next_idx_global it + 1\<rparr>)
      else (None, it))"

text \<open>The nested functions \<open>reset\<close> and \<open>decrement\<close>; the second returns the number of the next reading of the clock.\<close>

definition srr_reset :: "int \<Rightarrow> grid_lb \<Rightarrow> lb_iterator \<Rightarrow> lb_iterator" where
  "srr_reset now lb it = it\<lparr>next_idx := 0, it_current := slot_score (sorted_by_score lb ! 0), last_reset := to_gint now\<rparr>"

definition srr_decrement :: "lbenv \<Rightarrow> nat \<Rightarrow> grid_lb \<Rightarrow> lb_iterator \<Rightarrow> lb_iterator \<times> nat" where
  "srr_decrement E k lb it =
     (let it = it\<lparr>next_idx := 0, it_current := it_current it - 1\<rparr>
      in if it_current it = 0 then (srr_reset (le_time E k) lb it, k + 1) else (it, k))"

definition next_SRR :: "lbenv \<Rightarrow> nat \<Rightarrow> grid_lb \<Rightarrow> lb_iterator \<Rightarrow> service_info option \<times> lb_iterator \<times> nat" where
  "next_SRR E k lb it =
     (if length (gpa lb) > 0 then
        let expiration = to_gint (last_reset it + reset_delay lb);
            ask = it_current it \<noteq> 0 \<and> reset_delay lb > 0;
            late = ask \<and> expiration < le_time E k;
            k = (if ask then k + 1 else k);
            (it, k) =
              (if it_current it = 0 \<or> late then (srr_reset (le_time E k) lb it, k + 1)
               else if unat (next_idx it) \<ge> length (sorted_by_score lb) then srr_decrement E k lb it
               else if it_current it > slot_score (sorted_by_score lb ! unat (next_idx it)) then srr_decrement E k lb it
               else (it, k))
        in (get_by_score lb (next_idx it), it\<lparr>next_idx := next_idx it + 1\<rparr>, k)
      else (None, it, k))"

definition next_RAND :: "lbenv \<Rightarrow> nat \<Rightarrow> grid_lb \<Rightarrow> service_info option" where
  "next_RAND E k lb = get_by_score lb (le_rand E k)"

text \<open>The array is terminated by an element of zeros, which the search may read.\<close>

definition sum_at :: "score_slot list \<Rightarrow> nat \<Rightarrow> u32" where
  "sum_at ga i = (if i < length ga then slot_sum (ga ! i) else 0)"

definition guint32_absdiff :: "u32 \<Rightarrow> u32 \<Rightarrow> u32" where
  "guint32_absdiff i0 i1 = (if i0 > i1 then i0 - i1 else i1 - i0)"

function dichotomic_search :: "score_slot list \<Rightarrow> u32 \<Rightarrow> nat \<Rightarrow> nat \<Rightarrow> nat" where
  "dichotomic_search ga needle start end' =
     (let middle = (start + end') div 2; middle_sum = sum_at ga middle
      in if end' - start \<le> 1 then
           if guint32_absdiff middle_sum (sum_at ga start) < guint32_absdiff middle_sum (sum_at ga end') then start else end'
         else if needle \<le> middle_sum then dichotomic_search ga needle middle end'
         else dichotomic_search ga needle start middle)"
  by pat_completeness auto
termination
  by (relation "measure (\<lambda>(ga, needle, start, end'). end' - start)") auto

declare dichotomic_search.simps [simp del]

definition next_SRAND :: "lbenv \<Rightarrow> nat \<Rightarrow> grid_lb \<Rightarrow> service_info option" where
  "next_SRAND E k lb =
     (if length (gpa lb) > 0 \<and> sum_scored lb \<noteq> 0
      then get_by_score lb (of_nat (dichotomic_search (sorted_by_score lb) (le_rand E k mod sum_scored lb) 0 (length (sorted_by_score lb))))
      else None)"

text \<open>\<open>_iterator_next_shorten\<close> for an iterator that is not shared.\<close>

definition next_own :: "lbenv \<Rightarrow> nat \<Rightarrow> bool \<Rightarrow> lb_world \<Rightarrow> service_info option \<times> lb_world" where
  "next_own E i shorten w =
     (let it = the_it w i; lb = the_lb w (it_lb it)
      in case it_type it of
           LBIT_SINGLE \<Rightarrow> (case next_SINGLE lb it of (r, it) \<Rightarrow> (r, upd_it i (\<lambda>_. it) w))
         | LBIT_RR \<Rightarrow> (case next_RR lb it shorten of (r, it) \<Rightarrow> (r, upd_it i (\<lambda>_. it) w))
         | LBIT_WRR \<Rightarrow>
             if shorten then (case next_SRR E (w_tick w) lb it of (r, it, k) \<Rightarrow> (r, (upd_it i (\<lambda>_. it) w)\<lparr>w_tick := k\<rparr>))
             else (case next_RR lb it False of (r, it) \<Rightarrow> (r, upd_it i (\<lambda>_. it) w))
         | LBIT_RAND \<Rightarrow> (next_RAND E (w_tick w) lb, w\<lparr>w_tick := w_tick w + 1\<rparr>)
         | LBIT_WRAND \<Rightarrow> (next_SRAND E (w_tick w) lb, w\<lparr>w_tick := w_tick w + 1\<rparr>)
         | LBIT_SHARED \<Rightarrow> (None, w))"

partial_function (option) iterator_next_shorten ::
  "lbenv \<Rightarrow> nat \<Rightarrow> bool \<Rightarrow> lb_world \<Rightarrow> (service_info option \<times> lb_world) option" where
  "iterator_next_shorten E i shorten w =
     (if it_type (the_it w i) = LBIT_SHARED then iterator_next_shorten E (it_sub (the_it w i)) shorten w
      else Some (next_own E i shorten w))"

definition grid_lb_iterator_next :: "lbenv \<Rightarrow> nat \<Rightarrow> lb_world \<Rightarrow> (service_info option \<times> lb_world) option" where
  "grid_lb_iterator_next E i w = iterator_next_shorten E i True w"

subsection \<open>Polling a set of services\<close>

record lb_next_opt =
  req_max :: nat
  req_distance :: nat
  req_duplicates :: bool
  req_shuffle :: bool
  req_stgclass :: "storage_class option"
  req_strict_stgclass :: bool
  opt_filter :: "(service_info \<Rightarrow> bool) option"

definition get_iteration_limit :: "lb_world \<Rightarrow> nat \<Rightarrow> bool \<Rightarrow> nat option" where
  "get_iteration_limit w i shorten =
     (let lb = the_lb w (it_lb (the_it w i))
      in map_option (\<lambda>ty. if (ty = LBIT_SINGLE \<or> ty = LBIT_RR) \<and> shorten then grid_lb_count lb else grid_lb_count_all lb)
           (get_effective_type w i))"

text \<open>The services polled so far, in the order of the tree, under what the tree compares.\<close>

type_synonym polled = "(addr_key, service_info) gtree"

definition G_MAXUINT :: nat where "G_MAXUINT = 2 ^ 32 - 1"

fun min_distance :: "nat \<Rightarrow> string \<Rightarrow> nat \<Rightarrow> service_info list \<Rightarrow> nat option" where
  "min_distance reqdist loc0 mindist [] = Some mindist"
| "min_distance reqdist loc0 mindist (v # vs) =
     Option.bind (distance_between_location (Some loc0) (service_info_get_rawx_location v None)) (\<lambda>d.
       let mindist = min mindist d
       in if mindist < reqdist then Some mindist else min_distance reqdist loc0 mindist vs)"

definition distance_fits :: "nat \<Rightarrow> polled \<Rightarrow> service_info \<Rightarrow> bool option" where
  "distance_fits reqdist ps si =
     (if reqdist = 0 then Some True
      else case service_info_get_rawx_location si None of
             None \<Rightarrow> Some (G_MAXUINT \<ge> reqdist)
           | Some loc0 \<Rightarrow> map_option (\<lambda>mindist. mindist \<ge> reqdist) (min_distance reqdist loc0 G_MAXUINT (map snd ps)))"

definition filter_matches :: "(service_info \<Rightarrow> bool) option \<Rightarrow> service_info \<Rightarrow> bool" where
  "filter_matches f si \<longleftrightarrow> (case f of None \<Rightarrow> True | Some hook \<Rightarrow> hook si)"

text \<open>
  Where a service goes among those polled. With duplicates the tree compares pointers, so a new
  service is never found and goes where its allocation puts it.
\<close>

definition place :: "nat \<Rightarrow> 'a \<Rightarrow> 'a list \<Rightarrow> 'a list" where
  "place n x xs = take n xs @ x # drop n xs"

partial_function (option) search_servers_loop ::
  "lbenv \<Rightarrow> nat \<Rightarrow> lb_next_opt \<Rightarrow> string option \<Rightarrow> bool \<Rightarrow> nat \<Rightarrow> polled \<Rightarrow> lb_world \<Rightarrow> (polled \<times> lb_world) option" where
  "search_servers_loop E i opt stgclass shorten limit ps w =
     (if limit > 0 \<and> req_max opt > length ps then
        Option.bind (iterator_next_shorten E i shorten w) (\<lambda>(r, w).
          case r of
            None \<Rightarrow> Some (ps, w)
          | Some si \<Rightarrow>
              if \<not> service_info_check_storage_class si stgclass \<or> \<not> filter_matches (opt_filter opt) si
              then search_servers_loop E i opt stgclass shorten (limit - 1) ps w
              else Option.bind (distance_fits (req_distance opt) ps si) (\<lambda>fits.
                if \<not> fits then search_servers_loop E i opt stgclass shorten (limit - 1) ps w
                else if req_duplicates opt
                then search_servers_loop E i opt stgclass shorten limit
                       (place (le_place E (w_tick w) (length ps)) (addr_key (si_addr si), si) ps) (w\<lparr>w_tick := w_tick w + 1\<rparr>)
                else case g_tree_lookup addr_key_compare ps (addr_key (si_addr si)) of
                       None \<Rightarrow> search_servers_loop E i opt stgclass shorten limit
                                 (g_tree_replace addr_key_compare ps (addr_key (si_addr si)) si) w
                     | Some old \<Rightarrow> search_servers_loop E i opt stgclass shorten (limit - 1)
                                 (g_tree_replace addr_key_compare ps (addr_key (si_addr si)) si) w))
      else Some (ps, w))"

definition search_servers ::
  "lbenv \<Rightarrow> nat \<Rightarrow> lb_next_opt \<Rightarrow> string option \<Rightarrow> bool \<Rightarrow> polled \<times> lb_world \<Rightarrow> (polled \<times> lb_world) option" where
  "search_servers E i opt stgclass shorten pw =
     (case pw of (ps, w) \<Rightarrow>
        Option.bind (get_iteration_limit w i shorten) (\<lambda>limit. search_servers_loop E i opt stgclass shorten limit ps w))"

fun search_fallbacks ::
  "lbenv \<Rightarrow> nat \<Rightarrow> lb_next_opt \<Rightarrow> string option list \<Rightarrow> polled \<times> lb_world \<Rightarrow> (polled \<times> lb_world) option" where
  "search_fallbacks E i opt [] pw = Some pw"
| "search_fallbacks E i opt (f # fallbacks) pw =
     (if req_max opt > length (fst pw)
      then Option.bind (if f \<noteq> None then search_servers E i opt f False pw else Some pw) (search_fallbacks E i opt fallbacks)
      else Some pw)"

definition next_set ::
  "lbenv \<Rightarrow> nat \<Rightarrow> lb_next_opt \<Rightarrow> string option \<Rightarrow> string option list \<Rightarrow> polled \<times> lb_world \<Rightarrow> (polled \<times> lb_world) option" where
  "next_set E i opt stgclass fallbacks pw =
     Option.bind (search_servers E i opt stgclass True pw) (\<lambda>pw.
     Option.bind (if req_max opt > length (fst pw) then search_servers E i opt stgclass False pw else Some pw) (\<lambda>pw.
     search_fallbacks E i opt fallbacks pw))"

text \<open>\<open>g_ptr_array_remove_index_fast\<close> followed by the addition of the element removed.\<close>

fun shuffle_loop :: "lbenv \<Rightarrow> nat \<Rightarrow> nat \<Rightarrow> 'a list \<Rightarrow> 'a list" where
  "shuffle_loop E k 0 xs = xs"
| "shuffle_loop E k (Suc n) xs =
     (let j = le_range E k (length xs - 1); l = length xs - 1
      in shuffle_loop E (k + 1) n (xs[j := xs ! l, l := xs ! j]))"

definition grid_lb_iterator_next_set ::
  "lbenv \<Rightarrow> nat \<Rightarrow> lb_next_opt \<Rightarrow> lb_world \<Rightarrow> (service_info list option \<times> lb_world) option" where
  "grid_lb_iterator_next_set E i opt w =
     (if req_max opt = 0 then Some (None, w)
      else if \<not> req_duplicates opt \<and> req_max opt > grid_lb_count_all (the_lb w (it_lb (the_it w i))) then Some (None, w)
      else
        let fallbacks = (if req_strict_stgclass opt then [] else storage_class_get_fallbacks (req_stgclass opt))
        in map_option
             (\<lambda>(ps, w).
                if req_max opt > length ps then (None, w)
                else let pre = map snd ps
                     in if req_shuffle opt
                        then (Some (shuffle_loop E (w_tick w) (length pre - 1) pre), w\<lparr>w_tick := w_tick w + (length pre - 1)\<rparr>)
                        else (Some pre, w))
             (next_set E i opt (storage_class_get_name (req_stgclass opt)) fallbacks ([], w)))"

text \<open>The constraints against services already in place, as a filter. A distance that is not defined is taken as far enough.\<close>

definition ext_opt_filter ::
  "lb_next_opt \<Rightarrow> service_info option list \<Rightarrow> service_info option list \<Rightarrow> service_info \<Rightarrow> bool" where
  "ext_opt_filter opt srv_inplace srv_forbidden si \<longleftrightarrow>
     \<not> (\<exists>x \<in> set srv_forbidden. x \<noteq> None \<and> addr_info_equal (si_addr si) (si_addr (the x))) \<and>
     (req_duplicates opt \<or> \<not> (\<exists>x \<in> set srv_inplace. x \<noteq> None \<and> addr_info_equal (si_addr si) (si_addr (the x)))) \<and>
     \<not> (\<exists>x \<in> set srv_inplace. x \<noteq> None \<and>
          (case distance_between_services si (the x) of None \<Rightarrow> False | Some d \<Rightarrow> req_distance opt > d)) \<and>
     filter_matches (opt_filter opt) si"

definition grid_lb_iterator_next_set2 ::
  "lbenv \<Rightarrow> nat \<Rightarrow> lb_next_opt \<Rightarrow> service_info option list \<Rightarrow> service_info option list \<Rightarrow> lb_world \<Rightarrow>
   (service_info list option \<times> lb_world) option" where
  "grid_lb_iterator_next_set2 E i opt srv_inplace srv_forbidden w =
     grid_lb_iterator_next_set E i (opt\<lparr>opt_filter := Some (ext_opt_filter opt srv_inplace srv_forbidden)\<rparr>) w"

subsection \<open>The pools of a namespace\<close>

record grid_lbpool =
  pool_ns :: string
  pool_lbs :: "(string, nat) gtree"
  pool_its :: "(string, nat) gtree"

definition metautils_strlcpy_physical_ns :: "string \<Rightarrow> nat \<Rightarrow> string" where
  "metautils_strlcpy_physical_ns s dlen = take (dlen - 1) (takeWhile (\<lambda>c. c \<noteq> CHR ''.'') s)"

definition grid_lbpool_create :: "string \<Rightarrow> grid_lbpool" where
  "grid_lbpool_create nsname = \<lparr>pool_ns = metautils_strlcpy_physical_ns nsname 256, pool_lbs = [], pool_its = []\<rparr>"

text \<open>\<open>_ensure\<close>: the pool, its iterator, and the state after their creation.\<close>

definition lbpool_ensure :: "string \<Rightarrow> grid_lbpool \<times> lb_world \<Rightarrow> nat \<times> nat \<times> grid_lbpool \<times> lb_world" where
  "lbpool_ensure srvtype gw =
     (case gw of (glp, w) \<Rightarrow>
        let (l, glp, w) =
              (case g_tree_lookup strcmp (pool_lbs glp) srvtype of
                 Some l \<Rightarrow> (l, glp, w)
               | None \<Rightarrow> (length (w_lbs w), glp\<lparr>pool_lbs := g_tree_insert strcmp (pool_lbs glp) srvtype (length (w_lbs w))\<rparr>,
                          w\<lparr>w_lbs := w_lbs w @ [grid_lb_init (pool_ns glp) srvtype]\<rparr>))
        in case g_tree_lookup strcmp (pool_its glp) srvtype of
             Some i \<Rightarrow> (l, i, glp, w)
           | None \<Rightarrow>
               let (i, w) = grid_lb_iterator_round_robin l w
               in (l, i, glp\<lparr>pool_its := g_tree_insert strcmp (pool_its glp) srvtype i\<rparr>, w))"

definition grid_lbpool_ensure_iterator :: "string \<Rightarrow> grid_lbpool \<times> lb_world \<Rightarrow> nat \<times> grid_lbpool \<times> lb_world" where
  "grid_lbpool_ensure_iterator srvtype gw = (case lbpool_ensure srvtype gw of (l, i, gw) \<Rightarrow> (i, gw))"

definition grid_lbpool_ensure_lb :: "string \<Rightarrow> grid_lbpool \<times> lb_world \<Rightarrow> nat \<times> grid_lbpool \<times> lb_world" where
  "grid_lbpool_ensure_lb srvtype gw = (case lbpool_ensure srvtype gw of (l, i, gw) \<Rightarrow> (l, gw))"

definition grid_lbpool_configure_string ::
  "lbenv \<Rightarrow> string \<Rightarrow> string \<Rightarrow> grid_lbpool \<times> lb_world \<Rightarrow> grid_lbpool \<times> lb_world" where
  "grid_lbpool_configure_string E srvtype cfg gw =
     (case grid_lbpool_ensure_iterator srvtype gw of (i, glp, w) \<Rightarrow> (glp, grid_lb_iterator_configure E i cfg w))"

definition lbpool_configure_kv :: "lbenv \<Rightarrow> string \<Rightarrow> grid_lbpool \<times> lb_world \<Rightarrow> grid_lbpool \<times> lb_world" where
  "lbpool_configure_kv E kv gw =
     (case strchr kv (CHR ''='') of
        None \<Rightarrow> gw
      | Some val \<Rightarrow>
          if length val = length kv then gw
          else grid_lbpool_configure_string E (take (length kv - length val) kv) (tl val) gw)"

definition CONF_KEY_PREFIX_LB :: string where "CONF_KEY_PREFIX_LB = ''lb.''"

text \<open>The options of the namespace in the order of the iteration of their table.\<close>

definition grid_lbpool_reconfigure ::
  "lbenv \<Rightarrow> (string \<times> string) list \<Rightarrow> grid_lbpool \<times> lb_world \<Rightarrow> grid_lbpool \<times> lb_world" where
  "grid_lbpool_reconfigure E kvs gw =
     foldl (\<lambda>gw (k, v).
              if take 3 k = CONF_KEY_PREFIX_LB then lbpool_configure_kv E (cstr (drop 3 k @ ''='' @ v)) gw else gw)
       gw kvs"

definition grid_lbpool_namespace :: "grid_lbpool \<Rightarrow> string" where
  "grid_lbpool_namespace glp = pool_ns glp"

definition grid_lbpool_get_lb :: "grid_lbpool \<Rightarrow> string \<Rightarrow> nat option" where
  "grid_lbpool_get_lb glp srvtype = g_tree_lookup strcmp (pool_lbs glp) srvtype"

definition grid_lbpool_get_iterator :: "grid_lbpool \<Rightarrow> string \<Rightarrow> nat option" where
  "grid_lbpool_get_iterator glp srvtype = g_tree_lookup strcmp (pool_its glp) srvtype"

definition grid_lbpool_reload ::
  "lbenv \<Rightarrow> string \<Rightarrow> 's provider \<Rightarrow> 's \<Rightarrow> grid_lbpool \<times> lb_world \<Rightarrow> (grid_lbpool \<times> lb_world) option" where
  "grid_lbpool_reload E srvtype provider s gw =
     (case grid_lbpool_ensure_lb srvtype gw of (l, glp, w) \<Rightarrow>
        map_option (\<lambda>lb. (glp, upd_lb l (\<lambda>_. lb) w)) (grid_lb_reload E provider s (the_lb w l)))"

subsection \<open>Services from JSON\<close>

text \<open>
  The provider that reads an array of items, the number of items left being its state. The
  items are those of the JSON library; \<open>load\<close> is \<open>service_info_load_json_object\<close>.
\<close>

fun json_provide :: "('j \<Rightarrow> bool) \<Rightarrow> ('j \<Rightarrow> service_info option) \<Rightarrow> 'j option list \<Rightarrow> nat provider" where
  "json_provide is_object load items 0 = (True, None, 0)"
| "json_provide is_object load items (Suc i) =
     (case items ! i of
        None \<Rightarrow> (True, None, i)
      | Some item \<Rightarrow>
          if \<not> is_object item then (True, None, i)
          else case load item of Some si \<Rightarrow> (False, Some si, i) | None \<Rightarrow> json_provide is_object load items i)"

text \<open>\<open>None\<close> for an object that is not an array.\<close>

definition grid_lb_reload_json_object ::
  "lbenv \<Rightarrow> ('j \<Rightarrow> bool) \<Rightarrow> ('j \<Rightarrow> service_info option) \<Rightarrow> 'j option list option \<Rightarrow> grid_lb \<Rightarrow> (gerror option \<times> grid_lb) option" where
  "grid_lb_reload_json_object E is_object load obj lb =
     (case obj of
        None \<Rightarrow> Some (Some 400, lb)
      | Some items \<Rightarrow> map_option (Pair None) (grid_lb_reload E (json_provide is_object load items) (length items) lb))"

text \<open>\<open>parse\<close> is the tokener of the JSON library, \<open>None\<close> for what it does not read as an array.\<close>

definition grid_lb_reload_json ::
  "lbenv \<Rightarrow> ('j \<Rightarrow> bool) \<Rightarrow> ('j \<Rightarrow> service_info option) \<Rightarrow> (string \<Rightarrow> 'j option list option) \<Rightarrow> string \<Rightarrow> grid_lb \<Rightarrow>
   (gerror option \<times> grid_lb) option" where
  "grid_lb_reload_json E is_object load parse encoded lb = grid_lb_reload_json_object E is_object load (parse encoded) lb"

definition grid_lbpool_reload_json_object ::
  "lbenv \<Rightarrow> ('j \<Rightarrow> bool) \<Rightarrow> ('j \<Rightarrow> service_info option) \<Rightarrow> string \<Rightarrow> 'j option list option \<Rightarrow> grid_lbpool \<times> lb_world \<Rightarrow>
   (gerror option \<times> grid_lbpool \<times> lb_world) option" where
  "grid_lbpool_reload_json_object E is_object load srvtype obj gw =
     (case grid_lbpool_ensure_lb srvtype gw of (l, glp, w) \<Rightarrow>
        map_option (\<lambda>(e, lb). (e, glp, upd_lb l (\<lambda>_. lb) w)) (grid_lb_reload_json_object E is_object load obj (the_lb w l)))"

definition grid_lbpool_reload_json ::
  "lbenv \<Rightarrow> ('j \<Rightarrow> bool) \<Rightarrow> ('j \<Rightarrow> service_info option) \<Rightarrow> (string \<Rightarrow> 'j option list option) \<Rightarrow> string \<Rightarrow> string \<Rightarrow>
   grid_lbpool \<times> lb_world \<Rightarrow> (gerror option \<times> grid_lbpool \<times> lb_world) option" where
  "grid_lbpool_reload_json E is_object load parse srvtype encoded gw =
     grid_lbpool_reload_json_object E is_object load srvtype (parse encoded) gw"

end
