(* ===== verification/Load_Balancer_Pool.thy ===== *)
theory Load_Balancer_Pool
  imports Load_Balancer
begin

section \<open>The pool of the load-balancer\<close>

text \<open>
  The order and the sums of a reloaded pool, its shortened size, and how the search of the
  weighted random pick shares the sum of the scores between the slots.
\<close>

subsection \<open>A reloaded pool\<close>

text \<open>The contract of \<open>g_array_sort\<close>.\<close>

definition sorts :: "lbenv \<Rightarrow> bool" where
  "sorts E \<longleftrightarrow> (\<forall>xs. mset (le_sort E xs) = mset xs \<and> sorted_wrt (\<lambda>a b. sort_slots_by_score a b \<le> 0) (le_sort E xs))"

abbreviation scores :: "grid_lb \<Rightarrow> u32 list" where
  "scores lb \<equiv> map slot_score (sorted_by_score lb)"

text \<open>
  The slots are those of the services, the best score first; each has the sum of the scores
  from its own to the last; and the shortened size keeps at least one.
\<close>

definition pool_ok :: "grid_lb \<Rightarrow> bool" where
  "pool_ok lb \<longleftrightarrow>
     mset (map (\<lambda>s. (slot_index s, slot_score s)) (sorted_by_score lb)) =
       mset (map (\<lambda>i. (i, of_int (si_score (gpa lb ! i)))) [0..<length (gpa lb)]) \<and>
     sorted_wrt (\<lambda>a b. b \<le> a) (scores lb) \<and> (\<forall>si \<in> set (gpa lb). si_score si > 0) \<and>
     (\<forall>i < length (sorted_by_score lb). slot_sum (sorted_by_score lb ! i) = sum_list (drop i (scores lb))) \<and>
     sum_scored lb = sum_list (scores lb)"

text \<open>The scores and their number fit the integers of the source.\<close>

definition in_range :: "grid_lb \<Rightarrow> bool" where
  "in_range lb \<longleftrightarrow> (\<forall>si \<in> set (gpa lb). si_score si < 2 ^ 31) \<and> sum_list (map si_score (gpa lb)) < 2 ^ 32"

lemma cumulate_spec:
  assumes "cumulate xs = (ys, t)"
  shows "map slot_index ys = map slot_index xs" and "map slot_score ys = map slot_score xs" and "t = sum_list (map slot_score xs)"
    and "i < length xs \<Longrightarrow> slot_sum (ys ! i) = sum_list (drop i (map slot_score xs))"
proof -
  have "map slot_index ys = map slot_index xs \<and> map slot_score ys = map slot_score xs \<and> t = sum_list (map slot_score xs) \<and>
      (i < length xs \<longrightarrow> slot_sum (ys ! i) = sum_list (drop i (map slot_score xs)))"
    using assms
  proof (induction xs arbitrary: ys t i)
    case (Cons x xs)
    obtain zs u where c: "cumulate xs = (zs, u)" by (metis surj_pair)
    note IH = Cons.IH [OF c]
    show ?case using Cons.prems IH [of "i - 1"] by (cases i) (auto simp: c Let_def add.commute)
  qed simp
  then show "map slot_index ys = map slot_index xs" "map slot_score ys = map slot_score xs" "t = sum_list (map slot_score xs)"
    "i < length xs \<Longrightarrow> slot_sum (ys ! i) = sum_list (drop i (map slot_score xs))" by auto
qed

lemma relink_spec:
  "gpa (relink_loop n lb) = gpa lb"
  "sorted_by_score (relink_loop n lb) = sorted_by_score lb @
     map (\<lambda>i. \<lparr>slot_index = i, slot_score = of_int (si_score (gpa lb ! i)), slot_sum = 0\<rparr>) (rev [0..<n])"
  by (induction n arbitrary: lb) (simp_all add: save_index_for_addr_def Let_def)

lemma consume_positive:
  fixes provide :: "'s provider"
  assumes "consume_loop provide s a = Some b" and "\<forall>si \<in> set a. si_score si > 0"
  shows "\<forall>si \<in> set b. si_score si > 0"
proof -
  let ?P = "\<lambda>(provide :: 's provider) (s :: 's) a b. (\<forall>si \<in> set a. si_score si > 0) \<longrightarrow> (\<forall>si \<in> set b. si_score si > 0)"
  have "?P provide s a b"
  proof (rule consume_loop.raw_induct [where P = ?P, OF _ assms(1)])
    fix f and provide :: "'s provider" and s a b
    assume IH: "\<And>provide s a b. f provide s a = Some b \<Longrightarrow> ?P provide s a b"
      and st: "(case provide s of (found, si, s) \<Rightarrow> if found
          then f provide s (case si of None \<Rightarrow> a | Some si \<Rightarrow> if si_score si > 0 then a @ [si] else a) else Some a) = Some b"
    obtain x si s' where p: "provide s = (x, si, s')" by (metis surj_pair)
    show "?P provide s a b"
    proof (cases x)
      case True
      let ?a = "case si of None \<Rightarrow> a | Some si \<Rightarrow> if si_score si > 0 then a @ [si] else a"
      have "f provide s' ?a = Some b" using st True p by simp
      note h = IH [OF this]
      have "\<forall>si \<in> set a. si_score si > 0 \<Longrightarrow> \<forall>si \<in> set ?a. si_score si > 0" by (simp split: option.split)
      then show ?thesis using h by blast
    next
      case False
      then show ?thesis using st p by simp
    qed
  qed
  then show ?thesis using assms(2) by blast
qed

lemma relink_settings:
  "shorten_ratio (relink_loop n lb) = shorten_ratio lb" "standard_deviation (relink_loop n lb) = standard_deviation lb"
  "reset_delay (relink_loop n lb) = reset_delay lb" "lb_version (relink_loop n lb) = lb_version lb"
  by (induction n arbitrary: lb) (simp_all add: save_index_for_addr_def Let_def)

definition new_slots :: "service_info list \<Rightarrow> score_slot list" where
  "new_slots a = map (\<lambda>i. \<lparr>slot_index = i, slot_score = of_int (si_score (a ! i)), slot_sum = 0\<rparr>) (rev [0..<length a])"

lemma relinked:
  "gpa (lb_relink_services E lb) = gpa lb"
  "sorted_by_score lb = [] \<Longrightarrow> sorted_by_score (lb_relink_services E lb) = le_sort E (new_slots (gpa lb))"
  "shorten_ratio (lb_relink_services E lb) = shorten_ratio lb" "standard_deviation (lb_relink_services E lb) = standard_deviation lb"
  "reset_delay (lb_relink_services E lb) = reset_delay lb" "lb_version (lb_relink_services E lb) = lb_version lb"
  by (simp_all add: lb_relink_services_def Let_def relink_spec relink_settings new_slots_def)

lemma cumulated:
  "gpa (lb_cumulate_scores_sum lb) = gpa lb" "sorted_by_score (lb_cumulate_scores_sum lb) = fst (cumulate (sorted_by_score lb))"
  "sum_scored (lb_cumulate_scores_sum lb) = snd (cumulate (sorted_by_score lb))"
  "shorten_ratio (lb_cumulate_scores_sum lb) = shorten_ratio lb" "standard_deviation (lb_cumulate_scores_sum lb) = standard_deviation lb"
  "reset_delay (lb_cumulate_scores_sum lb) = reset_delay lb" "lb_version (lb_cumulate_scores_sum lb) = lb_version lb"
  by (simp_all add: lb_cumulate_scores_sum_def case_prod_unfold Let_def)

lemma shortened_same:
  assumes "sorted_by_score lb' = sorted_by_score lb" and "standard_deviation lb' = standard_deviation lb" and "shorten_ratio lb' = shorten_ratio lb"
  shows "compute_shortened_size lb' = compute_shortened_size lb"
  unfolding compute_shortened_size_def compute_size_shortened_by_SD_def compute_size_shortened_by_ratio_def
    compute_size_greater_def compute_min_score_by_SD_def assms ..

lemma reload_eq:
  assumes "grid_lb_reload E provide s lb = Some lb'"
  shows "consume_loop provide s [] = Some (gpa lb')"
    and "sorted_by_score lb' = fst (cumulate (le_sort E (new_slots (gpa lb'))))"
    and "sum_scored lb' = snd (cumulate (le_sort E (new_slots (gpa lb'))))"
    and "size_max lb' = compute_shortened_size lb'" and "lb_version lb' = lb_version lb + 1"
    and "shorten_ratio lb' = shorten_ratio lb" and "standard_deviation lb' = standard_deviation lb" and "reset_delay lb' = reset_delay lb"
proof -
  obtain a where a: "consume_loop provide s [] = Some a"
    and l: "lb' = (let lb = lb_cumulate_scores_sum (lb_relink_services E ((lb_flush lb)\<lparr>gpa := a\<rparr>));
        lb = lb\<lparr>size_max := compute_shortened_size lb\<rparr> in lb\<lparr>lb_version := lb_version lb + 1\<rparr>)"
    using assms by (auto simp: grid_lb_reload_def lb_reload_def lb_consume_provider_def lb_flush_def Let_def)
  define l1 where "l1 = lb_cumulate_scores_sum (lb_relink_services E ((lb_flush lb)\<lparr>gpa := a\<rparr>))"
  have l': "lb' = l1\<lparr>size_max := compute_shortened_size l1, lb_version := lb_version l1 + 1\<rparr>" unfolding l l1_def Let_def by simp
  have f: "gpa l1 = a" "sorted_by_score l1 = fst (cumulate (le_sort E (new_slots a)))" "sum_scored l1 = snd (cumulate (le_sort E (new_slots a)))"
    "lb_version l1 = lb_version lb" "shorten_ratio l1 = shorten_ratio lb" "standard_deviation l1 = standard_deviation lb" "reset_delay l1 = reset_delay lb"
    by (simp_all add: l1_def cumulated relinked lb_flush_def)
  show "size_max lb' = compute_shortened_size lb'" using shortened_same [of lb' l1] by (simp add: l')
  show "consume_loop provide s [] = Some (gpa lb')" "sorted_by_score lb' = fst (cumulate (le_sort E (new_slots (gpa lb'))))"
    "sum_scored lb' = snd (cumulate (le_sort E (new_slots (gpa lb'))))" "lb_version lb' = lb_version lb + 1"
    "shorten_ratio lb' = shorten_ratio lb" "standard_deviation lb' = standard_deviation lb" "reset_delay lb' = reset_delay lb"
    using a f by (simp_all add: l')
qed

lemma reloaded_pool_ok:
  assumes "sorts E" and "grid_lb_reload E provide s lb = Some lb'"
  shows "pool_ok lb'"
proof -
  define a where "a = gpa lb'"
  note a = reload_eq [OF assms(2), folded a_def]
  define zs where "zs = le_sort E (new_slots a)"
  obtain ys t where c: "cumulate zs = (ys, t)" by (metis surj_pair)
  note C = cumulate_spec [OF c]
  have l: "sorted_by_score lb' = ys" "sum_scored lb' = t" using a(2,3) c by (simp_all add: zs_def)
  have z: "mset zs = mset (new_slots a)" "sorted_wrt (\<lambda>a b. sort_slots_by_score a b \<le> 0) zs"
    using assms(1) by (auto simp: sorts_def zs_def)
  have "map (\<lambda>s. (slot_index s, slot_score s)) ys = zip (map slot_index ys) (map slot_score ys)" by (simp add: zip_map_map zip_same_conv_map)
  also have "\<dots> = map (\<lambda>s. (slot_index s, slot_score s)) zs" unfolding C(1,2) by (simp add: zip_map_map zip_same_conv_map)
  finally have e: "map (\<lambda>s. (slot_index s, slot_score s)) ys = map (\<lambda>s. (slot_index s, slot_score s)) zs" .
  have m: "mset (map (\<lambda>s. (slot_index s, slot_score s)) ys) = mset (map (\<lambda>i. (i, of_int (si_score (a ! i)))) [0..<length a])"
    unfolding e mset_map z(1) by (simp add: new_slots_def image_mset.compositionality comp_def)
  have "sorted_wrt (\<lambda>a b. slot_score b \<le> slot_score a) zs"
    by (rule sorted_wrt_mono_rel [OF _ z(2)]) (auto simp: sort_slots_by_score_def CMP_def of_bool_def not_less split: if_splits)
  then have "sorted_wrt (\<lambda>a b. b \<le> a) (map slot_score ys)" unfolding C(2) by (simp add: sorted_wrt_map)
  moreover have "length ys = length zs" using arg_cong [OF C(1), of length] by simp
  moreover have "\<forall>si \<in> set a. si_score si > 0" by (rule consume_positive [OF a(1)]) simp
  ultimately show ?thesis using m C(2-4) by (simp add: pool_ok_def l a_def)
qed

lemma pool_okD:
  assumes "pool_ok lb"
  shows "length (sorted_by_score lb) = length (gpa lb)"
    and "i < length (gpa lb) \<Longrightarrow> slot_index (sorted_by_score lb ! i) < length (gpa lb)"
    and "i < length (gpa lb) \<Longrightarrow> slot_score (sorted_by_score lb ! i) = of_int (si_score (gpa lb ! slot_index (sorted_by_score lb ! i)))"
    and "i \<le> j \<Longrightarrow> j < length (gpa lb) \<Longrightarrow> slot_score (sorted_by_score lb ! j) \<le> slot_score (sorted_by_score lb ! i)"
proof -
  have m: "mset (map (\<lambda>s. (slot_index s, slot_score s)) (sorted_by_score lb)) =
      mset (map (\<lambda>i. (i, of_int (si_score (gpa lb ! i)))) [0..<length (gpa lb)])" using assms by (simp add: pool_ok_def)
  from arg_cong [OF m, of size] show l: "length (sorted_by_score lb) = length (gpa lb)" by simp
  have "(slot_index s, slot_score s) \<in> set (map (\<lambda>i. (i, of_int (si_score (gpa lb ! i)))) [0..<length (gpa lb)])"
    if "s \<in> set (sorted_by_score lb)" for s
    using that mset_eq_setD [OF m] by force
  note in_image = this
  have e: "slot_index s < length (gpa lb) \<and> slot_score s = of_int (si_score (gpa lb ! slot_index s))" if "s \<in> set (sorted_by_score lb)" for s
    using in_image [OF that] by auto
  show "i < length (gpa lb) \<Longrightarrow> slot_index (sorted_by_score lb ! i) < length (gpa lb)"
    "i < length (gpa lb) \<Longrightarrow> slot_score (sorted_by_score lb ! i) = of_int (si_score (gpa lb ! slot_index (sorted_by_score lb ! i)))"
    using e l by simp_all
  show "slot_score (sorted_by_score lb ! j) \<le> slot_score (sorted_by_score lb ! i)" if "i \<le> j" "j < length (gpa lb)"
    using assms that l by (cases "i = j") (auto simp: pool_ok_def sorted_wrt_iff_nth_less)
qed

lemma slot_indices: "pool_ok lb \<Longrightarrow> mset (map slot_index (sorted_by_score lb)) = mset [0..<length (gpa lb)]"
  unfolding pool_ok_def by (drule conjunct1, drule arg_cong [of _ _ "image_mset fst"]) (simp add: image_mset.compositionality comp_def)

lemma positive_scores:
  assumes "pool_ok lb" and "in_range lb" and "i < length (gpa lb)"
  shows "slot_score (sorted_by_score lb ! i) > 0"
    and "int (unat (slot_score (sorted_by_score lb ! i))) = si_score (gpa lb ! slot_index (sorted_by_score lb ! i))"
proof -
  let ?x = "si_score (gpa lb ! slot_index (sorted_by_score lb ! i))"
  have x: "0 < ?x" "?x < 2 ^ 31" using assms pool_okD(2) [OF assms(1,3)] by (auto simp: pool_ok_def in_range_def)
  have s: "slot_score (sorted_by_score lb ! i) = of_int ?x" using pool_okD(3) [OF assms(1,3)] .
  have u: "uint (of_int ?x :: u32) = ?x" using x by (simp add: uint_word_of_int_eq take_bit_int_eq_self)
  show "int (unat (slot_score (sorted_by_score lb ! i))) = ?x" unfolding s using u by (simp only: uint_nat [symmetric])
  have "slot_score (sorted_by_score lb ! i) \<noteq> 0" using u x(1) unfolding s by (auto dest: arg_cong [of _ _ uint])
  then show "slot_score (sorted_by_score lb ! i) > 0" by (simp add: word_gt_0)
qed

lemma unat_sum_list: "sum_list (map unat ws) < 2 ^ 32 \<Longrightarrow> unat (sum_list ws :: u32) = sum_list (map unat ws)"
proof (induction ws)
  case (Cons w ws)
  then have "unat (sum_list ws) = sum_list (map unat ws)" by simp
  moreover have "unat w + unat (sum_list ws) < 2 ^ LENGTH(32)" using Cons.prems calculation by simp
  ultimately show ?case by (simp add: unat_add_lem [THEN iffD1])
qed simp

lemma score_total:
  assumes "pool_ok lb" and "in_range lb"
  shows "int (sum_list (map unat (scores lb))) = sum_list (map si_score (gpa lb))" and "sum_list (map unat (scores lb)) < 2 ^ 32"
proof -
  have m: "mset (map (\<lambda>s. (slot_index s, slot_score s)) (sorted_by_score lb)) =
      mset (map (\<lambda>i. (i, of_int (si_score (gpa lb ! i)))) [0..<length (gpa lb)])" using assms by (simp add: pool_ok_def)
  have "mset (scores lb) = mset (map (\<lambda>i. of_int (si_score (gpa lb ! i))) [0..<length (gpa lb)])"
    using arg_cong [OF m, of "image_mset snd"] by (simp add: image_mset.compositionality comp_def)
  also have "map (\<lambda>i. of_int (si_score (gpa lb ! i))) [0..<length (gpa lb)] = map (\<lambda>si. of_int (si_score si) :: u32) (gpa lb)"
    by (rule nth_equalityI) simp_all
  finally have ms: "mset (scores lb) = mset (map (\<lambda>si. of_int (si_score si) :: u32) (gpa lb))" .
  have "sum_list (map unat (scores lb)) = sum_list (map (\<lambda>si. unat (of_int (si_score si) :: u32)) (gpa lb))"
    using arg_cong [OF ms, of "\<lambda>M. sum_mset (image_mset unat M)"] by (simp add: sum_mset_sum_list [symmetric] image_mset.compositionality comp_def)
  moreover have "int (unat (of_int (si_score si) :: u32)) = si_score si" if "si \<in> set (gpa lb)" for si
  proof -
    have x: "0 < si_score si" "si_score si < 2 ^ 31" using assms that by (auto simp: pool_ok_def in_range_def)
    have "uint (of_int (si_score si) :: u32) = si_score si" using x by (simp add: uint_word_of_int_eq take_bit_int_eq_self)
    then show ?thesis by (simp only: uint_nat [symmetric])
  qed
  then have "int (sum_list (map (\<lambda>si. unat (of_int (si_score si) :: u32)) xs)) = sum_list (map si_score xs)" if "set xs \<subseteq> set (gpa lb)" for xs
    using that by (induction xs) auto
  ultimately show t: "int (sum_list (map unat (scores lb))) = sum_list (map si_score (gpa lb))" by simp
  then show "sum_list (map unat (scores lb)) < 2 ^ 32" using assms(2) by (simp add: in_range_def)
qed

text \<open>The sums of the slots, as numbers.\<close>

definition tail_sum :: "grid_lb \<Rightarrow> nat \<Rightarrow> nat" where
  "tail_sum lb i = sum_list (map unat (drop i (scores lb)))"

lemma tail_sum_props:
  assumes "pool_ok lb" and "in_range lb"
  shows "unat (sum_at (sorted_by_score lb) i) = tail_sum lb i" and "unat (sum_scored lb) = tail_sum lb 0"
    and "i < length (gpa lb) \<Longrightarrow> tail_sum lb i = unat (slot_score (sorted_by_score lb ! i)) + tail_sum lb (Suc i)"
    and "length (gpa lb) \<le> i \<Longrightarrow> tail_sum lb i = 0" and "tail_sum lb i \<le> tail_sum lb 0" and "tail_sum lb 0 < 2 ^ 32"
proof -
  have l: "length (sorted_by_score lb) = length (gpa lb)" using pool_okD(1) [OF assms(1)] .
  show z: "tail_sum lb 0 < 2 ^ 32" using score_total(2) [OF assms] by (simp add: tail_sum_def)
  have sp: "tail_sum lb 0 = sum_list (map unat (take i (scores lb))) + tail_sum lb i" for i
    unfolding tail_sum_def by (metis append_take_drop_id drop0 map_append sum_list_append)
  show le: "tail_sum lb i \<le> tail_sum lb 0" for i using sp [of i] by linarith
  then have lt: "tail_sum lb i < 2 ^ 32" for i using z le_less_trans by blast
  show "unat (sum_scored lb) = tail_sum lb 0" using assms(1) unat_sum_list [of "scores lb"] z by (simp add: pool_ok_def tail_sum_def)
  show "unat (sum_at (sorted_by_score lb) i) = tail_sum lb i"
  proof (cases "i < length (sorted_by_score lb)")
    case True
    then show ?thesis using assms(1) unat_sum_list [of "drop i (scores lb)"] lt [of i] by (simp add: sum_at_def pool_ok_def tail_sum_def)
  next
    case False
    then show ?thesis by (simp add: sum_at_def tail_sum_def)
  qed
  show "length (gpa lb) \<le> i \<Longrightarrow> tail_sum lb i = 0" using l by (simp add: tail_sum_def)
  show "i < length (gpa lb) \<Longrightarrow> tail_sum lb i = unat (slot_score (sorted_by_score lb ! i)) + tail_sum lb (Suc i)"
    using l by (simp add: tail_sum_def drop_map Cons_nth_drop_Suc [symmetric])
qed

subsubsection \<open>The shortened size\<close>

lemma clamp_bounds:
  "lo \<le> hi \<Longrightarrow> lo \<le> FUNC_CLAMP v lo hi" "lo \<le> hi \<Longrightarrow> FUNC_CLAMP v lo hi \<le> hi"
  "lo \<le> hi \<Longrightarrow> hi \<le> v \<Longrightarrow> FUNC_CLAMP v lo hi = hi"
  by (simp_all add: FUNC_CLAMP_def macro_eqs Let_def)

lemma size_greater_bounds: "i \<le> size_greater_loop sc i xs \<and> size_greater_loop sc i xs \<le> i + length xs"
proof (induction xs arbitrary: i)
  case (Cons x xs)
  show ?case using Cons.IH [of "i + 1"] by auto
qed simp

lemma shortened_bounds:
  assumes "pool_ok lb" and "in_range lb" and "gpa lb \<noteq> []" and "length (gpa lb) < 2 ^ 32" and "size_max lb = compute_shortened_size lb"
  shows "1 \<le> unat (size_max lb)" and "unat (size_max lb) \<le> length (gpa lb)"
proof -
  let ?n = "length (gpa lb)"
  have l: "length (sorted_by_score lb) = ?n" using pool_okD(1) [OF assms(1)] .
  obtain x xs where x: "sorted_by_score lb = x # xs" using l assms(3) by (cases "sorted_by_score lb") auto
  have un: "unat (of_nat ?n :: u32) = ?n" using assms(4) by (simp add: unat_of_nat)
  have n1: "(1::u32) \<le> of_nat ?n" using un assms(3) by (metis One_nat_def Suc_leI length_greater_0_conv unat_1 word_le_nat_alt)
  have mx: "(1::u32) \<le> slot_score x"
    using positive_scores(1) [OF assms(1,2), of 0] assms(3) x by (simp add: word_le_nat_alt word_gt_0 unat_gt_0 Suc_leI)
  have "\<not> compute_min_score_by_SD lb > slot_score x"
    using clamp_bounds(2) [OF mx] by (simp add: compute_min_score_by_SD_def x Let_def not_less)
  then have "1 \<le> compute_size_shortened_by_SD lb \<and> compute_size_shortened_by_SD lb \<le> ?n"
    using size_greater_bounds [of 1 "compute_min_score_by_SD lb" xs] l x assms(3)
    by (auto simp: compute_size_shortened_by_SD_def compute_size_greater_def Suc_leI)
  then have sd: "1 \<le> unat (of_nat (compute_size_shortened_by_SD lb) :: u32)" "unat (of_nat (compute_size_shortened_by_SD lb) :: u32) \<le> ?n"
    using assms(4) by (simp_all add: unat_of_nat)
  have r: "1 \<le> unat (compute_size_shortened_by_ratio lb)"
    using clamp_bounds(1) [OF n1] by (simp add: compute_size_shortened_by_ratio_def l word_le_nat_alt)
  have "size_max lb = min (of_nat (compute_size_shortened_by_SD lb)) (compute_size_shortened_by_ratio lb)"
    using assms(5) x by (simp add: compute_shortened_size_def macro_eqs)
  then show "1 \<le> unat (size_max lb)" "unat (size_max lb) \<le> ?n" using sd r by (auto simp: min_def word_le_nat_alt)
qed

text \<open>The default ratio is above one, also after rounding, so it shortens nothing.\<close>

lemma round_even_bounds: "\<lfloor>z\<rfloor> \<le> round_even z" "round_even z \<le> \<lfloor>z\<rfloor> + 1"
  by (simp_all add: round_even_def Let_def)

lemma to_double_bounds:
  assumes "1 \<le> y" and "y < 2 ^ 52"
  shows "of_int n \<le> y \<Longrightarrow> of_int n \<le> to_double y" and "to_double y \<le> y + 1"
proof -
  have "nat \<lfloor>y\<rfloor> < 2 ^ 52" using assms by (simp add: nat_less_iff floor_less_iff)
  then have "floorlog 2 (nat \<lfloor>y\<rfloor>) \<le> 52" by (simp add: floorlog_le_iff)
  moreover define m where "m = nat (52 - double_exp y)"
  ultimately have d: "to_double y = of_int (round_even (y * 2 ^ m)) / 2 ^ m"
    using assms(1) by (auto simp: to_double_def double_exp_def Let_def)
  show "of_int n \<le> to_double y" if "of_int n \<le> y"
  proof -
    have "of_int (n * 2 ^ m) \<le> y * 2 ^ m" using that by (simp add: mult_right_mono)
    then have "n * 2 ^ m \<le> \<lfloor>y * 2 ^ m\<rfloor>" by (simp add: le_floor_iff)
    then have "n * 2 ^ m \<le> round_even (y * 2 ^ m)" using round_even_bounds(1) [of "y * 2 ^ m"] by linarith
    then have "(of_int (n * 2 ^ m) :: rat) \<le> of_int (round_even (y * 2 ^ m))" by (simp only: of_int_le_iff)
    then show ?thesis unfolding d by (simp add: pos_le_divide_eq)
  qed
  have "of_int (round_even (y * 2 ^ m)) \<le> y * 2 ^ m + 1"
    using round_even_bounds(2) [of "y * 2 ^ m"] of_int_floor_le [of "y * 2 ^ m"] by linarith
  also have "\<dots> \<le> (y + 1) * 2 ^ m" by (simp add: algebra_simps)
  finally show "to_double y \<le> y + 1" unfolding d by (simp add: pos_divide_le_eq)
qed

lemma default_ratio: "1 \<le> to_double (1001 / 1000)" "to_double (1001 / 1000) \<le> 2"
  by code_simp+

lemma unshortened:
  assumes "pool_ok lb" and "gpa lb \<noteq> []" and "length (gpa lb) < 2 ^ 30" and "size_max lb = compute_shortened_size lb"
    and "shorten_ratio lb = to_double (1001 / 1000)" and "\<not> standard_deviation lb"
  shows "unat (size_max lb) = length (gpa lb)"
proof -
  let ?n = "length (gpa lb)"
  have l: "length (sorted_by_score lb) = ?n" using pool_okD(1) [OF assms(1)] .
  define y where "y = of_nat ?n * to_double (1001 / 1000)"
  have n: "(1::rat) \<le> of_nat ?n" using assms(2) by (simp add: Suc_leI)
  have y: "of_nat ?n \<le> y" "y \<le> of_nat ?n * 2"
    using default_ratio n mult_left_mono [of 1 "to_double (1001 / 1000)" "of_nat ?n"] mult_left_mono [of "to_double (1001 / 1000)" 2 "of_nat ?n"]
    by (simp_all add: y_def)
  have n30: "(of_nat ?n :: rat) < 2 ^ 30" using assms(3) by (metis of_nat_less_iff of_nat_numeral of_nat_power)
  have y1: "1 \<le> y" "y < 2 ^ 52" using y n n30 by simp_all
  have lo: "int ?n \<le> \<lceil>to_double y\<rceil>"
    using to_double_bounds(1) [OF y1, of "int ?n"] y(1) by (simp add: le_ceiling_iff; linarith)
  have hi: "\<lceil>to_double y\<rceil> < 2 ^ 32" using to_double_bounds(2) [OF y1] y(2) n30 by (simp add: ceiling_less_iff; linarith)
  have "take_bit 32 \<lceil>to_double y\<rceil> = \<lceil>to_double y\<rceil>" using lo hi by (intro take_bit_int_eq_self) linarith+
  then have "uint (of_int \<lceil>to_double y\<rceil> :: u32) = \<lceil>to_double y\<rceil>" by (simp add: uint_word_of_int_eq)
  then have u: "unat (of_int \<lceil>to_double y\<rceil> :: u32) = nat \<lceil>to_double y\<rceil>" by (simp add: unat_eq_nat_uint)
  have un: "unat (of_nat ?n :: u32) = ?n" using assms(3) by (simp add: unat_of_nat)
  have "(1::u32) \<le> of_nat ?n" "of_nat ?n \<le> (of_int \<lceil>to_double y\<rceil> :: u32)"
    using un u lo assms(2) by (simp_all add: word_le_nat_alt Suc_leI)
  then have "compute_size_shortened_by_ratio lb = of_nat ?n"
    using clamp_bounds(3) by (simp add: compute_size_shortened_by_ratio_def l assms(5) y_def)
  then show ?thesis
    using assms(2,4,6) l un by (auto simp: compute_shortened_size_def compute_size_shortened_by_SD_def macro_eqs)
qed

subsection \<open>The weighted random pick\<close>

lemma tail_sum_strict:
  assumes "pool_ok lb" and "in_range lb" and "i < j" and "j \<le> length (gpa lb)"
  shows "tail_sum lb j < tail_sum lb i"
  using assms(3,4)
proof (induction j)
  case (Suc j)
  have "tail_sum lb (Suc j) < tail_sum lb j"
    using tail_sum_props(3) [OF assms(1,2), of j] positive_scores(1) [OF assms(1,2), of j] Suc.prems by (simp add: word_gt_0 unat_gt_0)
  then show ?case using Suc by (cases "i = j") auto
qed simp

lemma search_spec:
  assumes "pool_ok lb" and "in_range lb"
  defines "S \<equiv> tail_sum lb" and "n \<equiv> length (gpa lb)"
  shows "start < e \<Longrightarrow> e \<le> n \<Longrightarrow> unat needle \<le> S start \<Longrightarrow> S e < unat needle \<or> needle = 0 \<and> e = n \<Longrightarrow>
    r = dichotomic_search (sorted_by_score lb) needle start e \<Longrightarrow>
    r < n \<and> unat needle \<le> S r \<and> (S (Suc r) < unat needle \<or> needle = 0 \<and> Suc r = n)"
proof (induction "sorted_by_score lb" needle start e rule: dichotomic_search.induct)
  case (1 needle start e)
  define m where "m = (start + e) div 2"
  have sm: "unat (sum_at (sorted_by_score lb) i) = S i" for i using tail_sum_props(1) [OF assms(1,2)] by (simp add: S_def)
  show ?case
  proof (cases "e - start \<le> 1")
    case True
    then have e: "e = Suc start" "m = start" using "1.prems"(1) by (auto simp: m_def)
    have "S e < S start" using tail_sum_strict [OF assms(1,2), of start e] "1.prems"(2) by (simp add: S_def n_def e)
    then have "sum_at (sorted_by_score lb) start > sum_at (sorted_by_score lb) e" by (simp add: word_less_nat_alt sm)
    then have "r = start"
      using "1.prems"(5) True e by (simp add: dichotomic_search.simps [of _ needle start] Let_def m_def [symmetric] guint32_absdiff_def word_gt_0)
    then show ?thesis using "1.prems"(2-4) e by auto
  next
    case False
    then have m: "start < m" "m < e" by (auto simp: m_def)
    show ?thesis
    proof (cases "needle \<le> sum_at (sorted_by_score lb) m")
      case True
      have "unat needle \<le> S m" using True by (simp add: word_le_nat_alt sm)
      then show ?thesis
        using "1.hyps"(1) [OF m_def refl False True] "1.prems" m False True
        by (simp add: dichotomic_search.simps [of _ needle start] Let_def m_def [symmetric])
    next
      case F: False
      have "S m < unat needle" using F by (simp add: word_le_nat_alt sm not_le)
      then show ?thesis
        using "1.hyps"(2) [OF m_def refl False F] "1.prems" m False F
        by (simp add: dichotomic_search.simps [of _ needle start] Let_def m_def [symmetric])
    qed
  qed
qed

lemma needle_slot:
  assumes "pool_ok lb" and "in_range lb" and "v < tail_sum lb 0"
  defines "f \<equiv> dichotomic_search (sorted_by_score lb) (of_nat v) 0 (length (sorted_by_score lb))"
  shows "f < length (gpa lb) \<and> v \<le> tail_sum lb f \<and> (tail_sum lb (Suc f) < v \<or> v = 0 \<and> Suc f = length (gpa lb))"
proof -
  let ?n = "length (gpa lb)" and ?v = "of_nat v :: u32"
  have l: "length (sorted_by_score lb) = ?n" using pool_okD(1) [OF assms(1)] .
  have S0: "tail_sum lb 0 < 2 ^ 32" "tail_sum lb ?n = 0" using tail_sum_props(4,6) [OF assms(1,2)] by simp_all
  have n: "0 < ?n" using S0(2) assms(3) by (cases ?n) simp_all
  have u: "unat ?v = v" using assms(3) S0(1) by (simp add: unat_of_nat)
  have z: "?v = 0 \<longleftrightarrow> v = 0"
  proof
    assume "?v = 0"
    then show "v = 0" using u unat_0 by metis
  qed simp
  have "unat ?v \<le> tail_sum lb 0" using u assms(3) by linarith
  moreover have "tail_sum lb ?n < unat ?v \<or> ?v = 0 \<and> ?n = ?n" using u z S0(2) by linarith
  ultimately have "f < ?n \<and> unat ?v \<le> tail_sum lb f \<and> (tail_sum lb (Suc f) < unat ?v \<or> ?v = 0 \<and> Suc f = ?n)"
    using search_spec [OF assms(1,2) n order_refl, of ?v f] l unfolding f_def by fastforce
  then show ?thesis unfolding u z .
qed

lemma picked_needles:
  assumes "pool_ok lb" and "in_range lb" and "i < length (gpa lb)"
  defines "S \<equiv> tail_sum lb"
  shows "{v. v < S 0 \<and> dichotomic_search (sorted_by_score lb) (of_nat v) 0 (length (sorted_by_score lb)) = i} =
    {v. v < S 0 \<and> S (Suc i) < v \<and> v \<le> S i} \<union> (if Suc i = length (gpa lb) then {0} else {})"
proof -
  let ?n = "length (gpa lb)"
  let ?f = "\<lambda>v. dichotomic_search (sorted_by_score lb) (of_nat v) 0 (length (sorted_by_score lb))"
  have mono: "a < b \<Longrightarrow> b \<le> ?n \<Longrightarrow> S b < S a" for a b using tail_sum_strict [OF assms(1,2)] by (simp add: S_def)
  have pos: "0 < S 0" using mono [of 0 ?n] assms(3) by (cases "?n = 0") auto
  note f = needle_slot [OF assms(1,2), folded S_def]
  have uniq: "a = b" if "a < ?n" "b < ?n" "S (Suc a) < v" "v \<le> S a" "S (Suc b) < v" "v \<le> S b" for a b v
  proof (rule ccontr)
    assume "a \<noteq> b"
    moreover have "\<not> a < b" using mono [of "Suc a" b] that by (cases "Suc a = b") auto
    moreover have "\<not> b < a" using mono [of "Suc b" a] that by (cases "Suc b = a") auto
    ultimately show False by simp
  qed
  have "v < S 0 \<and> ?f v = i \<longleftrightarrow> v < S 0 \<and> S (Suc i) < v \<and> v \<le> S i \<or> v = 0 \<and> Suc i = ?n" for v
  proof (cases "v = 0")
    case True
    have "?f 0 < ?n" "Suc (?f 0) = ?n" using f [OF pos] by simp_all
    then show ?thesis using True pos assms(3) by (metis Suc_inject not_less0)
  next
    case False
    show ?thesis
    proof
      assume "v < S 0 \<and> ?f v = i"
      then show "v < S 0 \<and> S (Suc i) < v \<and> v \<le> S i \<or> v = 0 \<and> Suc i = ?n" using f [of v] False by blast
    next
      assume *: "v < S 0 \<and> S (Suc i) < v \<and> v \<le> S i \<or> v = 0 \<and> Suc i = ?n"
      then have "?f v = i" using f [of v] uniq [of "?f v" i v] assms(3) False by blast
      then show "v < S 0 \<and> ?f v = i" using * False by blast
    qed
  qed
  then show ?thesis using pos unfolding set_eq_iff Un_iff mem_Collect_eq by simp
qed

lemma needles_count:
  assumes "pool_ok lb" and "in_range lb" and "i < length (gpa lb)"
  shows "int (card {v. v < unat (sum_scored lb) \<and>
      dichotomic_search (sorted_by_score lb) (of_nat v) 0 (length (sorted_by_score lb)) = i}) =
    si_score (gpa lb ! slot_index (sorted_by_score lb ! i)) + of_bool (Suc i = length (gpa lb)) - of_bool (i = 0)"
proof -
  let ?S = "tail_sum lb" and ?n = "length (gpa lb)"
  have st: "?S i = unat (slot_score (sorted_by_score lb ! i)) + ?S (Suc i)" "?S ?n = 0"
    using tail_sum_props(3) [OF assms(1,2) assms(3)] tail_sum_props(4) [OF assms(1,2), of ?n] by simp_all
  have pos: "unat (slot_score (sorted_by_score lb ! i)) > 0" "?S i \<le> ?S 0"
    using positive_scores(1) [OF assms] tail_sum_props(5) [OF assms(1,2), of i] by (simp_all add: word_gt_0 unat_gt_0)
  let ?V = "{v. v < ?S 0 \<and> ?S (Suc i) < v \<and> v \<le> ?S i}"
  have "?V = (if i = 0 then {?S (Suc i)<..<?S i} else {?S (Suc i)<..?S i})"
    using tail_sum_strict [OF assms(1,2), of 0 i] assms(3) by auto
  then have "card ?V = unat (slot_score (sorted_by_score lb ! i)) - of_bool (i = 0)"
    using st(1) by (cases "i = 0") simp_all
  then have c: "int (card ?V) = int (unat (slot_score (sorted_by_score lb ! i))) - of_bool (i = 0)"
    using pos(1) by (cases "i = 0") simp_all
  have "card (?V \<union> (if Suc i = ?n then {0} else {})) = card ?V + of_bool (Suc i = ?n)"
    by (cases "Suc i = ?n") simp_all
  then show ?thesis
    using c positive_scores(2) [OF assms] unfolding tail_sum_props(2) [OF assms(1,2)] picked_needles [OF assms] by simp
qed

subsection \<open>Properties of the pool\<close>

text \<open>The provider gives the services of the list, \<open>None\<close> where it skips one, then stops.\<close>

fun provides :: "'s provider \<Rightarrow> 's \<Rightarrow> service_info option list \<Rightarrow> bool" where
  "provides provide s [] \<longleftrightarrow> \<not> fst (provide s)"
| "provides provide s (x # xs) \<longleftrightarrow> (case provide s of (found, si, s) \<Rightarrow> found \<and> si = x \<and> provides provide s xs)"

abbreviation usable :: "service_info option list \<Rightarrow> service_info list" where
  "usable xs \<equiv> filter (\<lambda>si. si_score si > 0) (List.map_filter id xs)"

lemma consume_all: "provides provide s xs \<Longrightarrow> consume_loop provide s a = Some (a @ usable xs)"
proof (induction xs arbitrary: s a)
  case Nil
  then show ?case by (auto simp: consume_loop.simps [of provide s] List.map_filter_def split: prod.split)
next
  case (Cons x xs)
  obtain s' where p: "provide s = (True, x, s')" "provides provide s' xs" using Cons.prems by (auto split: prod.splits)
  show ?case using Cons.IH [OF p(2)] p(1)
    by (simp add: consume_loop.simps [of provide s] List.map_filter_def split: option.split)
qed

lemma reload_returns:
  assumes "provides provide s xs"
  obtains lb' where "grid_lb_reload E provide s lb = Some lb'"
  using consume_all [OF assms, of "[]"] by (auto simp: grid_lb_reload_def lb_reload_def lb_consume_provider_def lb_flush_def)

text \<open>
  C7: A reload of a pool from a provider that gives a finite sequence of services returns. The
  pool then holds the services of positive score, its slots name each of them once, by
  decreasing score, the recorded total is the sum of the scores, and the shortened size
  keeps at least one service of a pool that is not empty and never more than it has.
\<close>

theorem reload_sorts_pool:
  assumes "sorts E" and "provides provide s xs"
    and "\<forall>si \<in> set (usable xs). si_score si < 2 ^ 31" and "sum_list (map si_score (usable xs)) < 2 ^ 32" and "length (usable xs) < 2 ^ 32"
  shows "\<exists>lb. grid_lb_reload E provide s lb0 = Some lb \<and> gpa lb = usable xs \<and> lb_version lb = lb_version lb0 + 1 \<and>
    mset (map slot_index (sorted_by_score lb)) = mset [0..<length (usable xs)] \<and>
    (\<forall>i j. i \<le> j \<longrightarrow> j < length (usable xs) \<longrightarrow>
       si_score (usable xs ! slot_index (sorted_by_score lb ! j)) \<le> si_score (usable xs ! slot_index (sorted_by_score lb ! i))) \<and>
    uint (sum_scored lb) = sum_list (map si_score (usable xs)) \<and>
    unat (size_max lb) \<le> length (usable xs) \<and> (usable xs \<noteq> [] \<longrightarrow> 1 \<le> unat (size_max lb))"
proof -
  obtain lb where r: "grid_lb_reload E provide s lb0 = Some lb" using reload_returns [OF assms(2)] .
  note q = reload_eq [OF r]
  have g: "gpa lb = usable xs" using q(1) consume_all [OF assms(2), of "[]"] by simp
  have ok: "pool_ok lb" using reloaded_pool_ok [OF assms(1) r] .
  have ran: "in_range lb" using assms(3,4) by (simp add: in_range_def g)
  have de: "si_score (gpa lb ! slot_index (sorted_by_score lb ! j)) \<le> si_score (gpa lb ! slot_index (sorted_by_score lb ! i))"
    if "i \<le> j" "j < length (gpa lb)" for i j
    using pool_okD(4) [OF ok that] positive_scores(2) [OF ok ran, of i] positive_scores(2) [OF ok ran, of j] that by (simp add: word_le_def)
  have t: "uint (sum_scored lb) = sum_list (map si_score (gpa lb))"
    using tail_sum_props(2) [OF ok ran] score_total(1) [OF ok ran] by (simp add: tail_sum_def uint_nat)
  have z: "unat (size_max lb) \<le> length (gpa lb) \<and> (gpa lb \<noteq> [] \<longrightarrow> 1 \<le> unat (size_max lb))"
  proof (cases "gpa lb = []")
    case True
    then show ?thesis using q(4) pool_okD(1) [OF ok] by (simp add: compute_shortened_size_def)
  next
    case False
    show ?thesis using shortened_bounds [OF ok ran False _ q(4)] assms(5) by (simp add: g)
  qed
  show ?thesis
    by (intro exI [of _ lb] conjI r g q(5) slot_indices [OF ok, unfolded g] t [unfolded g] conjunct1 [OF z [unfolded g]] conjunct2 [OF z [unfolded g]])
      (use de [unfolded g] in blast)
qed

text \<open>A pool of three services, for the witnesses.\<close>

definition env0 :: lbenv where
  "env0 = \<lparr>le_rand = (\<lambda>k. of_nat k), le_time = (\<lambda>k. 0), le_range = (\<lambda>k n. 0), le_place = (\<lambda>k n. 0), le_stack = (\<lambda>k. []),
     le_sort = (\<lambda>xs. rev (sort_key slot_score xs)), le_strtod = (\<lambda>s. 1)\<rparr>"

lemma env0_sorts: "sorts env0"
proof -
  have "sorted_wrt (\<lambda>a b. sort_slots_by_score a b \<le> 0) (rev (sort_key slot_score xs))" for xs
  proof -
    have "sorted_wrt (\<lambda>a b. slot_score a \<le> slot_score b) (sort_key slot_score xs)" using sorted_sort_key [of slot_score xs] by (simp add: sorted_wrt_map)
    then have "sorted_wrt (\<lambda>a b. slot_score b \<le> slot_score a) (rev (sort_key slot_score xs))" by (simp add: sorted_wrt_rev)
    then show ?thesis by (rule sorted_wrt_mono_rel [rotated]) (auto simp: sort_slots_by_score_def CMP_def of_bool_def)
  qed
  then show ?thesis by (simp add: sorts_def env0_def)
qed

definition svc :: "u16 \<Rightarrow> int \<Rightarrow> service_info" where
  "svc port score = \<lparr>si_ns_name = ''NS'', si_type = ''rawx'', si_addr = \<lparr>ai_type = TADDR_V4, ai_addr = [CHR 0x7F, CHR 0x00, CHR 0x00, CHR 0x01],
     ai_port = port, ai_protocol = 0\<rparr>, si_score = score, si_score_ts = 0, si_tags = None\<rparr>"

definition three :: "service_info list" where
  "three = [svc 1 2, svc 2 3, svc 3 1]"

fun list_provide :: "service_info list provider" where
  "list_provide [] = (False, None, [])"
| "list_provide (si # a) = (True, Some si, a)"

lemma list_provided: "provides list_provide a (map Some a)"
  by (induction a) simp_all

lemma usable_three: "usable (map Some three) = three"
  by (simp add: three_def svc_def List.map_filter_def)

theorem reload_sorts_pool_witness:
  "\<exists>lb. grid_lb_reload env0 list_provide three (grid_lb_init ''NS'' ''rawx'') = Some lb \<and> gpa lb = three \<and> uint (sum_scored lb) = 6"
proof -
  have r: "\<forall>si \<in> set three. si_score si < 2 ^ 31" "sum_list (map si_score three) < 2 ^ 32" "length three < 2 ^ 32"
    and t: "sum_list (map si_score three) = 6" by (simp_all add: three_def svc_def)
  show ?thesis
    using reload_sorts_pool [OF env0_sorts list_provided, of three "grid_lb_init ''NS'' ''rawx''", unfolded usable_three, OF r] unfolding t by blast
qed

end
