(* ===== verification/Load_Balancer_Iterators.thy ===== *)
theory Load_Balancer_Iterators
  imports Load_Balancer_Pool
begin

section \<open>The iterators of the load-balancer\<close>

text \<open>
  How often each service is served: the weighted random pick, the round-robin, and the
  weighted round-robin over a full cycle. The last one is first shown to follow a machine on
  two numbers, the current threshold and the next slot.
\<close>

subsection \<open>Serving from the slots\<close>

abbreviation slot_service :: "grid_lb \<Rightarrow> nat \<Rightarrow> service_info" where
  "slot_service lb i \<equiv> service_info_dup (gpa lb ! slot_index (sorted_by_score lb ! i))"

fun serve :: "lbenv \<Rightarrow> nat \<Rightarrow> nat \<Rightarrow> lb_world \<Rightarrow> (service_info option list \<times> lb_world) option" where
  "serve E i 0 w = Some ([], w)"
| "serve E i (Suc n) w =
     Option.bind (grid_lb_iterator_next E i w) (\<lambda>(r, w). map_option (\<lambda>(rs, w). (r # rs, w)) (serve E i n w))"

lemma next_unshared: "it_type (the_it w i) \<noteq> LBIT_SHARED \<Longrightarrow> grid_lb_iterator_next E i w = Some (next_own E i True w)"
  by (simp add: grid_lb_iterator_next_def iterator_next_shorten.simps)

lemma by_score:
  assumes "pool_ok lb" and "0 < unat (size_max lb)" and "unat (size_max lb) \<le> length (gpa lb)"
  shows "get_by_score lb idx = Some (slot_service lb (unat idx mod unat (size_max lb)))"
proof -
  let ?i = "unat idx mod unat (size_max lb)"
  have "?i < unat (size_max lb)" using assms(2) by simp
  then have "?i < length (gpa lb)" using assms(3) by linarith
  then have "slot_index (sorted_by_score lb ! ?i) < length (gpa lb)" using pool_okD(2) [OF assms(1)] by blast
  moreover have "size_max lb \<noteq> 0" using assms(2) by auto
  ultimately show ?thesis by (auto simp: get_by_score_def get_raw_def Let_def unat_mod)
qed

lemma slot_of:
  assumes "pool_ok lb" and "j < length (gpa lb)"
  obtains i where "i < length (gpa lb)" and "slot_index (sorted_by_score lb ! i) = j"
proof -
  from slot_indices [OF assms(1)] have "set (map slot_index (sorted_by_score lb)) = set [0..<length (gpa lb)]" by (rule mset_eq_setD)
  then have "j \<in> slot_index ` set (sorted_by_score lb)" using assms(2) by simp
  then show thesis using that pool_okD(1) [OF assms(1)] by (auto simp: in_set_conv_nth)
qed

lemma slots_inj:
  assumes "pool_ok lb" and "distinct (map service_info_dup (gpa lb))"
  shows "inj_on (\<lambda>i. Some (slot_service lb i)) {..<length (gpa lb)}"
proof (rule inj_onI)
  fix a b assume ab: "a \<in> {..<length (gpa lb)}" "b \<in> {..<length (gpa lb)}" "Some (slot_service lb a) = Some (slot_service lb b)"
  have d: "distinct (map slot_index (sorted_by_score lb))" using slot_indices [OF assms(1)] by (metis distinct_upt mset_eq_imp_distinct_iff)
  let ?x = "slot_index (sorted_by_score lb ! a)" and ?y = "slot_index (sorted_by_score lb ! b)"
  have xy: "?x < length (gpa lb)" "?y < length (gpa lb)" using ab pool_okD(2) [OF assms(1)] by auto
  have "map service_info_dup (gpa lb) ! ?x = map service_info_dup (gpa lb) ! ?y" using ab(3) xy by simp
  then have "?x = ?y" using assms(2) xy by (simp only: nth_eq_iff_index_eq length_map)
  then have "map slot_index (sorted_by_score lb) ! a = map slot_index (sorted_by_score lb) ! b" using ab pool_okD(1) [OF assms(1)] by simp
  then show "a = b" using d ab pool_okD(1) [OF assms(1)] by (simp only: nth_eq_iff_index_eq length_map lessThan_iff)
qed

subsection \<open>Round-robin\<close>

lemma rr_serve:
  assumes "pool_ok lb" and "0 < unat (size_max lb)" and "unat (size_max lb) \<le> length (gpa lb)"
  shows "i < length (w_its w) \<Longrightarrow> it_type (the_it w i) = LBIT_RR \<Longrightarrow> the_lb w (it_lb (the_it w i)) = lb \<Longrightarrow>
    unat (next_idx (the_it w i)) + n \<le> 2 ^ 32 \<Longrightarrow>
    \<exists>w'. serve E i n w =
      Some (map (\<lambda>k. Some (slot_service lb ((unat (next_idx (the_it w i)) + k) mod unat (size_max lb)))) [0..<n], w')"
proof (induction n arbitrary: w)
  case (Suc n)
  let ?a = "unat (next_idx (the_it w i))"
  define w1 where "w1 = upd_it i (\<lambda>_. (the_it w i)\<lparr>next_idx := next_idx (the_it w i) + 1\<rparr>) w"
  have st: "grid_lb_iterator_next E i w = Some (Some (slot_service lb (?a mod unat (size_max lb))), w1)"
    using Suc.prems(2,3) by (simp add: next_unshared next_own_def next_RR_def by_score [OF assms] w1_def Let_def)
  have w1: "i < length (w_its w1)" "it_type (the_it w1 i) = LBIT_RR" "the_lb w1 (it_lb (the_it w1 i)) = lb"
    "next_idx (the_it w1 i) = next_idx (the_it w i) + 1"
    using Suc.prems(1-3) by (simp_all add: w1_def upd_it_def)
  have u: "unat (next_idx (the_it w1 i)) = ?a + 1" if "n \<noteq> 0"
    using that Suc.prems(4) unfolding w1(4) by (subst unat_add_lem [THEN iffD1]) simp_all
  have "\<exists>w'. serve E i n w1 = Some (map (\<lambda>k. Some (slot_service lb ((?a + 1 + k) mod unat (size_max lb)))) [0..<n], w')"
  proof (cases "n = 0")
    case False
    show ?thesis using Suc.IH [OF w1(1-3)] u [OF False] Suc.prems(4) by simp
  qed simp
  then show ?case by (auto simp: st upt_conv_Cons map_Suc_upt [symmetric] simp del: upt_Suc)
qed simp

lemma mset_rotation: "mset (map (\<lambda>k. (a + k) mod n) [0..<n]) = mset [0..<n]"
proof -
  have "map (\<lambda>k. (a + k) mod n) [0..<n] = rotate a [0..<n]" by (rule nth_equalityI) (simp_all add: nth_rotate)
  then show ?thesis by (simp only: rotate_drop_take mset_append) (metis append_take_drop_id mset_append union_commute)
qed

text \<open>
  C8: The round-robin iterator serves each of the services that the shortening keeps exactly once
  in as many consecutive calls, wherever it starts, as long as its counter does not wrap.
\<close>

theorem rr_serves_each_once:
  assumes "sorts E" and "grid_lb_reload E provide s lb0 = Some lb" and "in_range lb" and "gpa lb \<noteq> []" and "length (gpa lb) < 2 ^ 32"
    and "i < length (w_its w)" and "it_type (the_it w i) = LBIT_RR" and "the_lb w (it_lb (the_it w i)) = lb"
    and "unat (next_idx (the_it w i)) + unat (size_max lb) \<le> 2 ^ 32"
  shows "\<exists>rs w'. serve E i (unat (size_max lb)) w = Some (rs, w') \<and>
    mset rs = mset (map (\<lambda>j. Some (slot_service lb j)) [0..<unat (size_max lb)])"
proof -
  let ?n = "unat (size_max lb)" and ?a = "unat (next_idx (the_it w i))"
  have ok: "pool_ok lb" using reloaded_pool_ok [OF assms(1,2)] .
  note b = shortened_bounds [OF ok assms(3-5) reload_eq(4) [OF assms(2)]]
  have "0 < ?n" using b(1) by simp
  then obtain w' where w': "serve E i ?n w = Some (map (\<lambda>k. Some (slot_service lb ((?a + k) mod ?n))) [0..<?n], w')"
    using rr_serve [OF ok _ b(2) assms(6-9)] by blast
  have "mset (map (\<lambda>k. Some (slot_service lb ((?a + k) mod ?n))) [0..<?n]) =
      image_mset (\<lambda>j. Some (slot_service lb j)) (mset (map (\<lambda>k. (?a + k) mod ?n) [0..<?n]))"
    by (simp add: image_mset.compositionality comp_def)
  then show ?thesis using w' by (simp only: mset_rotation) simp
qed

definition lb3 :: grid_lb where
  "lb3 = the (grid_lb_reload env0 list_provide three (grid_lb_init ''NS'' ''rawx''))"

definition world3 :: "glbi_type \<Rightarrow> lb_world" where
  "world3 ty = snd (new_iterator 0 ty \<lparr>w_lbs = [lb3], w_its = [], w_tick = 0\<rparr>)"

lemma lb3: "grid_lb_reload env0 list_provide three (grid_lb_init ''NS'' ''rawx'') = Some lb3"
  "gpa lb3 = three" "in_range lb3" "gpa lb3 \<noteq> []" "length (gpa lb3) = 3"
proof -
  obtain lb where "grid_lb_reload env0 list_provide three (grid_lb_init ''NS'' ''rawx'') = Some lb"
    using reload_returns [OF list_provided] .
  then show r: "grid_lb_reload env0 list_provide three (grid_lb_init ''NS'' ''rawx'') = Some lb3" by (simp add: lb3_def)
  show g: "gpa lb3 = three" using reload_eq(1) [OF r] consume_all [OF list_provided, of three "[]"] unfolding usable_three by simp
  show "in_range lb3" "gpa lb3 \<noteq> []" "length (gpa lb3) = 3" by (simp_all add: in_range_def g three_def svc_def)
qed

lemma world3: "0 < length (w_its (world3 ty))" "it_type (the_it (world3 ty) 0) = ty" "the_lb (world3 ty) (it_lb (the_it (world3 ty) 0)) = lb3"
  "next_idx (the_it (world3 ty) 0) = 0" "it_current (the_it (world3 ty) 0) = 0"
  by (simp_all add: world3_def new_iterator_def)

theorem rr_serves_each_once_witness:
  "\<exists>rs w'. serve env0 0 (unat (size_max lb3)) (world3 LBIT_RR) = Some (rs, w') \<and>
    mset rs = mset (map (\<lambda>j. Some (slot_service lb3 j)) [0..<unat (size_max lb3)])"
proof -
  have h: "length (gpa lb3) < 2 ^ 32" "unat (next_idx (the_it (world3 LBIT_RR) 0)) + unat (size_max lb3) \<le> 2 ^ 32"
    using unsigned_less [of "size_max lb3", where 'a = nat] by (simp_all add: lb3(5) world3)
  show ?thesis by (rule rr_serves_each_once [OF env0_sorts lb3(1,3,4) h(1) world3(1-3) h(2)])
qed

subsection \<open>The weighted random pick\<close>

text \<open>
  C6: With the default settings, the weighted random iterator serves a service in proportion to its
  score: out of as many equally likely values as the scores sum up to, exactly its score
  picks it, but for one value that the first slot leaves to the last one.
\<close>

theorem weighted_random_share:
  assumes "sorts E" and "grid_lb_reload E provide s lb0 = Some lb" and "in_range lb" and "length (gpa lb) < 2 ^ 30"
    and "shorten_ratio lb0 = to_double (1001 / 1000)" and "\<not> standard_deviation lb0" and "distinct (map service_info_dup (gpa lb))"
    and "it_type (the_it w i) = LBIT_WRAND" and "the_lb w (it_lb (the_it w i)) = lb" and "j < length (gpa lb)"
  shows "int (card {v. v < unat (sum_scored lb) \<and>
      map_option fst (grid_lb_iterator_next (E\<lparr>le_rand := (\<lambda>_. of_nat v)\<rparr>) i w) = Some (Some (service_info_dup (gpa lb ! j)))}) =
    si_score (gpa lb ! j) + of_bool (slot_index (sorted_by_score lb ! (length (gpa lb) - 1)) = j) - of_bool (slot_index (sorted_by_score lb ! 0) = j)"
proof -
  let ?n = "length (gpa lb)" and ?S = "sorted_by_score lb" and ?s = "unat (sum_scored lb)"
  have ok: "pool_ok lb" using reloaded_pool_ok [OF assms(1,2)] .
  have ne: "gpa lb \<noteq> []" using assms(10) by auto
  note q = reload_eq [OF assms(2)]
  have sz: "unat (size_max lb) = ?n" using unshortened [OF ok ne assms(4) q(4)] q(6,7) assms(5,6) by simp
  obtain x where x: "x < ?n" "slot_index (?S ! x) = j" using slot_of [OF ok assms(10)] .
  have inj: "inj_on (\<lambda>i. Some (slot_service lb i)) {..<?n}" using slots_inj [OF ok assms(7)] .
  have ts: "?s = tail_sum lb 0" using tail_sum_props(2) [OF ok assms(3)] .
  have pick: "map_option fst (grid_lb_iterator_next (E\<lparr>le_rand := (\<lambda>_. of_nat v)\<rparr>) i w) = Some (Some (service_info_dup (gpa lb ! j))) \<longleftrightarrow>
      dichotomic_search ?S (of_nat v) 0 (length ?S) = x" if "v < ?s" for v
  proof -
    let ?f = "dichotomic_search ?S (of_nat v) 0 (length ?S)"
    have f: "?f < ?n" using needle_slot [OF ok assms(3), of v] that ts by simp
    have v: "(of_nat v :: u32) mod sum_scored lb = of_nat v"
      using that unsigned_less [of "sum_scored lb", where 'a = nat] by (simp add: word_arith_nat_mod unat_of_nat)
    have uf: "unat (of_nat ?f :: u32) = ?f" using f assms(4) by (simp add: unat_of_nat)
    have "sum_scored lb \<noteq> 0" using that by auto
    then have "grid_lb_iterator_next (E\<lparr>le_rand := (\<lambda>_. of_nat v)\<rparr>) i w = Some (Some (slot_service lb ?f), w\<lparr>w_tick := w_tick w + 1\<rparr>)"
      using by_score [OF ok, of "of_nat ?f"] sz uf f ne assms(8,9) by (simp add: next_unshared next_own_def next_SRAND_def v Let_def)
    then show ?thesis using inj_on_eq_iff [OF inj, of ?f x] f x by simp
  qed
  have "{v. v < ?s \<and> map_option fst (grid_lb_iterator_next (E\<lparr>le_rand := (\<lambda>_. of_nat v)\<rparr>) i w) = Some (Some (service_info_dup (gpa lb ! j)))} =
      {v. v < ?s \<and> dichotomic_search ?S (of_nat v) 0 (length ?S) = x}" using pick by blast
  moreover have y: "slot_index (?S ! y) = j \<longleftrightarrow> y = x" if "y < ?n" for y
    using inj_on_eq_iff [OF inj, of y x] that x by auto
  have n: "0 < ?n" "?n - 1 < ?n" "Suc x = ?n \<longleftrightarrow> ?n - 1 = x" using x(1) by auto
  have "slot_index (?S ! (?n - 1)) = j \<longleftrightarrow> Suc x = ?n" "slot_index (?S ! 0) = j \<longleftrightarrow> x = 0"
    unfolding y [OF n(2)] y [OF n(1)] n(3) by (rule refl, rule eq_commute)
  ultimately show ?thesis using needles_count [OF ok assms(3) x(1)] x(2) by simp
qed

lemma three_distinct: "distinct (map service_info_dup (gpa lb3))"
  unfolding lb3(2) by (simp add: three_def svc_def service_info_dup_def service_info_copy_tags_def)

theorem weighted_random_share_witness:
  "\<exists>a b. int (card {v. v < unat (sum_scored lb3) \<and>
      map_option fst (grid_lb_iterator_next (env0\<lparr>le_rand := (\<lambda>_. of_nat v)\<rparr>) 0 (world3 LBIT_WRAND)) = Some (Some (service_info_dup (svc 2 3)))}) =
    3 + of_bool a - of_bool b"
proof -
  have h: "length (gpa lb3) < 2 ^ 30" "1 < length (gpa lb3)" "shorten_ratio (grid_lb_init ''NS'' ''rawx'') = to_double (1001 / 1000)"
    "\<not> standard_deviation (grid_lb_init ''NS'' ''rawx'')" by (simp_all add: lb3(5) grid_lb_init_def)
  have g: "gpa lb3 ! 1 = svc 2 3" "si_score (svc 2 3) = 3" by (simp_all add: lb3(2) three_def svc_def)
  show ?thesis
    using weighted_random_share [OF env0_sorts lb3(1,3) h(1) h(3,4) three_distinct world3(2,3) h(2)] unfolding g by blast
qed

subsection \<open>Weighted round-robin\<close>

text \<open>
  The machine on the scores: the threshold goes down from the best score to one, and at each
  threshold the slots of at least that score are served in order.
\<close>

definition srr_step :: "nat list \<Rightarrow> nat \<times> nat \<Rightarrow> nat \<times> nat \<times> nat" where
  "srr_step ss st =
     (let (c, j) = st;
          (c, j) = (if c = 0 then (ss ! 0, 0)
                    else if length ss \<le> j \<or> ss ! j < c then if c = 1 then (ss ! 0, 0) else (c - 1, 0)
                    else (c, j))
      in (j, c, j + 1))"

fun srr_run :: "nat list \<Rightarrow> nat \<Rightarrow> nat \<times> nat \<Rightarrow> nat list \<times> nat \<times> nat" where
  "srr_run ss 0 st = ([], st)"
| "srr_run ss (Suc n) st = (case srr_step ss st of (j, st) \<Rightarrow> case srr_run ss n st of (js, st) \<Rightarrow> (j # js, st))"

definition level_size :: "nat list \<Rightarrow> nat \<Rightarrow> nat" where
  "level_size ss c = length (takeWhile (\<lambda>s. c \<le> s) ss)"

fun levels :: "nat list \<Rightarrow> nat \<Rightarrow> nat list" where
  "levels ss 0 = []"
| "levels ss (Suc c) = [0..<level_size ss (Suc c)] @ levels ss c"

lemma srr_run_append:
  "srr_run ss a st = (xs, st1) \<Longrightarrow> srr_run ss b st1 = (ys, st2) \<Longrightarrow> srr_run ss (a + b) st = (xs @ ys, st2)"
  by (induction a arbitrary: st xs) (auto split: prod.splits)

lemma level_size_le: "level_size ss c \<le> length ss"
  by (simp add: level_size_def length_takeWhile_le)

lemma level_size_iff: "sorted_wrt (\<lambda>a b. b \<le> a) ss \<Longrightarrow> j < length ss \<Longrightarrow> j < level_size ss c \<longleftrightarrow> c \<le> ss ! j"
proof (induction ss arbitrary: j)
  case (Cons s ss)
  show ?case
  proof (cases j)
    case 0
    then show ?thesis by (simp add: level_size_def)
  next
    case (Suc k)
    then have "ss ! k \<le> s" "k < length ss" using Cons.prems by auto
    moreover have "k < level_size ss c \<longleftrightarrow> c \<le> ss ! k" using Cons.IH [of k] Cons.prems(1) \<open>k < length ss\<close> by simp
    ultimately show ?thesis using Suc order_trans [of c "ss ! k" s] by (auto simp: level_size_def)
  qed
qed simp

lemma level_run: "j + n = level_size ss c \<Longrightarrow> 0 < c \<Longrightarrow> srr_run ss n (c, j) = ([j..<level_size ss c], (c, level_size ss c))"
proof (induction n arbitrary: j)
  case (Suc n)
  then have "j < length (takeWhile (\<lambda>s. c \<le> s) ss)" by (simp add: level_size_def)
  moreover from this have "c \<le> takeWhile (\<lambda>s. c \<le> s) ss ! j" using nth_mem set_takeWhileD by metis
  ultimately have "c \<le> takeWhile (\<lambda>s. c \<le> s) ss ! j" "takeWhile (\<lambda>s. c \<le> s) ss ! j = ss ! j" "j < length ss"
    using length_takeWhile_le [of "\<lambda>s. c \<le> s" ss] by (auto simp: takeWhile_nth)
  then have "srr_step ss (c, j) = (j, c, j + 1)" using Suc.prems(2) by (simp add: srr_step_def)
  moreover have "srr_run ss n (c, Suc j) = ([Suc j..<level_size ss c], (c, level_size ss c))" using Suc by simp
  ultimately show ?case using Suc.prems by (simp add: upt_conv_Cons)
qed simp

lemma enter_level:
  assumes "srr_step ss st = (0, c, 1)" and "0 < c" and "c \<le> ss ! 0" and "ss \<noteq> []"
  shows "srr_run ss (level_size ss c) st = ([0..<level_size ss c], (c, level_size ss c))"
proof -
  obtain n where n: "level_size ss c = Suc n" using assms(3,4) by (cases ss) (auto simp: level_size_def)
  have "srr_run ss n (c, 1) = ([1..<level_size ss c], (c, level_size ss c))" by (rule level_run) (simp_all add: n assms(2))
  then show ?thesis using assms(1) by (simp add: n upt_conv_Cons del: upt_Suc)
qed

lemma leave_level: "1 < c \<Longrightarrow> srr_step ss (c, level_size ss c) = (0, c - 1, 1)"
  using nth_length_takeWhile [of "\<lambda>s. c \<le> s" ss] by (auto simp: srr_step_def level_size_def not_le)

lemma srr_cycle:
  assumes "0 < c" and "c \<le> ss ! 0" and "ss \<noteq> []" and "srr_step ss st = (0, c, 1)"
  shows "srr_run ss (length (levels ss c)) st = (levels ss c, (1, level_size ss 1))"
  using assms
proof (induction c arbitrary: st)
  case (Suc c)
  have e: "srr_run ss (level_size ss (Suc c)) st = ([0..<level_size ss (Suc c)], (Suc c, level_size ss (Suc c)))"
    using enter_level [OF Suc.prems(4)] Suc.prems(1-3) by simp
  show ?case
  proof (cases "c = 0")
    case True
    then show ?thesis using e by simp
  next
    case False
    have "srr_step ss (Suc c, level_size ss (Suc c)) = (0, c, 1)" using leave_level [of "Suc c" ss] False by simp
    then have "srr_run ss (length (levels ss c)) (Suc c, level_size ss (Suc c)) = (levels ss c, (1, level_size ss 1))"
      using Suc.IH False Suc.prems(2,3) by simp
    then show ?thesis using srr_run_append [OF e] by simp
  qed
qed simp

lemma levels_count:
  assumes "sorted_wrt (\<lambda>a b. b \<le> a) ss" and "j < length ss"
  shows "count_list (levels ss c) j = min c (ss ! j)"
proof (induction c)
  case (Suc c)
  have "count_list [0..<n] j = of_bool (j < n)" for n by (induction n) auto
  then show ?case using Suc level_size_iff [OF assms, of "Suc c"] by auto
qed simp

lemma levels_length:
  assumes "sorted_wrt (\<lambda>a b. b \<le> a) ss"
  shows "length (levels ss c) = sum_list (map (min c) ss)"
proof (induction c)
  case (Suc c)
  have "level_size ss (Suc c) = length (filter (\<lambda>s. Suc c \<le> s) ss)" using assms
  proof (induction ss)
    case (Cons s ss)
    have "filter (\<lambda>x. Suc c \<le> x) ss = []" if "\<not> Suc c \<le> s" using that Cons.prems by (fastforce simp: filter_empty_conv)
    then show ?case using Cons by (auto simp: level_size_def)
  qed (simp add: level_size_def)
  moreover have "sum_list (map (min (Suc c)) ss) = sum_list (map (min c) ss) + length (filter (\<lambda>s. Suc c \<le> s) ss)" for ss
    by (induction ss) (auto simp: min_def)
  ultimately show ?case using Suc by simp
qed (simp add: comp_def)

text \<open>The iterator follows the machine.\<close>

abbreviation nat_scores :: "grid_lb \<Rightarrow> nat list" where
  "nat_scores lb \<equiv> map unat (scores lb)"

abbreviation srr_state :: "lb_iterator \<Rightarrow> nat \<times> nat" where
  "srr_state it \<equiv> (unat (it_current it), unat (next_idx it))"

definition srr_pool :: "grid_lb \<Rightarrow> bool" where
  "srr_pool lb \<longleftrightarrow> pool_ok lb \<and> in_range lb \<and> gpa lb \<noteq> [] \<and> length (gpa lb) < 2 ^ 30 \<and> unat (size_max lb) = length (gpa lb) \<and> reset_delay lb \<le> 0"

lemma srr_pool_scores:
  assumes "srr_pool lb"
  shows "length (nat_scores lb) = length (gpa lb)" and "nat_scores lb \<noteq> []" and "sorted_wrt (\<lambda>a b. b \<le> a) (nat_scores lb)"
    and "j < length (gpa lb) \<Longrightarrow> int (nat_scores lb ! j) = si_score (gpa lb ! slot_index (sorted_by_score lb ! j))"
    and "int (sum_list (nat_scores lb)) = sum_list (map si_score (gpa lb))"
    and "j < length (gpa lb) \<Longrightarrow> 0 < nat_scores lb ! j \<and> nat_scores lb ! j \<le> nat_scores lb ! 0"
proof -
  have ok: "pool_ok lb" and ran: "in_range lb" and ne: "gpa lb \<noteq> []" using assms by (simp_all add: srr_pool_def)
  show l: "length (nat_scores lb) = length (gpa lb)" using pool_okD(1) [OF ok] by simp
  then show "nat_scores lb \<noteq> []" using ne by (metis length_0_conv)
  have "sorted_wrt (\<lambda>a b. b \<le> a) (scores lb)" using ok by (simp add: pool_ok_def)
  then show "sorted_wrt (\<lambda>a b. b \<le> a) (nat_scores lb)" by (simp add: sorted_wrt_map word_le_nat_alt)
  show "int (nat_scores lb ! j) = si_score (gpa lb ! slot_index (sorted_by_score lb ! j))" if "j < length (gpa lb)"
    using positive_scores(2) [OF ok ran that] that l by simp
  show "int (sum_list (nat_scores lb)) = sum_list (map si_score (gpa lb))" using score_total(1) [OF ok ran] .
  show "0 < nat_scores lb ! j \<and> nat_scores lb ! j \<le> nat_scores lb ! 0" if "j < length (gpa lb)"
    using positive_scores(1) [OF ok ran that] pool_okD(4) [OF ok _ that, of 0] that l
    by (simp add: word_le_nat_alt word_gt_0 unat_gt_0 ne)
qed

text \<open>Where the iterator stands when it serves: the threshold is used up at the end of the slots or at a slot below it.\<close>

definition used_up :: "grid_lb \<Rightarrow> lb_iterator \<Rightarrow> bool" where
  "used_up lb it \<longleftrightarrow> length (gpa lb) \<le> unat (next_idx it) \<or> slot_score (sorted_by_score lb ! unat (next_idx it)) < it_current it"

definition srr_moved :: "int \<Rightarrow> grid_lb \<Rightarrow> lb_iterator \<Rightarrow> lb_iterator" where
  "srr_moved now lb it =
     (if it_current it = 0 \<or> used_up lb it \<and> it_current it = 1 then srr_reset now lb it
      else if used_up lb it then it\<lparr>next_idx := 0, it_current := it_current it - 1\<rparr> else it)"

lemma next_SRR_moved:
  assumes "srr_pool lb"
  shows "\<exists>k' now. next_SRR E k lb it = (get_by_score lb (next_idx (srr_moved now lb it)),
    (srr_moved now lb it)\<lparr>next_idx := next_idx (srr_moved now lb it) + 1\<rparr>, k')"
proof -
  have ne: "length (gpa lb) > 0" and rd: "reset_delay lb \<le> 0" and l: "length (sorted_by_score lb) = length (gpa lb)"
    using assms pool_okD(1) by (auto simp: srr_pool_def)
  show ?thesis
  proof (cases "it_current it = 0")
    case True
    then show ?thesis using ne by (intro exI [of _ "k + 1"] exI [of _ "le_time E k"]) (simp add: next_SRR_def srr_moved_def Let_def)
  next
    case False
    have "next_SRR E k lb it = (case if used_up lb it then srr_decrement E k lb it else (it, k) of
        (it, k) \<Rightarrow> (get_by_score lb (next_idx it), it\<lparr>next_idx := next_idx it + 1\<rparr>, k))"
      using False ne rd by (simp add: next_SRR_def used_up_def l Let_def)
    moreover have "\<exists>k'. (if used_up lb it then srr_decrement E k lb it else (it, k)) = (srr_moved (le_time E k) lb it, k')"
      using False by (simp add: srr_decrement_def srr_reset_def srr_moved_def Let_def)
    moreover from this obtain k' where "(if used_up lb it then srr_decrement E k lb it else (it, k)) = (srr_moved (le_time E k) lb it, k')" ..
    ultimately show ?thesis by (intro exI [of _ k'] exI [of _ "le_time E k"]) (simp only: prod.case)
  qed
qed

lemma srr_moved_step:
  assumes "srr_pool lb"
  shows "srr_step (nat_scores lb) (srr_state it) =
    (unat (next_idx (srr_moved now lb it)), unat (it_current (srr_moved now lb it)), unat (next_idx (srr_moved now lb it)) + 1)"
proof -
  let ?S = "sorted_by_score lb"
  define c x where "c = it_current it" and "x = unat (next_idx it)"
  have ne: "length (gpa lb) > 0" and l: "length ?S = length (gpa lb)" using assms pool_okD(1) by (auto simp: srr_pool_def)
  have z: "unat c = 0 \<longleftrightarrow> c = 0" "unat c = 1 \<longleftrightarrow> c = 1" using word_unat_eq_iff [of c 0] word_unat_eq_iff [of c 1] by simp_all
  have n0: "nat_scores lb ! 0 = unat (slot_score (?S ! 0))" using ne l by simp
  have u: "used_up lb it \<longleftrightarrow> length (nat_scores lb) \<le> x \<or> nat_scores lb ! x < unat c"
  proof (cases "x < length (gpa lb)")
    case True
    then have "nat_scores lb ! x = unat (slot_score (?S ! x))" using l by simp
    then show ?thesis using True l by (simp add: used_up_def word_less_nat_alt c_def x_def)
  next
    case False
    then show ?thesis using l by (simp add: used_up_def x_def)
  qed
  have s: "srr_step (nat_scores lb) (unat c, x) =
      (let (c, j) = (if c = 0 then (unat (slot_score (?S ! 0)), 0) else if used_up lb it then if c = 1 then (unat (slot_score (?S ! 0)), 0)
         else (unat c - 1, 0) else (unat c, x)) in (j, c, j + 1))"
    unfolding srr_step_def Let_def prod.case u [symmetric] z n0 ..
  have "unat (c - 1) = unat c - 1" if "c \<noteq> 0" using that by (rule unat_minus_one)
  then show ?thesis
    unfolding c_def [symmetric] x_def [symmetric] s by (simp add: srr_moved_def srr_reset_def c_def [symmetric] x_def [symmetric])
qed

lemma next_SRR_step:
  assumes "srr_pool lb" and "unat (next_idx it) \<le> length (gpa lb)" and "srr_step (nat_scores lb) (srr_state it) = (j, st)"
  shows "\<exists>it' k'. next_SRR E k lb it = (Some (slot_service lb j), it', k') \<and> srr_state it' = st \<and>
    it_type it' = it_type it \<and> it_lb it' = it_lb it" and "j < length (gpa lb)" and "snd st = Suc j"
proof -
  let ?n = "length (gpa lb)"
  have ok: "pool_ok lb" and ne: "?n > 0" and n30: "?n < 2 ^ 30" and sz: "unat (size_max lb) = ?n"
    using assms(1) by (simp_all add: srr_pool_def)
  obtain k' now where r: "next_SRR E k lb it = (get_by_score lb (next_idx (srr_moved now lb it)),
      (srr_moved now lb it)\<lparr>next_idx := next_idx (srr_moved now lb it) + 1\<rparr>, k')" using next_SRR_moved [OF assms(1)] by blast
  define it1 where "it1 = srr_moved now lb it"
  have lt: "unat (next_idx it1) < ?n" using assms(2) ne by (auto simp: it1_def srr_moved_def srr_reset_def used_up_def)
  have st: "(j, st) = (unat (next_idx it1), unat (it_current it1), unat (next_idx it1) + 1)"
    using trans [OF assms(3) [symmetric] srr_moved_step [OF assms(1)]] by (simp only: it1_def)
  have "unat (next_idx it1 + 1) = unat (next_idx it1) + 1" using lt n30 by (subst unat_add_lem [THEN iffD1]) simp_all
  moreover have "it_type it1 = it_type it" "it_lb it1 = it_lb it" by (simp_all add: it1_def srr_moved_def srr_reset_def)
  ultimately show "\<exists>it' k'. next_SRR E k lb it = (Some (slot_service lb j), it', k') \<and> srr_state it' = st \<and>
    it_type it' = it_type it \<and> it_lb it' = it_lb it"
    using r [folded it1_def] by_score [OF ok, of "next_idx it1"] sz ne lt st by simp
  show "j < ?n" "snd st = Suc j" using st lt by simp_all
qed

lemma srr_serve:
  assumes "srr_pool lb"
  shows "i < length (w_its w) \<Longrightarrow> it_type (the_it w i) = LBIT_WRR \<Longrightarrow> the_lb w (it_lb (the_it w i)) = lb \<Longrightarrow>
    unat (next_idx (the_it w i)) \<le> length (gpa lb) \<Longrightarrow> srr_run (nat_scores lb) n (srr_state (the_it w i)) = (js, st) \<Longrightarrow>
    (\<exists>w'. serve E i n w = Some (map (\<lambda>j. Some (slot_service lb j)) js, w') \<and> srr_state (the_it w' i) = st) \<and> set js \<subseteq> {..<length (gpa lb)}"
proof (induction n arbitrary: w js)
  case (Suc n)
  obtain j st1 where s: "srr_step (nat_scores lb) (srr_state (the_it w i)) = (j, st1)" by (metis surj_pair)
  obtain js' where js: "srr_run (nat_scores lb) n st1 = (js', st)" "js = j # js'" using Suc.prems(5) s by (auto split: prod.splits)
  note N = next_SRR_step [OF assms Suc.prems(4) s]
  obtain it' k' where n: "next_SRR E (w_tick w) lb (the_it w i) = (Some (slot_service lb j), it', k')" "srr_state it' = st1"
    "it_type it' = it_type (the_it w i)" "it_lb it' = it_lb (the_it w i)" using N(1) by blast
  define w1 where "w1 = (upd_it i (\<lambda>_. it') w)\<lparr>w_tick := k'\<rparr>"
  have g: "grid_lb_iterator_next E i w = Some (Some (slot_service lb j), w1)"
    using Suc.prems(2,3) n(1) by (simp add: next_unshared next_own_def w1_def Let_def)
  have w1: "i < length (w_its w1)" "the_it w1 i = it'" "w_lbs w1 = w_lbs w" using Suc.prems(1) by (simp_all add: w1_def upd_it_def)
  have le: "unat (next_idx (the_it w1 i)) \<le> length (gpa lb)" using n(2) N(2,3) w1(2) by auto
  have IH: "(\<exists>w'. serve E i n w1 = Some (map (\<lambda>j. Some (slot_service lb j)) js', w') \<and> srr_state (the_it w' i) = st) \<and> set js' \<subseteq> {..<length (gpa lb)}"
    by (rule Suc.IH [OF w1(1) _ _ le]) (use Suc.prems(2,3) n(2-4) w1(2,3) js(1) in simp_all)
  then show ?case using g N(2) by (auto simp: js(2))
qed simp

text \<open>An iterator at the beginning of a cycle: a new one, or one that has just served the last slot at threshold one.\<close>

definition srr_start :: "grid_lb \<Rightarrow> lb_iterator \<Rightarrow> bool" where
  "srr_start lb it \<longleftrightarrow> it_current it = 0 \<and> unat (next_idx it) \<le> length (gpa lb) \<or> it_current it = 1 \<and> unat (next_idx it) = length (gpa lb)"

lemma srr_start_step:
  assumes "srr_pool lb" and "srr_start lb it"
  shows "srr_step (nat_scores lb) (srr_state it) = (0, nat_scores lb ! 0, 1)" and "unat (next_idx it) \<le> length (gpa lb)"
  using assms(2) srr_pool_scores(1) [OF assms(1)] by (auto simp: srr_start_def srr_step_def)

lemma last_level: "srr_pool lb \<Longrightarrow> level_size (nat_scores lb) 1 = length (gpa lb)"
proof -
  assume a: "srr_pool lb"
  have "1 \<le> s" if "s \<in> set (nat_scores lb)" for s
    using that srr_pool_scores(1,6) [OF a] by (metis One_nat_def Suc_leI in_set_conv_nth)
  then have "takeWhile (\<lambda>s. 1 \<le> s) (nat_scores lb) = nat_scores lb" by (simp only: takeWhile_eq_all_conv) blast
  then show ?thesis using srr_pool_scores(1) [OF a] by (simp only: level_size_def)
qed

text \<open>
  C5: The weighted round-robin iterator is fair over a cycle: with the default settings and no reset
  delay, as many calls as the scores sum up to return, each service is served exactly as many
  times as its score says, and the iterator is then at the beginning of a cycle again.
\<close>

theorem weighted_round_robin_fair:
  assumes "sorts E" and "grid_lb_reload E provide s lb0 = Some lb" and "in_range lb" and "gpa lb \<noteq> []" and "length (gpa lb) < 2 ^ 30"
    and "shorten_ratio lb0 = to_double (1001 / 1000)" and "\<not> standard_deviation lb0" and "reset_delay lb0 \<le> 0"
    and "distinct (map service_info_dup (gpa lb))"
    and "i < length (w_its w)" and "it_type (the_it w i) = LBIT_WRR" and "the_lb w (it_lb (the_it w i)) = lb" and "srr_start lb (the_it w i)"
  shows "\<exists>rs w'. serve E i (nat (sum_list (map si_score (gpa lb)))) w = Some (rs, w') \<and> srr_start lb (the_it w' i) \<and>
    (\<forall>j < length (gpa lb). int (count_list rs (Some (service_info_dup (gpa lb ! j)))) = si_score (gpa lb ! j))"
proof -
  let ?ss = "nat_scores lb" and ?n = "length (gpa lb)"
  note q = reload_eq [OF assms(2)]
  have ok: "pool_ok lb" using reloaded_pool_ok [OF assms(1,2)] .
  have p: "srr_pool lb" using ok assms(3-5,8) unshortened [OF ok assms(4,5) q(4)] q(6-8) assms(6,7) by (simp add: srr_pool_def)
  note P = srr_pool_scores [OF p]
  define js where "js = levels ?ss (?ss ! 0)"
  have top: "0 < ?ss ! 0" using P(6) [of 0] assms(4) by simp
  have run: "srr_run ?ss (length js) (srr_state (the_it w i)) = (js, (1, level_size ?ss 1))"
    unfolding js_def by (rule srr_cycle [OF top order_refl P(2) srr_start_step(1) [OF p assms(13)]])
  have "map (min (?ss ! 0)) ?ss = ?ss" by (rule map_idI) (use P(1,6) in \<open>metis in_set_conv_nth min.absorb2\<close>)
  then have len: "length js = nat (sum_list (map si_score (gpa lb)))" using levels_length [OF P(3)] P(5) by (simp only: js_def nat_int flip: P(5))
  obtain w' where w': "serve E i (length js) w = Some (map (\<lambda>j. Some (slot_service lb j)) js, w')"
    and st: "srr_state (the_it w' i) = (1, level_size ?ss 1)" and sub: "set js \<subseteq> {..<?n}"
    using srr_serve [OF p assms(10-12) srr_start_step(2) [OF p assms(13)] run, of E] by blast
  have "srr_start lb (the_it w' i)" using st last_level [OF p] word_unat_eq_iff [of "it_current (the_it w' i)" 1] by (simp add: srr_start_def)
  moreover have "int (count_list (map (\<lambda>j. Some (slot_service lb j)) js) (Some (service_info_dup (gpa lb ! j)))) = si_score (gpa lb ! j)"
    if j: "j < ?n" for j
  proof -
    obtain x where x: "x < ?n" "slot_index (sorted_by_score lb ! x) = j" using slot_of [OF ok j] .
    have c: "count_list js x = ?ss ! x" using levels_count [OF P(3), of x] x(1) P(1) P(6) [OF x(1)] by (simp add: js_def del: nth_map)
    then have "x \<in> set js" using P(6) [OF x(1)] by (metis count_list_0_iff less_irrefl)
    moreover have "inj_on (\<lambda>j. Some (slot_service lb j)) (set js)" using slots_inj [OF ok assms(9)] sub by (rule inj_on_subset)
    ultimately have "count_list (map (\<lambda>j. Some (slot_service lb j)) js) (Some (slot_service lb x)) = count_list js x"
      using count_list_inj_map [of "\<lambda>j. Some (slot_service lb j)" js x] by blast
    then show ?thesis using c P(4) [OF x(1)] x(2) by simp
  qed
  ultimately show ?thesis using w' unfolding len by blast
qed

theorem weighted_round_robin_fair_witness:
  "\<exists>rs w'. serve env0 0 6 (world3 LBIT_WRR) = Some (rs, w') \<and> count_list rs (Some (service_info_dup (svc 2 3))) = 3"
proof -
  have h: "length (gpa lb3) < 2 ^ 30" "shorten_ratio (grid_lb_init ''NS'' ''rawx'') = to_double (1001 / 1000)"
    "\<not> standard_deviation (grid_lb_init ''NS'' ''rawx'')" "reset_delay (grid_lb_init ''NS'' ''rawx'') \<le> 0" "srr_start lb3 (the_it (world3 LBIT_WRR) 0)"
    by (simp_all add: lb3(5) grid_lb_init_def srr_start_def world3)
  have g: "gpa lb3 ! 1 = svc 2 3" "si_score (svc 2 3) = 3" "nat (sum_list (map si_score (gpa lb3))) = 6" "1 < length (gpa lb3)"
    by (simp_all add: lb3(2) three_def svc_def)
  obtain rs w' where r: "serve env0 0 6 (world3 LBIT_WRR) = Some (rs, w')"
    "\<forall>j < length (gpa lb3). int (count_list rs (Some (service_info_dup (gpa lb3 ! j)))) = si_score (gpa lb3 ! j)"
    using weighted_round_robin_fair [OF env0_sorts lb3(1,3,4) h(1-4) three_distinct world3(1-3) h(5)] unfolding g(3) by blast
  have "int (count_list rs (Some (service_info_dup (svc 2 3)))) = 3" using r(2) [rule_format, OF g(4)] unfolding g by simp
  then show ?thesis using r(1) by simp
qed

end
