(* ===== verification/Load_Balancer_Polling.thy ===== *)
theory Load_Balancer_Polling
  imports Load_Balancer_Iterators
begin

section \<open>Polling sets of services\<close>

text \<open>
  Polling returns and what it returns satisfies the constraints asked for; and what the reload
  from JSON does as it is written.
\<close>

subsection \<open>Lists whose order does not matter\<close>

lemma sorted_wrt_perm:
  assumes "\<And>a b. R a b \<Longrightarrow> R b a"
  shows "mset ys = mset xs \<Longrightarrow> sorted_wrt R xs \<Longrightarrow> sorted_wrt R ys"
proof (induction xs arbitrary: ys)
  case (Cons x xs)
  have "x \<in> set ys" using mset_eq_setD [OF Cons.prems(1)] by simp
  then obtain a b where y: "ys = a @ x # b" by (meson split_list)
  then have m: "mset (a @ b) = mset xs" using Cons.prems(1) by simp
  have s: "sorted_wrt R (a @ b)" using Cons.IH [OF m] Cons.prems(2) by simp
  have "\<forall>z \<in> set (a @ b). R x z" using Cons.prems(2) mset_eq_setD [OF m] by simp
  then show ?case using s assms by (auto simp: y sorted_wrt_append)
qed simp

lemma shuffle_perm:
  assumes "\<And>k n. 0 < n \<Longrightarrow> le_range E k n < n"
  shows "n < length xs \<or> n = 0 \<Longrightarrow> mset (shuffle_loop E k n xs) = mset xs"
proof (induction n arbitrary: k xs)
  case (Suc n)
  let ?j = "le_range E k (length xs - 1)" and ?l = "length xs - 1"
  have "?j < length xs" "?l < length xs" using assms [of "length xs - 1" k] Suc.prems by auto
  then have "mset (xs[?j := xs ! ?l, ?l := xs ! ?j]) = mset xs" using mset_swap [of ?l xs ?j] by blast
  then show ?case using Suc.IH [of "xs[?j := xs ! ?l, ?l := xs ! ?j]" "k + 1"] Suc.prems by (simp add: Let_def)
qed simp

subsection \<open>Distances\<close>

abbreviation loc :: "service_info \<Rightarrow> string option" where
  "loc si \<equiv> service_info_get_rawx_location si None"

text \<open>Two services are far enough: those that have locations are at the distance asked for.\<close>

definition far :: "nat \<Rightarrow> service_info \<Rightarrow> service_info \<Rightarrow> bool" where
  "far r a b \<longleftrightarrow> r = 0 \<or> loc a = None \<or> loc b = None \<or> (\<exists>d. distance_between_location (loc a) (loc b) = Some d \<and> r \<le> d)"

definition located :: "nat \<Rightarrow> service_info \<Rightarrow> bool" where
  "located r si \<longleftrightarrow> r = 0 \<or> (\<exists>l. loc si = Some l \<and> l \<noteq> [] \<and> length (g_strsplit l (CHR ''.'')) \<le> 31)"

lemma far_sym: "far r a b \<Longrightarrow> far r b a"
  by (auto simp: far_def distance_sym)

lemma min_distance_far:
  "min_distance r l m vs = Some d \<Longrightarrow> r \<le> d \<Longrightarrow> v \<in> set vs \<Longrightarrow>
     \<exists>x. distance_between_location (Some l) (loc v) = Some x \<and> r \<le> x"
proof (induction vs arbitrary: m)
  case (Cons v' vs)
  obtain x where x: "distance_between_location (Some l) (loc v') = Some x" using Cons.prems(1) by (auto simp: bind_eq_Some_conv)
  have n: "\<not> min m x < r" using Cons.prems(1,2) x by (auto simp: Let_def)
  then have "min_distance r l (min m x) vs = Some d" using Cons.prems(1) x by (simp add: Let_def)
  then show ?case using Cons.IH Cons.prems(2,3) x n by auto
qed simp

lemma distance_fits_far:
  assumes "distance_fits r ps si = Some True" and "v \<in> snd ` set ps"
  shows "far r si v"
proof (cases "r = 0 \<or> loc si = None")
  case False
  then obtain l d where l: "loc si = Some l" "min_distance r l G_MAXUINT (map snd ps) = Some d" "r \<le> d"
    using assms(1) by (auto simp: distance_fits_def split: option.splits)
  then show ?thesis using min_distance_far [OF l(2,3), of v] assms(2) by (auto simp: far_def)
qed (auto simp: far_def)

lemma min_distance_returns:
  assumes "l \<noteq> []" and "length (g_strsplit l (CHR ''.'')) \<le> 31" and "r \<noteq> 0"
  shows "\<forall>v \<in> set vs. located r v \<Longrightarrow> \<exists>d. min_distance r l m vs = Some d"
proof (induction vs arbitrary: m)
  case (Cons v vs)
  obtain l' where l': "loc v = Some l'" "length (g_strsplit l' (CHR ''.'')) \<le> 31" using Cons.prems assms(3) by (auto simp: located_def)
  have "\<exists>x. distance_between_location (Some l) (loc v) = Some x"
    using distance_tokens [of l l'] assms(1) token_distance_bound [OF assms(2) l'(2)] by (simp add: l'(1) Let_def)
  then show ?case using Cons by (auto simp: Let_def)
qed simp

lemma distance_fits_returns:
  assumes "located r si" and "\<forall>v \<in> snd ` set ps. located r v"
  shows "\<exists>b. distance_fits r ps si = Some b"
proof (cases "r = 0")
  case False
  then obtain l where l: "loc si = Some l" "l \<noteq> []" "length (g_strsplit l (CHR ''.'')) \<le> 31" using assms(1) by (auto simp: located_def)
  have "\<forall>v \<in> set (map snd ps). located r v" using assms(2) by simp
  then show ?thesis using min_distance_returns [OF l(2,3) False, of "map snd ps" G_MAXUINT] False by (auto simp: distance_fits_def l(1))
qed (auto simp: distance_fits_def)

subsection \<open>The iterators of a world\<close>

text \<open>What no call changes: the pools, and what an iterator iterates on.\<close>

definition fixed_part :: "lb_world \<Rightarrow> grid_lb list \<times> (nat \<times> glbi_type \<times> nat) list" where
  "fixed_part w = (w_lbs w, map (\<lambda>it. (it_lb it, it_type it, it_sub it)) (w_its w))"

text \<open>A shared iterator is made from one that exists, on the same pool.\<close>

definition shares_ok :: "lb_world \<Rightarrow> bool" where
  "shares_ok w \<longleftrightarrow> (\<forall>x < length (w_its w). it_type (the_it w x) = LBIT_SHARED \<longrightarrow>
     it_sub (the_it w x) < x \<and> it_lb (the_it w (it_sub (the_it w x))) = it_lb (the_it w x))"

abbreviation pool_of :: "lb_world \<Rightarrow> nat \<Rightarrow> grid_lb" where
  "pool_of w i \<equiv> the_lb w (it_lb (the_it w i))"

lemma fixed_partD:
  assumes "fixed_part w' = fixed_part w"
  shows "w_lbs w' = w_lbs w" and "length (w_its w') = length (w_its w)"
    and "x < length (w_its w) \<Longrightarrow> it_lb (the_it w' x) = it_lb (the_it w x)"
    and "x < length (w_its w) \<Longrightarrow> it_type (the_it w' x) = it_type (the_it w x)"
    and "x < length (w_its w) \<Longrightarrow> it_sub (the_it w' x) = it_sub (the_it w x)"
proof -
  have m: "map (\<lambda>it. (it_lb it, it_type it, it_sub it)) (w_its w') = map (\<lambda>it. (it_lb it, it_type it, it_sub it)) (w_its w)"
    using assms by (simp add: fixed_part_def)
  show "w_lbs w' = w_lbs w" using assms by (simp add: fixed_part_def)
  show l: "length (w_its w') = length (w_its w)" using arg_cong [OF m, of length] by simp
  have "(it_lb (the_it w' x), it_type (the_it w' x), it_sub (the_it w' x)) = (it_lb (the_it w x), it_type (the_it w x), it_sub (the_it w x))"
    if "x < length (w_its w)" using arg_cong [OF m, of "\<lambda>xs. xs ! x"] that l by simp
  then show "x < length (w_its w) \<Longrightarrow> it_lb (the_it w' x) = it_lb (the_it w x)"
    "x < length (w_its w) \<Longrightarrow> it_type (the_it w' x) = it_type (the_it w x)"
    "x < length (w_its w) \<Longrightarrow> it_sub (the_it w' x) = it_sub (the_it w x)" by simp_all
qed

lemma shares_kept:
  assumes "fixed_part w' = fixed_part w" and "shares_ok w"
  shows "shares_ok w'"
  unfolding shares_ok_def
proof (intro allI impI)
  fix x assume "x < length (w_its w')" and t: "it_type (the_it w' x) = LBIT_SHARED"
  then have x: "x < length (w_its w)" using fixed_partD(2) [OF assms(1)] by simp
  note f = fixed_partD(3-5) [OF assms(1)]
  have s: "it_sub (the_it w x) < x" "it_lb (the_it w (it_sub (the_it w x))) = it_lb (the_it w x)"
    using assms(2) x t f(2) [OF x] by (auto simp: shares_ok_def)
  then show "it_sub (the_it w' x) < x \<and> it_lb (the_it w' (it_sub (the_it w' x))) = it_lb (the_it w' x)"
    using f(1,3) [OF x] f(1) [of "it_sub (the_it w x)"] x by simp
qed

lemma upd_it_fixed:
  assumes "it_lb it = it_lb (the_it w i)" and "it_type it = it_type (the_it w i)" and "it_sub it = it_sub (the_it w i)"
  shows "fixed_part (upd_it i (\<lambda>_. it) w) = fixed_part w" and "fixed_part (w\<lparr>w_tick := k\<rparr>) = fixed_part w"
proof -
  have "map (\<lambda>it. (it_lb it, it_type it, it_sub it)) ((w_its w)[i := it]) = map (\<lambda>it. (it_lb it, it_type it, it_sub it)) (w_its w)"
    using assms by (cases "i < length (w_its w)") (simp_all add: map_update list_update_same_conv list_update_beyond)
  then show "fixed_part (upd_it i (\<lambda>_. it) w) = fixed_part w" by (simp add: fixed_part_def upd_it_def)
qed (simp add: fixed_part_def)

lemma raw_member: "get_raw lb x = Some si \<Longrightarrow> si \<in> service_info_dup ` set (gpa lb)"
  by (auto simp: get_raw_def Let_def split: if_splits)

lemma scored_member:
  "get_by_score lb y = Some si \<Longrightarrow> si \<in> service_info_dup ` set (gpa lb)"
  "get_by_score_no_shorten lb y = Some si \<Longrightarrow> si \<in> service_info_dup ` set (gpa lb)"
  by (auto simp: get_by_score_def get_by_score_no_shorten_def dest: raw_member split: if_splits)

lemma next_SRR_keeps:
  assumes "next_SRR E k lb it = (r, it', k')"
  shows "it_lb it' = it_lb it" and "it_type it' = it_type it" and "it_sub it' = it_sub it" and "r = Some si \<Longrightarrow> si \<in> service_info_dup ` set (gpa lb)"
proof -
  have "(it_lb it' = it_lb it \<and> it_type it' = it_type it \<and> it_sub it' = it_sub it) \<and> (\<exists>x. r = get_by_score lb x) \<or> r = None \<and> it' = it"
  proof (cases "length (gpa lb) > 0")
    case True
    define ask where "ask \<longleftrightarrow> it_current it \<noteq> 0 \<and> reset_delay lb > 0"
    define k1 where "k1 = (if ask then k + 1 else k)"
    define p where "p = (if it_current it = 0 \<or> ask \<and> to_gint (last_reset it + reset_delay lb) < le_time E k then (srr_reset (le_time E k1) lb it, k1 + 1)
               else if unat (next_idx it) \<ge> length (sorted_by_score lb) then srr_decrement E k1 lb it
               else if it_current it > slot_score (sorted_by_score lb ! unat (next_idx it)) then srr_decrement E k1 lb it
               else (it, k1))"
    have "next_SRR E k lb it = (get_by_score lb (next_idx (fst p)), (fst p)\<lparr>next_idx := next_idx (fst p) + 1\<rparr>, snd p)"
      using True by (simp add: next_SRR_def p_def ask_def k1_def Let_def case_prod_unfold)
    moreover have "it_lb (fst p) = it_lb it \<and> it_type (fst p) = it_type it \<and> it_sub (fst p) = it_sub it"
      by (simp add: p_def srr_reset_def srr_decrement_def Let_def)
    ultimately show ?thesis using assms by auto
  next
    case False
    then show ?thesis using assms by (simp add: next_SRR_def)
  qed
  then show "it_lb it' = it_lb it" "it_type it' = it_type it" "it_sub it' = it_sub it" "r = Some si \<Longrightarrow> si \<in> service_info_dup ` set (gpa lb)"
    using scored_member(1) by auto
qed

lemma next_own_keeps:
  assumes "next_own E i sh w = (r, w')"
  shows "fixed_part w' = fixed_part w" and "r = Some si \<Longrightarrow> si \<in> service_info_dup ` set (gpa (pool_of w i))"
proof -
  let ?it = "the_it w i" and ?lb = "pool_of w i"
  let ?M = "service_info_dup ` set (gpa ?lb)"
  have "fixed_part w' = fixed_part w \<and> (r = Some si \<longrightarrow> si \<in> ?M)"
  proof (cases "it_type ?it")
    case LBIT_SINGLE
    then show ?thesis using assms raw_member [of ?lb _ si] by (auto simp: next_own_def next_SINGLE_def Let_def upd_it_fixed split: if_splits)
  next
    case LBIT_RR
    then show ?thesis using assms scored_member [of ?lb _ si] by (auto simp: next_own_def next_RR_def Let_def upd_it_fixed split: if_splits)
  next
    case LBIT_WRR
    obtain r1 it1 k1 where n: "next_SRR E (w_tick w) ?lb ?it = (r1, it1, k1)" by (metis surj_pair)
    note k = next_SRR_keeps [OF n]
    have f: "fixed_part (upd_it i (\<lambda>_. it1) w) = fixed_part w" using upd_it_fixed(1) [OF k(1-3)] .
    then have "fixed_part ((upd_it i (\<lambda>_. it1) w)\<lparr>w_tick := k1\<rparr>) = fixed_part w" by (simp add: fixed_part_def)
    then show ?thesis using assms scored_member [of ?lb _ si] k(4) [of si] LBIT_WRR
      by (auto simp: next_own_def next_RR_def Let_def n upd_it_fixed split: if_splits)
  next
    case LBIT_RAND
    then show ?thesis using assms scored_member(1) [of ?lb _ si] by (auto simp: next_own_def next_RAND_def Let_def fixed_part_def)
  next
    case LBIT_WRAND
    then show ?thesis using assms scored_member(1) [of ?lb _ si] by (auto simp: next_own_def next_SRAND_def Let_def fixed_part_def split: if_splits)
  next
    case LBIT_SHARED
    then show ?thesis using assms by (simp add: next_own_def Let_def)
  qed
  then show "fixed_part w' = fixed_part w" "r = Some si \<Longrightarrow> si \<in> ?M" by auto
qed

lemma iterator_next_ok:
  assumes "shares_ok w"
  shows "i < length (w_its w) \<Longrightarrow> \<exists>r w'. iterator_next_shorten E i sh w = Some (r, w') \<and> fixed_part w' = fixed_part w \<and>
    (\<forall>si. r = Some si \<longrightarrow> si \<in> service_info_dup ` set (gpa (pool_of w i)))"
proof (induction i rule: less_induct)
  case (less i)
  show ?case
  proof (cases "it_type (the_it w i) = LBIT_SHARED")
    case True
    then have s: "it_sub (the_it w i) < i" "it_lb (the_it w (it_sub (the_it w i))) = it_lb (the_it w i)"
      using assms less.prems by (auto simp: shares_ok_def)
    have "iterator_next_shorten E i sh w = iterator_next_shorten E (it_sub (the_it w i)) sh w"
      using True by (simp add: iterator_next_shorten.simps [of E i])
    then show ?thesis using less.IH [OF s(1)] s less.prems by simp
  next
    case False
    obtain r w' where "next_own E i sh w = (r, w')" by (metis surj_pair)
    then show ?thesis using next_own_keeps [of E i sh w r w'] False by (simp add: iterator_next_shorten.simps [of E i])
  qed
qed

lemma effective_type_returns: "shares_ok w \<Longrightarrow> i < length (w_its w) \<Longrightarrow> \<exists>ty. get_effective_type w i = Some ty"
proof (induction i rule: less_induct)
  case (less i)
  show ?case
  proof (cases "it_type (the_it w i) = LBIT_SHARED")
    case True
    then have "it_sub (the_it w i) < i" using less.prems by (auto simp: shares_ok_def)
    then show ?thesis using less.IH [of "it_sub (the_it w i)"] less.prems True by (simp add: get_effective_type.simps [of w i])
  qed (simp add: get_effective_type.simps)
qed

subsection \<open>The search\<close>

text \<open>What holds of the services polled so far, \<open>cs\<close> being the classes searched.\<close>

definition acceptable :: "lb_next_opt \<Rightarrow> grid_lb \<Rightarrow> string option list \<Rightarrow> service_info \<Rightarrow> bool" where
  "acceptable opt lb cs si \<longleftrightarrow> si \<in> service_info_dup ` set (gpa lb) \<and> filter_matches (opt_filter opt) si \<and>
     (\<exists>c \<in> set cs. service_info_check_storage_class si c)"

definition polled_ok :: "lb_next_opt \<Rightarrow> grid_lb \<Rightarrow> string option list \<Rightarrow> polled \<Rightarrow> bool" where
  "polled_ok opt lb cs ps \<longleftrightarrow>
     (\<forall>(k, si) \<in> set ps. k = addr_key (si_addr si) \<and> acceptable opt lb cs si) \<and> sorted_wrt (far (req_distance opt)) (map snd ps) \<and>
     (\<not> req_duplicates opt \<longrightarrow> gtree_ok addr_key_compare (\<lambda>_. True) ps) \<and> length ps \<le> req_max opt"

lemma replace_shape:
  "\<exists>xs ys. g_tree_replace cmp t k v = xs @ (k, v) # ys \<and> (t = xs @ ys \<or> (\<exists>p. t = xs @ p # ys \<and> g_tree_lookup cmp t k \<noteq> None))"
proof (induction t)
  case (Cons p t)
  obtain k' v' where p: "p = (k', v')" by fastforce
  consider "cmp k k' = 0" | "cmp k k' < 0" | "0 < cmp k k'" by linarith
  then show ?case
  proof cases
    case 1
    then show ?thesis by (intro exI [of _ "[]"] exI [of _ t]) (simp add: p)
  next
    case 2
    then show ?thesis by (intro exI [of _ "[]"] exI [of _ "p # t"]) (simp add: p)
  next
    case 3
    obtain xs ys where x: "g_tree_replace cmp t k v = xs @ (k, v) # ys" "t = xs @ ys \<or> (\<exists>p. t = xs @ p # ys \<and> g_tree_lookup cmp t k \<noteq> None)"
      using Cons.IH by blast
    then show ?thesis using 3 by (intro exI [of _ "p # xs"] exI [of _ ys]) (auto simp: p)
  qed
qed auto

lemma polled_added:
  assumes "polled_ok opt lb cs ps" and "acceptable opt lb cs si" and "distance_fits (req_distance opt) ps si = Some True"
    and "ps' = xs @ (addr_key (si_addr si), si) # ys" and "ps = xs @ ys \<or> (\<exists>p. ps = xs @ p # ys)"
    and "\<not> req_duplicates opt \<Longrightarrow> gtree_ok addr_key_compare (\<lambda>_. True) ps'" and "length ps' \<le> req_max opt"
  shows "polled_ok opt lb cs ps'"
proof -
  have sub: "set xs \<union> set ys \<subseteq> set ps" using assms(5) by auto
  have "far (req_distance opt) si v" if "v \<in> snd ` (set xs \<union> set ys)" for v
    using distance_fits_far [OF assms(3), of v] that sub by blast
  moreover have "sorted_wrt (far (req_distance opt)) (map snd ps)" using assms(1) by (simp add: polled_ok_def)
  then have "sorted_wrt (far (req_distance opt)) (map snd (xs @ ys))" using assms(5) by (elim disjE exE) (simp_all add: sorted_wrt_append)
  ultimately have "sorted_wrt (far (req_distance opt)) (map snd ps')"
    using far_sym [of "req_distance opt" si] by (auto simp: assms(4) sorted_wrt_append)
  moreover have "\<forall>(k, s) \<in> set ps'. k = addr_key (si_addr s) \<and> acceptable opt lb cs s"
    using assms(1,2) sub unfolding polled_ok_def assms(4) by auto
  ultimately show ?thesis using assms(6,7) unfolding polled_ok_def by blast
qed

lemma placed_ok:
  assumes "polled_ok opt lb cs ps" and "acceptable opt lb cs si" and "distance_fits (req_distance opt) ps si = Some True"
    and "req_duplicates opt" and "length ps < req_max opt"
  shows "polled_ok opt lb cs (place n (addr_key (si_addr si), si) ps)"
  by (rule polled_added [OF assms(1-3), of _ "take n ps" "drop n ps"]) (use assms(4,5) in \<open>auto simp: place_def\<close>)

lemma replaced_ok:
  assumes "polled_ok opt lb cs ps" and "acceptable opt lb cs si" and "distance_fits (req_distance opt) ps si = Some True"
    and "\<not> req_duplicates opt" and "length ps < req_max opt"
  defines "t \<equiv> g_tree_replace addr_key_compare ps (addr_key (si_addr si)) si"
  shows "polled_ok opt lb cs t" and "g_tree_lookup addr_key_compare ps (addr_key (si_addr si)) = None \<Longrightarrow> length t = Suc (length ps)"
    and "length ps \<le> length t"
proof -
  obtain xs ys where x: "t = xs @ (addr_key (si_addr si), si) # ys"
    "ps = xs @ ys \<or> (\<exists>p. ps = xs @ p # ys \<and> g_tree_lookup addr_key_compare ps (addr_key (si_addr si)) \<noteq> None)"
    using replace_shape [of addr_key_compare ps "addr_key (si_addr si)" si] unfolding t_def by blast
  have g: "gtree_ok addr_key_compare (\<lambda>_. True) ps" using assms(1,4) by (simp add: polled_ok_def)
  have "gtree_ok addr_key_compare (\<lambda>_. True) t" using akey.ok_insert [OF g] akey.replace_eq_insert [OF g] by (simp add: t_def)
  moreover have "length t \<le> req_max opt" using x assms(5) by auto
  ultimately show "polled_ok opt lb cs t" using polled_added [OF assms(1-3) x(1)] x(2) by blast
  show "g_tree_lookup addr_key_compare ps (addr_key (si_addr si)) = None \<Longrightarrow> length t = Suc (length ps)" "length ps \<le> length t"
    using x by auto
qed

definition serving :: "nat \<Rightarrow> nat \<Rightarrow> grid_lb \<Rightarrow> lb_world \<Rightarrow> bool" where
  "serving r i lb w \<longleftrightarrow> i < length (w_its w) \<and> shares_ok w \<and> pool_of w i = lb \<and> (\<forall>si \<in> service_info_dup ` set (gpa lb). located r si)"

lemma serving_kept: "serving r i lb w \<Longrightarrow> fixed_part w' = fixed_part w \<Longrightarrow> serving r i lb w'"
  using shares_kept [of w' w] fixed_partD(1-3) [of w' w] by (simp add: serving_def)

lemma fixed_tick: "fixed_part (w\<lparr>w_tick := k\<rparr>) = fixed_part w"
  by (simp add: fixed_part_def)

text \<open>A step of the search ends it or goes on with less to do.\<close>

lemma found_step:
  assumes "polled_ok opt lb cs ps" and "acceptable opt lb cs si" and "distance_fits (req_distance opt) ps si = Some True"
    and "limit > 0" and "length ps < req_max opt"
  shows "\<exists>limit' ps' w'. fixed_part w' = fixed_part w \<and> polled_ok opt lb cs ps' \<and>
    limit' + (req_max opt - length ps') < limit + (req_max opt - length ps) \<and>
    (if req_duplicates opt
     then search_servers_loop E i opt c sh limit (place (le_place E (w_tick w) (length ps)) (addr_key (si_addr si), si) ps) (w\<lparr>w_tick := w_tick w + 1\<rparr>)
     else case g_tree_lookup addr_key_compare ps (addr_key (si_addr si)) of
            None \<Rightarrow> search_servers_loop E i opt c sh limit (g_tree_replace addr_key_compare ps (addr_key (si_addr si)) si) w
          | Some old \<Rightarrow> search_servers_loop E i opt c sh (limit - 1) (g_tree_replace addr_key_compare ps (addr_key (si_addr si)) si) w)
    = search_servers_loop E i opt c sh limit' ps' w'"
proof (cases "req_duplicates opt")
  case True
  let ?ps = "place (le_place E (w_tick w) (length ps)) (addr_key (si_addr si), si) ps"
  have "length ?ps = Suc (length ps)" by (simp add: place_def)
  then show ?thesis using placed_ok [OF assms(1-3) True assms(5)] True assms(5)
    by (intro exI [of _ limit] exI [of _ ?ps] exI [of _ "w\<lparr>w_tick := w_tick w + 1\<rparr>"]) (simp add: fixed_tick)
next
  case False
  note r = replaced_ok [OF assms(1-3) False assms(5)]
  let ?t = "g_tree_replace addr_key_compare ps (addr_key (si_addr si)) si"
  show ?thesis
  proof (cases "g_tree_lookup addr_key_compare ps (addr_key (si_addr si))")
    case None
    then show ?thesis using r(1,2) False assms(5) by (intro exI [of _ limit] exI [of _ ?t] exI [of _ w]) simp
  next
    case (Some old)
    then show ?thesis using r(1,3) False assms(4,5) by (intro exI [of _ "limit - 1"] exI [of _ ?t] exI [of _ w]) simp
  qed
qed

lemma search_step:
  assumes "c \<in> set cs" and "serving (req_distance opt) i lb w" and "polled_ok opt lb cs ps" and "limit > 0" and "length ps < req_max opt"
  shows "\<exists>limit' ps' w'. fixed_part w' = fixed_part w \<and> polled_ok opt lb cs ps' \<and>
    (search_servers_loop E i opt c sh limit ps w = Some (ps', w') \<or>
     limit' + (req_max opt - length ps') < limit + (req_max opt - length ps) \<and>
     search_servers_loop E i opt c sh limit ps w = search_servers_loop E i opt c sh limit' ps' w')"
proof -
  have i: "i < length (w_its w)" "shares_ok w" "pool_of w i = lb" using assms(2) by (simp_all add: serving_def)
  obtain r w1 where n: "iterator_next_shorten E i sh w = Some (r, w1)" "fixed_part w1 = fixed_part w"
    "\<forall>si. r = Some si \<longrightarrow> si \<in> service_info_dup ` set (gpa lb)" using iterator_next_ok [OF i(2,1), of E sh] unfolding i(3) by blast
  note L = search_servers_loop.simps [of E i opt c sh limit ps w, unfolded n(1)]
  have skip: ?thesis if "search_servers_loop E i opt c sh limit ps w = search_servers_loop E i opt c sh (limit - 1) ps w1"
    using that n(2) assms(3,4) by (intro exI [of _ "limit - 1"] exI [of _ ps] exI [of _ w1]) simp
  show ?thesis
  proof (cases r)
    case None
    then show ?thesis using n(2) assms(3-5) by (intro exI [of _ 0] exI [of _ ps] exI [of _ w1]) (simp add: L)
  next
    case (Some si)
    show ?thesis
    proof (cases "\<not> service_info_check_storage_class si c \<or> \<not> filter_matches (opt_filter opt) si")
      case True
      show ?thesis by (rule skip) (use True assms(4,5) Some in \<open>simp add: L\<close>)
    next
      case ok: False
      have m: "si \<in> service_info_dup ` set (gpa lb)" using n(3) Some by blast
      have ac: "acceptable opt lb cs si" using ok m assms(1) by (auto simp: acceptable_def)
      have "\<forall>v \<in> snd ` set ps. located (req_distance opt) v"
        using assms(2,3) by (auto simp: polled_ok_def acceptable_def serving_def)
      then obtain b where b: "distance_fits (req_distance opt) ps si = Some b"
        using distance_fits_returns [of "req_distance opt" si ps] m assms(2) by (auto simp: serving_def)
      show ?thesis
      proof (cases b)
        case True
        have e: "search_servers_loop E i opt c sh limit ps w = (if req_duplicates opt
            then search_servers_loop E i opt c sh limit (place (le_place E (w_tick w1) (length ps)) (addr_key (si_addr si), si) ps) (w1\<lparr>w_tick := w_tick w1 + 1\<rparr>)
            else case g_tree_lookup addr_key_compare ps (addr_key (si_addr si)) of
                   None \<Rightarrow> search_servers_loop E i opt c sh limit (g_tree_replace addr_key_compare ps (addr_key (si_addr si)) si) w1
                 | Some old \<Rightarrow> search_servers_loop E i opt c sh (limit - 1) (g_tree_replace addr_key_compare ps (addr_key (si_addr si)) si) w1)"
          unfolding L using assms(4,5) Some ok b True by simp
        have "distance_fits (req_distance opt) ps si = Some True" using b True by simp
        from found_step [OF assms(3) ac this assms(4,5), of w1 E i c sh] show ?thesis unfolding e [symmetric] n(2) by blast
      next
        case False
        show ?thesis by (rule skip) (use False assms(4,5) Some ok b in \<open>simp add: L\<close>)
      qed
    qed
  qed
qed

lemma search_loop_ok:
  assumes "c \<in> set cs"
  shows "serving (req_distance opt) i lb w \<Longrightarrow> polled_ok opt lb cs ps \<Longrightarrow>
    \<exists>ps' w'. search_servers_loop E i opt c sh limit ps w = Some (ps', w') \<and> polled_ok opt lb cs ps' \<and> fixed_part w' = fixed_part w"
proof (induction "limit + (req_max opt - length ps)" arbitrary: limit ps w rule: less_induct)
  case less
  show ?case
  proof (cases "limit > 0 \<and> length ps < req_max opt")
    case False
    then have "search_servers_loop E i opt c sh limit ps w = Some (ps, w)" by (subst search_servers_loop.simps) auto
    then show ?thesis using less.prems(2) by blast
  next
    case True
    obtain limit' ps' w' where s: "fixed_part w' = fixed_part w" "polled_ok opt lb cs ps'"
      "search_servers_loop E i opt c sh limit ps w = Some (ps', w') \<or>
       limit' + (req_max opt - length ps') < limit + (req_max opt - length ps) \<and>
       search_servers_loop E i opt c sh limit ps w = search_servers_loop E i opt c sh limit' ps' w'"
      using search_step [OF assms less.prems, of limit E sh] True by blast
    then show ?thesis using less.hyps [of limit' ps' w', OF _ serving_kept [OF less.prems(1) s(1)] s(2)] by metis
  qed
qed

definition searched_ok :: "lb_next_opt \<Rightarrow> grid_lb \<Rightarrow> string option list \<Rightarrow> lb_world \<Rightarrow> (polled \<times> lb_world) option \<Rightarrow> bool" where
  "searched_ok opt lb cs w x \<longleftrightarrow> (\<exists>ps w'. x = Some (ps, w') \<and> polled_ok opt lb cs ps \<and> fixed_part w' = fixed_part w)"

lemma search_servers_ok:
  assumes "c \<in> set cs" and "serving (req_distance opt) i lb w" and "polled_ok opt lb cs ps"
  shows "searched_ok opt lb cs w (search_servers E i opt c sh (ps, w))"
proof -
  obtain ty where "get_effective_type w i = Some ty" using effective_type_returns [of w i] assms(2) by (auto simp: serving_def)
  then obtain limit where "get_iteration_limit w i sh = Some limit" by (simp add: get_iteration_limit_def Let_def)
  then show ?thesis using search_loop_ok [OF assms, of E sh limit] by (simp add: search_servers_def searched_ok_def)
qed

lemma fallbacks_ok:
  "\<forall>f \<in> set fs. f \<noteq> None \<longrightarrow> f \<in> set cs \<Longrightarrow> serving (req_distance opt) i lb w \<Longrightarrow> polled_ok opt lb cs ps \<Longrightarrow>
     searched_ok opt lb cs w (search_fallbacks E i opt fs (ps, w))"
proof (induction fs arbitrary: ps w)
  case (Cons f fs)
  show ?case
  proof (cases "req_max opt > length ps \<and> f \<noteq> None")
    case True
    obtain ps1 w1 where s: "search_servers E i opt f False (ps, w) = Some (ps1, w1)" "polled_ok opt lb cs ps1" "fixed_part w1 = fixed_part w"
      using search_servers_ok [of f cs, OF _ Cons.prems(2,3), of E False] Cons.prems(1) True by (auto simp: searched_ok_def)
    have "searched_ok opt lb cs w1 (search_fallbacks E i opt fs (ps1, w1))"
      using Cons.IH [OF _ serving_kept [OF Cons.prems(2) s(3)] s(2)] Cons.prems(1) by simp
    then show ?thesis using True s(1,3) by (simp add: searched_ok_def)
  next
    case False
    then show ?thesis using Cons by (auto simp: searched_ok_def)
  qed
qed (simp add: searched_ok_def)

lemma next_set_ok:
  assumes "c \<in> set cs" and "\<forall>f \<in> set fs. f \<noteq> None \<longrightarrow> f \<in> set cs" and "serving (req_distance opt) i lb w" and "polled_ok opt lb cs ps"
  shows "searched_ok opt lb cs w (next_set E i opt c fs (ps, w))"
proof -
  obtain ps1 w1 where s1: "search_servers E i opt c True (ps, w) = Some (ps1, w1)" "polled_ok opt lb cs ps1" "fixed_part w1 = fixed_part w"
    using search_servers_ok [OF assms(1,3,4), of E True] by (auto simp: searched_ok_def)
  have v1: "serving (req_distance opt) i lb w1" using serving_kept [OF assms(3) s1(3)] .
  let ?x = "if req_max opt > length ps1 then search_servers E i opt c False (ps1, w1) else Some (ps1, w1)"
  have "searched_ok opt lb cs w1 ?x" using search_servers_ok [OF assms(1) v1 s1(2), of E False] s1(2) by (simp add: searched_ok_def)
  then obtain ps2 w2 where s2: "?x = Some (ps2, w2)" "polled_ok opt lb cs ps2" "fixed_part w2 = fixed_part w1" by (auto simp only: searched_ok_def)
  have "searched_ok opt lb cs w2 (search_fallbacks E i opt fs (ps2, w2))" by (rule fallbacks_ok [OF assms(2) serving_kept [OF v1 s2(3)] s2(2)])
  moreover have "next_set E i opt c fs (ps, w) = search_fallbacks E i opt fs (ps2, w2)" using s1(1) s2(1) by (simp add: next_set_def)
  ultimately show ?thesis using s1(3) s2(3) by (simp add: searched_ok_def)
qed

text \<open>The classes a request accepts: the one asked for, then its fallbacks unless it is strict.\<close>

definition accepted_classes :: "lb_next_opt \<Rightarrow> string option list" where
  "accepted_classes opt = storage_class_get_name (req_stgclass opt) #
     filter (\<lambda>f. f \<noteq> None) (if req_strict_stgclass opt then [] else storage_class_get_fallbacks (req_stgclass opt))"

lemma accepted_iff:
  "(\<exists>c \<in> set (accepted_classes opt). service_info_check_storage_class si c) \<longleftrightarrow>
     storage_class_is_satisfied2 (req_stgclass opt) (service_info_get_tag_value si NAME_TAGNAME_RAWX_STGCLASS None) (req_strict_stgclass opt)"
proof (cases "req_stgclass opt")
  case None
  have "storage_class_is_satisfied None asc" for asc by (simp add: storage_class_is_satisfied_def is_any_def is_none_def)
  then show ?thesis
    by (simp add: None accepted_classes_def storage_class_get_name_def service_info_check_storage_class_def storage_class_is_satisfied2_def)
next
  case (Some sc)
  then show ?thesis
    by (auto simp: accepted_classes_def storage_class_get_name_def storage_class_get_fallbacks_def service_info_check_storage_class_def
        storage_class_is_satisfied2_def list_ex_iff)
qed

text \<open>
  C4: Polling a set of services returns, when iterators are shared without cycle and services have
  short locations or no distance is asked for. What it gives is exactly the number asked for
  of services of the pool, each accepted by the filter and of the class asked for or one of its
  fallbacks, at the distance asked for from each other, and without duplicates of an address
  unless they are allowed; the order changes with a shuffle only.
\<close>

theorem polled_set_correct:
  assumes "shares_ok w" and "i < length (w_its w)" and "\<And>k n. 0 < n \<Longrightarrow> le_range E k n < n"
    and "\<forall>si \<in> set (gpa (pool_of w i)). located (req_distance opt) (service_info_dup si)"
  shows "\<exists>r w'. grid_lb_iterator_next_set E i opt w = Some (r, w') \<and> fixed_part w' = fixed_part w \<and>
    (\<forall>sis. r = Some sis \<longrightarrow> length sis = req_max opt \<and> sorted_wrt (far (req_distance opt)) sis \<and>
       (\<not> req_duplicates opt \<longrightarrow> distinct (map (\<lambda>si. addr_key (si_addr si)) sis)) \<and>
       (\<forall>si \<in> set sis. si \<in> service_info_dup ` set (gpa (pool_of w i)) \<and> filter_matches (opt_filter opt) si \<and>
          storage_class_is_satisfied2 (req_stgclass opt) (service_info_get_tag_value si NAME_TAGNAME_RAWX_STGCLASS None) (req_strict_stgclass opt)))"
proof (cases "req_max opt = 0 \<or> \<not> req_duplicates opt \<and> req_max opt > grid_lb_count_all (pool_of w i)")
  case True
  then show ?thesis by (auto simp: grid_lb_iterator_next_set_def)
next
  case False
  let ?fs = "if req_strict_stgclass opt then [] else storage_class_get_fallbacks (req_stgclass opt)" and ?cs = "accepted_classes opt"
  have sv: "serving (req_distance opt) i (pool_of w i) w" using assms(1,2,4) by (simp add: serving_def)
  have "polled_ok opt (pool_of w i) ?cs []" by (simp add: polled_ok_def akey.ok_Nil)
  from next_set_ok [OF _ _ sv this, of "storage_class_get_name (req_stgclass opt)" ?fs E]
  obtain ps w1 where n: "next_set E i opt (storage_class_get_name (req_stgclass opt)) ?fs ([], w) = Some (ps, w1)"
    and ok: "polled_ok opt (pool_of w i) ?cs ps" and f: "fixed_part w1 = fixed_part w"
    by (auto simp: searched_ok_def accepted_classes_def)
  define pre where "pre = map snd ps"
  define sis where "sis = (if req_shuffle opt then shuffle_loop E (w_tick w1) (length pre - 1) pre else pre)"
  have m: "mset sis = mset pre" using shuffle_perm [OF assms(3), of "length pre - 1" pre] by (cases pre) (simp_all add: sis_def)
  have e: "grid_lb_iterator_next_set E i opt w = Some (if req_max opt > length ps then None else Some sis,
      if req_max opt \<le> length ps \<and> req_shuffle opt then w1\<lparr>w_tick := w_tick w1 + (length pre - 1)\<rparr> else w1)"
    using False n by (auto simp: grid_lb_iterator_next_set_def pre_def sis_def Let_def)
  have key: "map fst ps = map (\<lambda>si. addr_key (si_addr si)) pre" using ok unfolding pre_def map_map polled_ok_def by (intro map_cong) auto
  have "distinct (map (\<lambda>si. addr_key (si_addr si)) pre)" if "\<not> req_duplicates opt"
    using akey.ok_distinct [of ps] ok that unfolding key [symmetric] by (simp add: polled_ok_def)
  then have d: "\<not> req_duplicates opt \<Longrightarrow> distinct (map (\<lambda>si. addr_key (si_addr si)) sis)"
    using m by (metis mset_eq_imp_distinct_iff mset_map)
  have so: "sorted_wrt (far (req_distance opt)) sis"
    using sorted_wrt_perm [OF far_sym m] ok by (simp add: polled_ok_def pre_def)
  have "length sis = length ps" using arg_cong [OF m, of size] by (simp add: pre_def)
  then have l: "length ps \<ge> req_max opt \<Longrightarrow> length sis = req_max opt" using ok by (simp add: polled_ok_def)
  have a: "\<forall>si \<in> set sis. acceptable opt (pool_of w i) ?cs si" using mset_eq_setD [OF m] ok by (auto simp: polled_ok_def pre_def)
  show ?thesis unfolding e using so d l a f by (auto simp: acceptable_def fixed_tick accepted_iff)
qed

text \<open>A pool of two services in different places, and a shared iterator on it.\<close>

definition svc_at :: "string \<Rightarrow> service_info \<Rightarrow> service_info" where
  "svc_at l si = si\<lparr>si_tags := Some [Some \<lparr>tag_name = NAME_TAGNAME_RAWX_LOC, tag_val = STVT_STR l\<rparr>]\<rparr>"

definition world_at :: lb_world where
  "world_at = \<lparr>w_lbs = [\<lparr>lb_ns = ''NS'', lb_srvtype = ''rawx'', shorten_ratio = 1, standard_deviation = False, reset_delay = 0, lb_version = 1,
       gpa = [svc_at ''a.x'' (svc 1 2), svc_at ''a.y'' (svc 2 1)], id_by_addr = [],
       sorted_by_score = [\<lparr>slot_index = 0, slot_score = 2, slot_sum = 3\<rparr>, \<lparr>slot_index = 1, slot_score = 1, slot_sum = 1\<rparr>], sum_scored = 3, size_max = 2\<rparr>],
     w_its = [\<lparr>it_lb = 0, it_version = 1, it_type = LBIT_RR, next_idx = 0, next_idx_global = 0, it_current = 0, last_reset = 0, it_sub = 0\<rparr>,
       \<lparr>it_lb = 0, it_version = 1, it_type = LBIT_SHARED, next_idx = 0, next_idx_global = 0, it_current = 0, last_reset = 0, it_sub = 0\<rparr>], w_tick = 0\<rparr>"

definition opt2 :: lb_next_opt where
  "opt2 = \<lparr>req_max = 2, req_distance = 1, req_duplicates = False, req_shuffle = True, req_stgclass = None, req_strict_stgclass = False, opt_filter = None\<rparr>"

lemmas eval_defs = iterator_next_shorten.simps next_own_def next_RR_def get_by_score_def get_raw_def Let_def upd_it_def
  service_info_check_storage_class_def storage_class_is_satisfied_def is_any_def is_none_def filter_matches_def distance_fits_def
  svc_at_def svc_def service_info_dup_def service_info_copy_tags_def service_info_get_rawx_location_def service_info_get_tag_value_def
  service_info_get_tag_def NAME_TAGNAME_RAWX_LOC_def LIMIT_LENGTH_TAGNAME_def strncase_eq_def strcase_eq_def addr_key_def G_MAXUINT_def
  distance_between_location_def g_strsplit_def CMP_def

lemma world_at_searched: "map_option (map (ai_port \<circ> si_addr \<circ> snd) \<circ> fst) (search_servers env0 1 opt2 None True ([], world_at)) = Some [2, 1]"
  unfolding search_servers_def get_iteration_limit_def
  apply (simp add: opt2_def world_at_def grid_lb_count_all_def Let_def get_effective_type.simps grid_lb_count_def)
  apply (subst search_servers_loop.simps, simp add: eval_defs)
  apply (subst search_servers_loop.simps, simp add: eval_defs)
  apply (subst search_servers_loop.simps, simp add: eval_defs)
  done

lemma world_at_polled: "\<exists>sis w'. grid_lb_iterator_next_set env0 1 opt2 world_at = Some (Some sis, w')"
proof -
  obtain ps w1 where s: "search_servers env0 1 opt2 None True ([], world_at) = Some (ps, w1)" "map (ai_port \<circ> si_addr \<circ> snd) ps = [2, 1]"
    using world_at_searched by auto
  have "length ps = 2" using arg_cong [OF s(2), of length] by simp
  then have "next_set env0 1 opt2 None [] ([], world_at) = Some (ps, w1)" using s(1) by (simp add: next_set_def opt2_def)
  moreover have "grid_lb_count_all (pool_of world_at 1) = 2" by (simp add: grid_lb_count_all_def world_at_def)
  ultimately show ?thesis using \<open>length ps = 2\<close>
    by (simp add: grid_lb_iterator_next_set_def opt2_def storage_class_get_name_def storage_class_get_fallbacks_def Let_def)
qed

theorem polled_set_correct_witness:
  "\<exists>sis w'. grid_lb_iterator_next_set env0 1 opt2 world_at = Some (Some sis, w') \<and> length sis = 2 \<and> sorted_wrt (far 1) sis"
proof -
  have o: "req_distance opt2 = 1" "req_max opt2 = 2" by (simp_all add: opt2_def)
  have "shares_ok world_at" "1 < length (w_its world_at)" "\<And>k n. 0 < n \<Longrightarrow> le_range env0 k n < n"
    by (auto simp: shares_ok_def world_at_def env0_def less_Suc_eq)
  moreover have "\<forall>si \<in> set (gpa (pool_of world_at 1)). located (req_distance opt2) (service_info_dup si)"
    unfolding o by (simp add: world_at_def located_def eval_defs)
  ultimately obtain r w' where r: "grid_lb_iterator_next_set env0 1 opt2 world_at = Some (r, w')"
    "\<forall>sis. r = Some sis \<longrightarrow> length sis = req_max opt2 \<and> sorted_wrt (far (req_distance opt2)) sis"
    using polled_set_correct [of world_at 1 env0 opt2] by blast
  then show ?thesis using world_at_polled unfolding o by auto
qed

subsection \<open>The reload from JSON\<close>

fun loads :: "('j \<Rightarrow> bool) \<Rightarrow> ('j \<Rightarrow> service_info option) \<Rightarrow> 'j option \<Rightarrow> bool" where
  "loads is_object load None = False"
| "loads is_object load (Some j) \<longleftrightarrow> is_object j \<and> load j \<noteq> None"

lemma json_spins:
  assumes "consume_loop (json_provide is_object load items) 0 a = Some b"
  shows False
proof -
  let ?P = "\<lambda>(provide :: nat provider) (s :: nat) (a :: service_info list) (b :: service_info list).
    \<not> (provide = json_provide is_object load items \<and> s = 0)"
  have "?P (json_provide is_object load items) 0 a b"
  proof (rule consume_loop.raw_induct [where P = ?P, OF _ assms])
    fix f and provide :: "nat provider" and s a b
    assume IH: "\<And>provide s a b. f provide s a = Some b \<Longrightarrow> ?P provide s a b"
      and st: "(case provide s of (found, si, s) \<Rightarrow> if found
          then f provide s (case si of None \<Rightarrow> a | Some si \<Rightarrow> if si_score si > 0 then a @ [si] else a) else Some a) = Some b"
    show "?P provide s a b"
    proof
      assume e: "provide = json_provide is_object load items \<and> s = 0"
      then have f: "f provide s a = Some b" using st by simp
      show False using IH [OF f] e by blast
    qed
  qed
  then show False by simp
qed

lemma json_consumed:
  "consume_loop (json_provide is_object load items) n a = (if list_ex (\<lambda>k. loads is_object load (items ! k)) [0..<n] then Some a else None)"
proof (induction n)
  case 0
  then show ?case using json_spins [of is_object load items a] by (cases "consume_loop (json_provide is_object load items) 0 a") auto
next
  case (Suc n)
  let ?p = "json_provide is_object load items"
  show ?case
  proof (cases "loads is_object load (items ! n)")
    case True
    then obtain j si where "items ! n = Some j" "is_object j" "load j = Some si" by (cases "items ! n") auto
    then show ?thesis using True by (simp add: consume_loop.simps [of ?p "Suc n"])
  next
    case False
    have "consume_loop ?p (Suc n) a = consume_loop ?p n a"
    proof (cases "\<exists>j. items ! n = Some j \<and> is_object j")
      case True
      then have "?p (Suc n) = ?p n" using False by auto
      then show ?thesis using consume_loop.simps [of ?p "Suc n" a] consume_loop.simps [of ?p n a] by (simp only:)
    next
      case F: False
      then have "?p (Suc n) = (True, None, n)" by (cases "items ! n") auto
      then show ?thesis by (simp add: consume_loop.simps [of ?p "Suc n"])
    qed
    then show ?thesis using Suc False by simp
  qed
qed

text \<open>
  C39: The provider of the reload from JSON stops where it should go on and goes on where it should
  stop. With an array in which an item loads, the reload returns no error but empties the
  pool, as a reload from no service does; with any other array it never returns.
\<close>

theorem json_reload_empties_or_hangs:
  "grid_lb_reload_json_object E is_object load (Some items) lb =
     (if list_ex (loads is_object load) items then map_option (Pair None) (grid_lb_reload E list_provide [] lb) else None)"
proof -
  have "list_ex (\<lambda>k. loads is_object load (items ! k)) [0..<length items] = list_ex (loads is_object load) items"
    by (simp add: list_ex_iff) (metis in_set_conv_nth atLeastLessThan_iff le0)
  then have "consume_loop (json_provide is_object load items) (length items) [] =
      (if list_ex (loads is_object load) items then consume_loop list_provide [] [] else None)"
    using consume_all [OF list_provided, of "[]" "[]"] by (simp add: json_consumed List.map_filter_def)
  then show ?thesis
    by (simp add: grid_lb_reload_json_object_def grid_lb_reload_def lb_reload_def lb_consume_provider_def lb_flush_def)
qed

end
