(* ===== verification/Load_Balancer_Namespace.thy ===== *)
theory Load_Balancer_Namespace
  imports Load_Balancer_Polling
begin

section \<open>The pools of a namespace\<close>

text \<open>
  The invariant of the pools and iterators that a \<open>grid_lbpool\<close> holds, kept by its operations in
  any order, and what a client that asks for a type then gets.
\<close>

interpretation names: gcompare strcmp "\<lambda>_. True"
proof unfold_locales
  fix a b c :: string
  show "strcmp a b = 0 \<longleftrightarrow> a = b" by (rule strcmp_eq_0)
  show "strcmp a b < 0 \<longleftrightarrow> 0 < strcmp b a" unfolding strcmp_sym [of b a] by simp
  show "strcmp a b < 0 \<Longrightarrow> strcmp b c < 0 \<Longrightarrow> strcmp a c < 0" by (rule strcmp_trans)
qed

text \<open>
  Each type has one pool, of that type and apart from those of the others, and an iterator on
  it: over the types of the pools of the world and the pools of its iterators.
\<close>

definition lbpool_rel :: "grid_lbpool \<Rightarrow> string list \<Rightarrow> nat list \<Rightarrow> bool" where
  "lbpool_rel glp types ons \<longleftrightarrow>
     gtree_ok strcmp (\<lambda>_. True) (pool_lbs glp) \<and> gtree_ok strcmp (\<lambda>_. True) (pool_its glp) \<and>
     (\<forall>t l. map_of (pool_lbs glp) t = Some l \<longrightarrow> l < length types \<and> types ! l = take 63 t) \<and>
     (\<forall>t t' l. map_of (pool_lbs glp) t = Some l \<longrightarrow> map_of (pool_lbs glp) t' = Some l \<longrightarrow> t = t') \<and>
     (\<forall>t i. map_of (pool_its glp) t = Some i \<longrightarrow> i < length ons \<and> map_of (pool_lbs glp) t = Some (ons ! i))"

definition lbpool_ok :: "grid_lbpool \<times> lb_world \<Rightarrow> bool" where
  "lbpool_ok gw \<longleftrightarrow> lbpool_rel (fst gw) (map lb_srvtype (w_lbs (snd gw))) (map it_lb (w_its (snd gw)))"

lemma relD:
  assumes "lbpool_rel glp types ons" and "map_of (pool_lbs glp) t = Some l"
  shows "l < length types" and "types ! l = take 63 t" and "map_of (pool_lbs glp) u = Some l \<Longrightarrow> u = t"
proof -
  have a: "\<forall>t l. map_of (pool_lbs glp) t = Some l \<longrightarrow> l < length types \<and> types ! l = take 63 t"
    "\<forall>t t' l. map_of (pool_lbs glp) t = Some l \<longrightarrow> map_of (pool_lbs glp) t' = Some l \<longrightarrow> t = t'"
    using assms(1) by (simp_all add: lbpool_rel_def)
  from a(1) [rule_format, OF assms(2)] show "l < length types" "types ! l = take 63 t" by simp_all
  show "map_of (pool_lbs glp) u = Some l \<Longrightarrow> u = t" using a(2) [rule_format, OF _ assms(2)] .
qed

lemma rel_new_lb:
  assumes "lbpool_rel glp types ons" and "map_of (pool_lbs glp) t = None"
  shows "lbpool_rel (glp\<lparr>pool_lbs := g_tree_insert strcmp (pool_lbs glp) t (length types)\<rparr>) (types @ [take 63 t]) ons"
proof -
  have g: "gtree_ok strcmp (\<lambda>_. True) (pool_lbs glp)" using assms(1) by (simp add: lbpool_rel_def)
  have old: "l < length types" if "map_of (pool_lbs glp) u = Some l" for u l using assms(1) that by (auto simp: lbpool_rel_def)
  show ?thesis unfolding lbpool_rel_def
  proof (intro conjI allI impI)
    fix u l assume "map_of (pool_lbs (glp\<lparr>pool_lbs := g_tree_insert strcmp (pool_lbs glp) t (length types)\<rparr>)) u = Some l"
    then show "l < length (types @ [take 63 t])" "(types @ [take 63 t]) ! l = take 63 u"
      using assms(1) old [of u l] by (auto simp: names.map_of_insert [OF g] lbpool_rel_def nth_append intro: less_SucI split: if_splits)
  next
    fix u u' l
    assume "map_of (pool_lbs (glp\<lparr>pool_lbs := g_tree_insert strcmp (pool_lbs glp) t (length types)\<rparr>)) u = Some l"
      "map_of (pool_lbs (glp\<lparr>pool_lbs := g_tree_insert strcmp (pool_lbs glp) t (length types)\<rparr>)) u' = Some l"
    then show "u = u'" using assms(1) old [of u l] old [of u' l] by (auto simp: names.map_of_insert [OF g] lbpool_rel_def split: if_splits)
  next
    fix u i assume "map_of (pool_its (glp\<lparr>pool_lbs := g_tree_insert strcmp (pool_lbs glp) t (length types)\<rparr>)) u = Some i"
    then show "i < length ons" "map_of (pool_lbs (glp\<lparr>pool_lbs := g_tree_insert strcmp (pool_lbs glp) t (length types)\<rparr>)) u = Some (ons ! i)"
      using assms by (auto simp: names.map_of_insert [OF g] lbpool_rel_def)
  qed (use assms(1) names.ok_insert [OF g] in \<open>simp_all add: lbpool_rel_def\<close>)
qed

lemma rel_new_it:
  assumes "lbpool_rel glp types ons" and "map_of (pool_its glp) t = None" and "map_of (pool_lbs glp) t = Some l"
  shows "lbpool_rel (glp\<lparr>pool_its := g_tree_insert strcmp (pool_its glp) t (length ons)\<rparr>) types (ons @ [l])"
proof -
  have g: "gtree_ok strcmp (\<lambda>_. True) (pool_its glp)" using assms(1) by (simp add: lbpool_rel_def)
  have "i < length (ons @ [l]) \<and> map_of (pool_lbs glp) u = Some ((ons @ [l]) ! i)"
    if "map_of (g_tree_insert strcmp (pool_its glp) t (length ons)) u = Some i" for u i
    using assms that by (auto simp: names.map_of_insert [OF g] lbpool_rel_def nth_append split: if_splits)
  then show ?thesis using assms(1) names.ok_insert [OF g] by (simp add: lbpool_rel_def)
qed

lemma ensured:
  assumes "lbpool_ok gw" and "lbpool_ensure t gw = (l, i, gw')"
  shows "lbpool_ok gw'" and "map_of (pool_lbs (fst gw')) t = Some l" and "map_of (pool_its (fst gw')) t = Some i"
    and "l < length (w_lbs (snd gw'))" and "i < length (w_its (snd gw'))" and "it_lb (the_it (snd gw') i) = l"
proof -
  obtain glp w where gw: "gw = (glp, w)" by fastforce
  have rel: "lbpool_rel glp (map lb_srvtype (w_lbs w)) (map it_lb (w_its w))" using assms(1) by (simp add: lbpool_ok_def gw)
  have g: "gtree_ok strcmp (\<lambda>_. True) (pool_lbs glp)" "gtree_ok strcmp (\<lambda>_. True) (pool_its glp)" using rel by (simp_all add: lbpool_rel_def)
  define p where "p = (case map_of (pool_lbs glp) t of
      Some l \<Rightarrow> (l, glp, w)
    | None \<Rightarrow> (length (w_lbs w), glp\<lparr>pool_lbs := g_tree_insert strcmp (pool_lbs glp) t (length (w_lbs w))\<rparr>,
               w\<lparr>w_lbs := w_lbs w @ [grid_lb_init (pool_ns glp) t]\<rparr>))"
  obtain l1 glp1 w1 where p: "p = (l1, glp1, w1)" by (metis surj_pair)
  have r1: "lbpool_rel glp1 (map lb_srvtype (w_lbs w1)) (map it_lb (w_its w1))" "map_of (pool_lbs glp1) t = Some l1" "pool_its glp1 = pool_its glp"
    using p rel rel_new_lb [OF rel, of t] by (auto simp: p_def names.map_of_insert [OF g(1)] grid_lb_init_def split: option.splits)
  have e: "lbpool_ensure t gw = (case map_of (pool_its glp1) t of
      Some i \<Rightarrow> (l1, i, glp1, w1)
    | None \<Rightarrow> (let (i, w) = grid_lb_iterator_round_robin l1 w1 in (l1, i, glp1\<lparr>pool_its := g_tree_insert strcmp (pool_its glp1) t i\<rparr>, w)))"
    using p unfolding lbpool_ensure_def gw prod.case p_def names.lookup_map_of [OF g(1) TrueI] r1(3)
    by (simp add: Let_def names.lookup_map_of [OF g(2)] r1(3) split: option.splits)
  show R: "lbpool_ok gw'" and L: "map_of (pool_lbs (fst gw')) t = Some l" and I: "map_of (pool_its (fst gw')) t = Some i"
    using assms(2) r1 rel_new_it [OF r1(1) _ r1(2)] unfolding e
    by (auto simp: lbpool_ok_def grid_lb_iterator_round_robin_def new_iterator_def names.map_of_insert [OF g(2)] split: option.splits)
  show "l < length (w_lbs (snd gw'))" using R L by (auto simp: lbpool_ok_def lbpool_rel_def)
  show "i < length (w_its (snd gw'))" "it_lb (the_it (snd gw') i) = l" using R L I by (auto simp: lbpool_ok_def lbpool_rel_def)
qed

lemma ensured_again:
  assumes "lbpool_ok gw" and "lbpool_ensure t gw = (l, i, gw')"
  shows "lbpool_ensure t gw' = (l, i, gw')"
proof -
  obtain glp w where gw: "gw' = (glp, w)" by fastforce
  note e = ensured [OF assms]
  have g: "gtree_ok strcmp (\<lambda>_. True) (pool_lbs glp)" "gtree_ok strcmp (\<lambda>_. True) (pool_its glp)"
    using e(1) by (simp_all add: lbpool_ok_def lbpool_rel_def gw)
  show ?thesis using e(2,3) by (simp add: gw lbpool_ensure_def names.lookup_map_of [OF g(1)] names.lookup_map_of [OF g(2)])
qed

lemma upd_lb_types:
  assumes "lb_srvtype (f (the_lb w l)) = lb_srvtype (the_lb w l)"
  shows "map lb_srvtype (w_lbs (upd_lb l f w)) = map lb_srvtype (w_lbs w)" and "w_its (upd_lb l f w) = w_its w"
  using assms by (cases "l < length (w_lbs w)"; simp add: upd_lb_def map_update list_update_same_conv list_update_beyond)+

lemma upd_it_ons:
  assumes "it_lb (f (the_it w i)) = it_lb (the_it w i)"
  shows "map it_lb (w_its (upd_it i f w)) = map it_lb (w_its w)" and "w_lbs (upd_it i f w) = w_lbs w"
  using assms by (cases "i < length (w_its w)"; simp add: upd_it_def map_update list_update_same_conv list_update_beyond)+

lemma reload_type: "grid_lb_reload E provide s lb = Some lb' \<Longrightarrow> lb_srvtype lb' = lb_srvtype lb"
proof -
  have r: "lb_srvtype (relink_loop n lb) = lb_srvtype lb" for n lb
    by (induction n arbitrary: lb) (simp_all add: save_index_for_addr_def Let_def)
  show "grid_lb_reload E provide s lb = Some lb' \<Longrightarrow> lb_srvtype lb' = lb_srvtype lb"
    by (auto simp: grid_lb_reload_def lb_reload_def lb_consume_provider_def lb_flush_def lb_cumulate_scores_sum_def lb_relink_services_def
        Let_def case_prod_unfold r)
qed

lemma configure_type: "lb_srvtype (grid_lb_configure_options E k opts lb) = lb_srvtype lb"
proof -
  have kv: "lb_srvtype (grid_lb_configure_kv E a b lb) = lb_srvtype lb" for E a b lb by (simp add: grid_lb_configure_kv_def)
  have p: "lb_srvtype (grid_lb_configure_pair E k p n lb) = lb_srvtype lb" for E k p n lb
    by (simp add: grid_lb_configure_pair_def Let_def kv split: option.split)
  have "lb_srvtype (configure_options_loop E k p lb) = lb_srvtype lb" for k p lb
  proof (induction E k p lb rule: configure_options_loop.induct)
    case (1 E k p lb)
    show ?case using "1.IH" by (subst configure_options_loop.simps) (auto simp: p split: option.split)
  qed
  then show ?thesis by (simp add: grid_lb_configure_options_def Let_def split: option.split)
qed

lemma shares_append:
  assumes "shares_ok w" and "it_type it = LBIT_SHARED \<longrightarrow> it_sub it < length (w_its w) \<and> it_lb (the_it w (it_sub it)) = it_lb it"
  shows "shares_ok (w\<lparr>w_its := w_its w @ [it]\<rparr>)"
  unfolding shares_ok_def
proof (intro allI impI)
  fix x
  let ?w = "w\<lparr>w_its := w_its w @ [it]\<rparr>"
  assume x: "x < length (w_its ?w)" "it_type (the_it ?w x) = LBIT_SHARED"
  show "it_sub (the_it ?w x) < x \<and> it_lb (the_it ?w (it_sub (the_it ?w x))) = it_lb (the_it ?w x)"
  proof (cases "x = length (w_its w)")
    case True
    then show ?thesis using assms(2) x by (simp add: nth_append)
  next
    case False
    then have x': "x < length (w_its w)" using x by simp
    then have "it_sub (the_it w x) < x" "it_lb (the_it w (it_sub (the_it w x))) = it_lb (the_it w x)"
      using assms(1) x(2) by (auto simp: shares_ok_def nth_append)
    then show ?thesis using x' by (simp add: nth_append)
  qed
qed

lemma shares_upd:
  assumes "shares_ok w" and "it_type (the_it w i) \<noteq> LBIT_SHARED" and "it_type (f (the_it w i)) \<noteq> LBIT_SHARED" and "it_lb (f (the_it w i)) = it_lb (the_it w i)"
  shows "shares_ok (upd_it i f w)"
proof (cases "i < length (w_its w)")
  case i: True
  have v: "the_it (upd_it i f w) x = (if x = i then f (the_it w i) else the_it w x)" if "x < length (w_its w)" for x
    using i that by (simp add: upd_it_def nth_list_update)
  show ?thesis unfolding shares_ok_def
  proof (intro allI impI)
    fix x assume "x < length (w_its (upd_it i f w))" and t: "it_type (the_it (upd_it i f w) x) = LBIT_SHARED"
    then have x: "x < length (w_its w)" by (simp add: upd_it_def)
    then have xi: "x \<noteq> i" "the_it (upd_it i f w) x = the_it w x" using t v [OF x] assms(3) by auto
    then have s: "it_sub (the_it w x) < x" "it_lb (the_it w (it_sub (the_it w x))) = it_lb (the_it w x)" using assms(1) x t by (auto simp: shares_ok_def)
    then show "it_sub (the_it (upd_it i f w) x) < x \<and>
        it_lb (the_it (upd_it i f w) (it_sub (the_it (upd_it i f w) x))) = it_lb (the_it (upd_it i f w) x)"
      unfolding xi(2) using v [of "it_sub (the_it w x)"] x assms(4) by auto
  qed
qed (use assms(1) in \<open>simp add: upd_it_def list_update_beyond\<close>)

text \<open>What the operations keep, on the whole.\<close>

definition pools_inv :: "grid_lbpool \<times> lb_world \<Rightarrow> bool" where
  "pools_inv gw \<longleftrightarrow> lbpool_ok gw \<and> shares_ok (snd gw)"

lemma ensured_inv:
  assumes "pools_inv gw" and "lbpool_ensure t gw = (l, i, gw')"
  shows "pools_inv gw'"
proof -
  obtain glp w where gw: "gw = (glp, w)" by fastforce
  have "shares_ok w" using assms(1) by (simp add: pools_inv_def gw)
  then have s: "shares_ok w1" if "w_its w1 = w_its w" for w1 using that by (simp add: shares_ok_def)
  have a: "shares_ok w2" if "w_its w2 = w_its w @ [it]" "it_type it = LBIT_RR" for it w2
    using shares_append [OF \<open>shares_ok w\<close>, of it] that by (simp add: shares_ok_def)
  have "w_its (snd gw') = w_its w \<or> (\<exists>it. w_its (snd gw') = w_its w @ [it] \<and> it_type it = LBIT_RR)"
    using assms(2) by (auto simp: gw lbpool_ensure_def Let_def grid_lb_iterator_round_robin_def new_iterator_def split: option.splits)
  then have "shares_ok (snd gw')" using s a by blast
  then show ?thesis using ensured(1) [OF _ assms(2)] assms(1) by (simp add: pools_inv_def)
qed

lemma reloaded_inv:
  assumes "pools_inv (glp, w)" and "lb_srvtype lb = lb_srvtype (the_lb w l)"
  shows "pools_inv (glp, upd_lb l (\<lambda>_. lb) w)"
  using assms upd_lb_types [of "\<lambda>_. lb" w l] by (simp add: pools_inv_def lbpool_ok_def shares_ok_def)

lemma configured_inv:
  assumes "pools_inv (glp, w)"
  shows "pools_inv (glp, grid_lb_iterator_configure E i val w)"
proof (cases "it_type (the_it w i) = LBIT_SHARED")
  case True
  then show ?thesis using assms by (simp add: grid_lb_iterator_configure_def Let_def)
next
  case False
  have opt: "pools_inv (glp, upd_lb l (grid_lb_configure_options E k opts) w1)" if "pools_inv (glp, w1)" for l k opts w1
    using that upd_lb_types [of "grid_lb_configure_options E k opts" w1 l] configure_type by (simp add: pools_inv_def lbpool_ok_def shares_ok_def)
  have it: "pools_inv (glp, upd_it i f w)" if "it_type (f (the_it w i)) \<noteq> LBIT_SHARED" "it_lb (f (the_it w i)) = it_lb (the_it w i)" for f
    using assms shares_upd [of w i f, OF _ False that] upd_it_ons [of f w i, OF that(2)] by (simp add: pools_inv_def lbpool_ok_def)
  have tick: "pools_inv (glp, w1\<lparr>w_tick := k\<rparr>)" if "pools_inv (glp, w1)" for w1 k
    using that by (simp add: pools_inv_def lbpool_ok_def shares_ok_def)
  show ?thesis using False assms by (simp add: grid_lb_iterator_configure_def Let_def opt it tick)
qed

text \<open>The search of a set, whether it ends with enough services or not, keeps what the calls keep.\<close>

definition ready :: "nat \<Rightarrow> lb_world \<Rightarrow> bool" where
  "ready i w \<longleftrightarrow> shares_ok w \<and> i < length (w_its w)"

lemma ready_kept: "ready i w \<Longrightarrow> fixed_part w' = fixed_part w \<Longrightarrow> ready i w'"
  using shares_kept [of w' w] fixed_partD(2) [of w' w] by (simp add: ready_def)

lemma search_loop_keeps:
  assumes "search_servers_loop E i opt c sh limit ps w = Some y" and "ready i w"
  shows "fixed_part (snd y) = fixed_part w"
proof -
  let ?P = "\<lambda>E i opt c sh limit ps w (y :: polled \<times> lb_world). ready i w \<longrightarrow> fixed_part (snd y) = fixed_part w"
  have "?P E i opt c sh limit ps w y"
  proof (rule search_servers_loop.raw_induct [where P = ?P, OF _ assms(1)])
    fix f E i opt c sh limit ps w y
    assume IH: "\<And>E i opt c sh limit ps w y. f E i opt c sh limit ps w = Some y \<Longrightarrow> ?P E i opt c sh limit ps w y"
      and st: "(if limit > 0 \<and> req_max opt > length ps then
        Option.bind (iterator_next_shorten E i sh w) (\<lambda>(r, w).
          case r of
            None \<Rightarrow> Some (ps, w)
          | Some si \<Rightarrow>
              if \<not> service_info_check_storage_class si c \<or> \<not> filter_matches (opt_filter opt) si
              then f E i opt c sh (limit - 1) ps w
              else Option.bind (distance_fits (req_distance opt) ps si) (\<lambda>fits.
                if \<not> fits then f E i opt c sh (limit - 1) ps w
                else if req_duplicates opt
                then f E i opt c sh limit
                       (place (le_place E (w_tick w) (length ps)) (addr_key (si_addr si), si) ps) (w\<lparr>w_tick := w_tick w + 1\<rparr>)
                else case g_tree_lookup addr_key_compare ps (addr_key (si_addr si)) of
                       None \<Rightarrow> f E i opt c sh limit (g_tree_replace addr_key_compare ps (addr_key (si_addr si)) si) w
                     | Some old \<Rightarrow> f E i opt c sh (limit - 1) (g_tree_replace addr_key_compare ps (addr_key (si_addr si)) si) w))
      else Some (ps, w)) = Some y"
    show "?P E i opt c sh limit ps w y"
    proof
      assume r: "ready i w"
      then obtain q w1 where n: "iterator_next_shorten E i sh w = Some (q, w1)" "fixed_part w1 = fixed_part w"
        using iterator_next_ok [of w i E sh] unfolding ready_def by blast
      have again: "fixed_part (snd y) = fixed_part w" if "f E i opt c sh l qs w2 = Some y" "fixed_part w2 = fixed_part w" for l qs w2
        using IH [OF that(1)] ready_kept [OF r that(2)] that(2) by simp
      have "y = (ps, w) \<or> y = (ps, w1) \<or> (\<exists>l qs. f E i opt c sh l qs w1 = Some y) \<or> (\<exists>l qs k. f E i opt c sh l qs (w1\<lparr>w_tick := k\<rparr>) = Some y)"
        using st n(1) by (auto simp: bind_eq_Some_conv split: if_splits option.splits)
      then show "fixed_part (snd y) = fixed_part w" using n(2) again fixed_tick by (metis snd_conv)
    qed
  qed
  then show ?thesis using assms(2) by blast
qed

lemma search_servers_keeps: "search_servers E i opt c sh pw = Some pw' \<Longrightarrow> ready i (snd pw) \<Longrightarrow> fixed_part (snd pw') = fixed_part (snd pw)"
  by (cases pw) (auto simp: search_servers_def bind_eq_Some_conv dest: search_loop_keeps)

lemma search_fallbacks_keeps: "search_fallbacks E i opt cs pw = Some pw' \<Longrightarrow> ready i (snd pw) \<Longrightarrow> fixed_part (snd pw') = fixed_part (snd pw)"
proof (induction cs arbitrary: pw)
  case (Cons c cs)
  show ?case
  proof (cases "req_max opt > length (fst pw)")
    case True
    then obtain p where p: "(if c \<noteq> None then search_servers E i opt c False pw else Some pw) = Some p" "search_fallbacks E i opt cs p = Some pw'"
      using Cons.prems(1) by (auto simp: bind_eq_Some_conv split: if_splits)
    then have "fixed_part (snd p) = fixed_part (snd pw)" using search_servers_keeps [OF _ Cons.prems(2)] by (auto split: if_splits)
    then show ?thesis using Cons.IH [OF p(2)] ready_kept [OF Cons.prems(2)] by simp
  qed (use Cons.prems in simp)
qed simp

lemma next_set_keeps:
  assumes "next_set E i opt c cs pw = Some pw'" and "ready i (snd pw)"
  shows "fixed_part (snd pw') = fixed_part (snd pw)"
proof -
  obtain p q where p: "search_servers E i opt c True pw = Some p"
      "(if req_max opt > length (fst p) then search_servers E i opt c False p else Some p) = Some q" "search_fallbacks E i opt cs q = Some pw'"
    using assms(1) by (auto simp: next_set_def bind_eq_Some_conv)
  have f: "fixed_part (snd p) = fixed_part (snd pw)" using search_servers_keeps [OF p(1) assms(2)] .
  have r: "ready i (snd p)" using ready_kept [OF assms(2) f] .
  have g: "fixed_part (snd q) = fixed_part (snd p)" using p(2) search_servers_keeps [OF _ r] by (auto split: if_splits)
  show ?thesis using search_fallbacks_keeps [OF p(3) ready_kept [OF r g]] f g by simp
qed

lemma polled_keeps:
  assumes "grid_lb_iterator_next_set E i opt w = Some (r, w')" and "ready i w"
  shows "fixed_part w' = fixed_part w"
proof -
  have "w' = w \<or> (\<exists>ps w1 cs c. next_set E i opt c cs ([], w) = Some (ps, w1) \<and> (w' = w1 \<or> (\<exists>k. w' = w1\<lparr>w_tick := k\<rparr>)))"
    using assms(1) by (auto simp: grid_lb_iterator_next_set_def Let_def split: if_splits)
  then show ?thesis using next_set_keeps [of E i opt _ _ "([], w)"] assms(2) by (fastforce simp: fixed_tick)
qed

lemma kept_inv:
  assumes "pools_inv (glp, w)" and f: "fixed_part w' = fixed_part w"
  shows "pools_inv (glp, w')"
proof -
  have "map it_lb (w_its w') = map it_lb (w_its w)"
    using arg_cong [OF f, of "map fst \<circ> snd"] by (simp add: fixed_part_def comp_def)
  then show ?thesis using assms(1) shares_kept [OF f] fixed_partD(1) [OF f] by (simp add: pools_inv_def lbpool_ok_def)
qed

lemma served_inv:
  assumes "pools_inv (glp, w)" and "i < length (w_its w)" and "grid_lb_iterator_next E i w = Some (r, w')"
  shows "pools_inv (glp, w')"
proof (rule kept_inv [OF assms(1)])
  show "fixed_part w' = fixed_part w"
    using iterator_next_ok [OF _ assms(2), of E True] assms(1,3) by (auto simp: pools_inv_def grid_lb_iterator_next_def)
qed

lemma polled_inv:
  assumes "pools_inv (glp, w)" and "i < length (w_its w)" and "grid_lb_iterator_next_set E i opt w = Some (r, w')"
  shows "pools_inv (glp, w')"
  using kept_inv [OF assms(1) polled_keeps [OF assms(3)]] assms(1,2) by (simp add: ready_def pools_inv_def)

text \<open>
  The operations on the pools of a namespace, in any order: the creation of a pool and its
  iterator, the configuration, the reloads, the sharing of an iterator, the service of its
  next element and the polling of a set, with or without services already in place.
\<close>

inductive lbpool_step :: "lbenv \<Rightarrow> grid_lbpool \<times> lb_world \<Rightarrow> grid_lbpool \<times> lb_world \<Rightarrow> bool" for E where
  ensure_lb: "grid_lbpool_ensure_lb t gw = (l, gw') \<Longrightarrow> lbpool_step E gw gw'"
| ensure_iterator: "grid_lbpool_ensure_iterator t gw = (i, gw') \<Longrightarrow> lbpool_step E gw gw'"
| reconfigure: "lbpool_step E gw (grid_lbpool_reconfigure E kvs gw)"
| reload: "grid_lbpool_reload E t (provide :: nat provider) s gw = Some gw' \<Longrightarrow> lbpool_step E gw gw'"
| reload_json: "grid_lbpool_reload_json_object E is_object (load :: nat \<Rightarrow> service_info option) t obj gw = Some (e, gw') \<Longrightarrow> lbpool_step E gw gw'"
| share: "i < length (w_its w) \<Longrightarrow> grid_lb_iterator_share i w = (j, w') \<Longrightarrow> lbpool_step E (glp, w) (glp, w')"
| serve_next: "i < length (w_its w) \<Longrightarrow> grid_lb_iterator_next E i w = Some (r, w') \<Longrightarrow> lbpool_step E (glp, w) (glp, w')"
| poll_set: "i < length (w_its w) \<Longrightarrow> grid_lb_iterator_next_set E i opt w = Some (sis, w') \<Longrightarrow> lbpool_step E (glp, w) (glp, w')"
| poll_set2: "i < length (w_its w) \<Longrightarrow> grid_lb_iterator_next_set2 E i opt inplace forbidden w = Some (sis, w') \<Longrightarrow> lbpool_step E (glp, w) (glp, w')"

lemma reconfigured_inv: "pools_inv gw \<Longrightarrow> pools_inv (grid_lbpool_reconfigure E kvs gw)"
proof -
  have cs: "pools_inv (grid_lbpool_configure_string E t cfg gw)" if g: "pools_inv gw" for t cfg gw
  proof -
    obtain l i glp w where e: "lbpool_ensure t gw = (l, i, glp, w)" by (metis surj_pair)
    show ?thesis using configured_inv [OF ensured_inv [OF g e]] by (simp add: grid_lbpool_configure_string_def grid_lbpool_ensure_iterator_def e)
  qed
  have kv: "pools_inv (lbpool_configure_kv E kv gw)" if "pools_inv gw" for kv gw
    using that cs by (simp add: lbpool_configure_kv_def split: option.split)
  define f where "f = (\<lambda>gw (k, v). if take 3 k = CONF_KEY_PREFIX_LB then lbpool_configure_kv E (cstr (drop 3 k @ ''='' @ v)) gw else gw)"
  have f: "pools_inv (f gw p)" if "pools_inv gw" for gw p using that kv by (cases p) (simp add: f_def)
  show "pools_inv gw \<Longrightarrow> pools_inv (grid_lbpool_reconfigure E kvs gw)"
    unfolding grid_lbpool_reconfigure_def f_def [symmetric] by (induction kvs arbitrary: gw) (simp_all add: f)
qed

lemma json_type: "grid_lb_reload_json_object E is_object load obj lb = Some (e, lb') \<Longrightarrow> lb_srvtype lb' = lb_srvtype lb"
  by (auto simp: grid_lb_reload_json_object_def dest: reload_type split: option.splits)

lemma lbpool_step_inv: "lbpool_step E gw gw' \<Longrightarrow> pools_inv gw \<Longrightarrow> pools_inv gw'"
proof (induction rule: lbpool_step.induct)
  case (ensure_lb t gw l gw')
  then show ?case using ensured_inv [of gw t] by (auto simp: grid_lbpool_ensure_lb_def split: prod.splits)
next
  case (ensure_iterator t gw i gw')
  then show ?case using ensured_inv [of gw t] by (auto simp: grid_lbpool_ensure_iterator_def split: prod.splits)
next
  case (reconfigure gw kvs)
  then show ?case by (rule reconfigured_inv)
next
  case (reload t provide s gw gw')
  obtain l i glp w where e: "lbpool_ensure t gw = (l, i, glp, w)" by (metis surj_pair)
  obtain lb' where r: "grid_lb_reload E provide s (the_lb w l) = Some lb'" "gw' = (glp, upd_lb l (\<lambda>_. lb') w)"
    using reload.hyps by (auto simp: grid_lbpool_reload_def grid_lbpool_ensure_lb_def e)
  show ?case unfolding r(2) by (rule reloaded_inv [OF ensured_inv [OF reload.prems e] reload_type [OF r(1)]])
next
  case (reload_json is_object load t obj gw err gw')
  obtain l i glp w where e: "lbpool_ensure t gw = (l, i, glp, w)" by (metis surj_pair)
  obtain lb' where r: "grid_lb_reload_json_object E is_object load obj (the_lb w l) = Some (err, lb')" "gw' = (glp, upd_lb l (\<lambda>_. lb') w)"
    using reload_json.hyps by (auto simp: grid_lbpool_reload_json_object_def grid_lbpool_ensure_lb_def e)
  show ?case unfolding r(2) by (rule reloaded_inv [OF ensured_inv [OF reload_json.prems e] json_type [OF r(1)]])
next
  case (share i w j w' glp)
  let ?it = "\<lparr>it_lb = it_lb (the_it w i), it_version = it_version (the_it w i), it_type = LBIT_SHARED,
    next_idx = 0, next_idx_global = 0, it_current = 0, last_reset = 0, it_sub = i\<rparr>"
  have "shares_ok (w\<lparr>w_its := w_its w @ [?it]\<rparr>)" using shares_append [of w ?it] share by (simp add: pools_inv_def)
  moreover have "lbpool_rel glp types (ons @ [x])" if "lbpool_rel glp types ons" for types ons x
    using that unfolding lbpool_rel_def by (fastforce simp: nth_append)
  ultimately show ?case using share by (auto simp: grid_lb_iterator_share_def pools_inv_def lbpool_ok_def)
next
  case (serve_next i w r w' glp)
  then show ?case using served_inv by blast
next
  case (poll_set i w opt sis w' glp)
  then show ?case using polled_inv by blast
next
  case (poll_set2 i w opt inplace forbidden sis w' glp)
  then show ?case using polled_inv unfolding grid_lb_iterator_next_set2_def by blast
qed

interpretation pools: step_system "lbpool_step E" pools_inv for E
  by unfold_locales (rule lbpool_step_inv)

text \<open>A boolean option has an effect at the end of the options only, whatever the stack holds.\<close>

lemma boolean_option_last:
  "\<not> standard_deviation (grid_lb_configure_options E k (Some ''standard_deviation=on&reset_delay=10'') lb)"
  "standard_deviation (grid_lb_configure_options E k (Some ''reset_delay=10&standard_deviation=on'') lb)"
  by (simp_all add: grid_lb_configure_options_def configure_options_loop.simps grid_lb_configure_pair_def grid_lb_configure_kv_def
      metautils_cfg_get_bool_def strcase_eq_def g_ascii_tolower_def byte_of_def strchr_def Let_def)

text \<open>
  C9: Whatever was done with the pools of a namespace since their creation, asking for a type gives
  a pool of that type, which no other type has, with an iterator on it, and asking again gives
  both again and creates nothing.
\<close>

theorem pools_stay_apart:
  assumes "(lbpool_step E)\<^sup>*\<^sup>* (grid_lbpool_create nsname, \<lparr>w_lbs = [], w_its = [], w_tick = 0\<rparr>) gw" and "lbpool_ensure t gw = (l, i, gw')"
  shows "lbpool_ensure t gw' = (l, i, gw') \<and> it_lb (the_it (snd gw') i) = l \<and> lb_srvtype (the_lb (snd gw') l) = take 63 t \<and>
    grid_lbpool_get_lb (fst gw') t = Some l \<and> grid_lbpool_get_iterator (fst gw') t = Some i \<and>
    (\<forall>t'. grid_lbpool_get_lb (fst gw') t' = Some l \<longrightarrow> t' = t)"
proof -
  have "pools_inv (grid_lbpool_create nsname, \<lparr>w_lbs = [], w_its = [], w_tick = 0\<rparr>)"
    by (simp add: pools_inv_def lbpool_ok_def lbpool_rel_def grid_lbpool_create_def names.ok_Nil shares_ok_def)
  then have ok: "lbpool_ok gw" using pools.steps_keep [OF assms(1)] by (simp add: pools_inv_def)
  note e = ensured [OF ok assms(2)]
  have g: "gtree_ok strcmp (\<lambda>_. True) (pool_lbs (fst gw'))" "gtree_ok strcmp (\<lambda>_. True) (pool_its (fst gw'))"
    using e(1) by (simp_all add: lbpool_ok_def lbpool_rel_def)
  have get: "grid_lbpool_get_lb (fst gw') u = map_of (pool_lbs (fst gw')) u" "grid_lbpool_get_iterator (fst gw') u = map_of (pool_its (fst gw')) u" for u
    by (simp_all add: grid_lbpool_get_lb_def grid_lbpool_get_iterator_def names.lookup_map_of [OF g(1)] names.lookup_map_of [OF g(2)])
  note r = relD [OF e(1) [unfolded lbpool_ok_def] e(2)]
  have "lb_srvtype (the_lb (snd gw') l) = take 63 t" using r(2) e(4) by simp
  moreover have "\<forall>t'. grid_lbpool_get_lb (fst gw') t' = Some l \<longrightarrow> t' = t" unfolding get using r(3) by blast
  ultimately show ?thesis using ensured_again [OF ok assms(2)] e(2,3,6) unfolding get by blast
qed

theorem pools_stay_apart_witness:
  "\<exists>gw l i gw'. lbpool_step env0 (grid_lbpool_create ''NS'', \<lparr>w_lbs = [], w_its = [], w_tick = 0\<rparr>) gw \<and>
     grid_lbpool_get_lb (fst gw) ''meta2'' = Some 0 \<and> lbpool_ensure ''rawx'' gw = (l, i, gw') \<and> l \<noteq> 0 \<and> lbpool_ensure ''rawx'' gw' = (l, i, gw')"
proof -
  let ?g = "(grid_lbpool_create ''NS'', \<lparr>w_lbs = [], w_its = [], w_tick = 0\<rparr>)"
  define gw where "gw = snd (grid_lbpool_ensure_lb ''meta2'' ?g)"
  have st: "lbpool_step env0 ?g gw" unfolding gw_def by (rule lbpool_step.ensure_lb) (rule surjective_pairing)
  have m: "grid_lbpool_get_lb (fst gw) ''meta2'' = Some 0" "fst (lbpool_ensure ''rawx'' gw) = 1"
    by (simp_all add: gw_def grid_lbpool_ensure_lb_def lbpool_ensure_def grid_lbpool_create_def grid_lb_iterator_round_robin_def
        new_iterator_def grid_lbpool_get_lb_def byte_of_def Let_def)
  obtain l i gw' where e: "lbpool_ensure ''rawx'' gw = (l, i, gw')" by (metis surj_pair)
  have "(lbpool_step env0)\<^sup>*\<^sup>* ?g gw" using st by (rule r_into_rtranclp)
  from pools_stay_apart [OF this e] have a: "lbpool_ensure ''rawx'' gw' = (l, i, gw')" by (rule conjunct1)
  have "l \<noteq> 0" using m(2) e by simp
  then show ?thesis using st m(1) e a by (intro exI [of _ gw] exI [of _ l] exI [of _ i] exI [of _ gw'] conjI)
qed

end
