(* ===== verification/Spec2Isabelle.thy ===== *)
theory Spec2Isabelle
  imports Prelude Metautils Version Synchro Election_Model Election_Invariants Election_Properties Election_Behaviour Election_Cluster Lru Hex Url Resolver Base_Cache Base_Cache_Threads Base_Cache_Properties
    Services Load_Balancer Load_Balancer_Pool Load_Balancer_Iterators Load_Balancer_Polling Load_Balancer_Namespace
begin

text \<open>
  \<^bold>\<open>A verification development of Redcurrant.\<close>
  Redcurrant is an object store. Its directory services (\<open>meta0\<close>, \<open>meta1\<close>, \<open>meta2\<close>, \<open>sqlx\<close>)
  keep their data in SQLite bases replicated by \<open>src/sqliterepo\<close>: for each base the services
  elect a master through ZooKeeper, the master runs the transactions and sends the changes to
  the others with the versions of the tables, and a replica that is late is resynchronised.
  A client finds the services of a content from its URL with \<open>src/resolver\<close>, which asks the
  conscience, then a \<open>meta0\<close>, then a \<open>meta1\<close>, and caches each answer. The services that will hold
  a new content are polled from a load-balancer that spreads the load by score and keeps
  the copies apart. All rest on the library \<open>src/metautils/lib\<close>, which has the load-balancer.

  \<^bold>\<open>Theories.\<close>
  \<^item> \<open>Prelude\<close>: machine integers, C strings and library calls, times, the \<open>GTree\<close> as a sorted
    association list (locale \<open>gcompare\<close>), runs of a machine with its invariant (locale
    \<open>event_machine\<close>) and step relations with theirs (locale \<open>step_system\<close>).
  \<^item> \<open>Metautils\<close>: \<open>metautils_bits.h\<close>, \<open>utils_hashstr.c\<close>, the line codec of \<open>utils_strings.c\<close>, the
    list helpers of \<open>utils_containers.c\<close>.
  \<^item> \<open>Version\<close>: \<open>sqliterepo/version.c\<close>, the versions of the tables of a base: extraction, changes
    of a transaction, comparison of two bases, encoding.
  \<^item> \<open>Synchro\<close>: \<open>sqliterepo/synchro.c\<close> and \<open>hash.c\<close>, where the node of an election is in ZooKeeper
    and what is asked of it.
  \<^item> \<open>Election_Model\<close>: \<open>sqliterepo/election.c\<close> up to \<open>transition_error\<close>. The state \<open>estate\<close> is the
    member (\<open>election_member\<close>), its manager, a clock tick and the list of the requests made; each
    C function is the function of the same name on it, and \<open>transition\<close> with its \<open>in_STEP\<close>
    handlers is the switch of the source, one function for each step.
  \<^item> \<open>Election_Invariants\<close>, \<open>Election_Properties\<close>, \<open>Election_Behaviour\<close>: what each handler keeps,
    what holds over all runs of inputs in all environments, and what decides an election.
  \<^item> \<open>Election_Cluster\<close>: the members of one base on several services with ZooKeeper between
    them, as a step relation with every interleaving and delay.
  \<^item> \<open>Lru\<close>: \<open>metautils/lib/lrutree.c\<close> on an explicit store of chained nodes, its refinement to a list
    of entries, and the interface \<open>lru_store\<close> its clients use.
  \<^item> \<open>Hex\<close> and \<open>Url\<close>: the binary identifiers of \<open>utils_tools.c\<close> and the URL of \<open>hc_url.c\<close>, its
    parser, printer, setters and cached fields.
  \<^item> \<open>Resolver\<close>: \<open>resolver/hc_resolver.c\<close>, on \<open>Lru\<close> and \<open>Url\<close>.
  \<^item> \<open>Base_Cache\<close>: \<open>sqliterepo/cache.c\<close>, the slots of the open bases, chained by status in an
    array. The state \<open>sqlx_cache\<close> is the structure of the source; a function that releases the
    lock in the middle is cut there.
  \<^item> \<open>Base_Cache_Threads\<close>: any number of threads on that cache as the step relation \<open>bstep\<close>, one
    step from a point where the lock is taken to the next where it is released, with the
    waits, the wake-ups and the close hook; the counters, which take the lock three times; and
    the invariant of the states.
  \<^item> \<open>Base_Cache_Properties\<close>: what follows for the threads.
  \<^item> \<open>Services\<close>: addresses, tags, locations and storage classes of services, from \<open>metatypes.h\<close>,
    \<open>utils_addr_info.c\<close>, \<open>utils_service_info.c\<close>, \<open>utils_duplication.c\<close> and \<open>storage_policy.c\<close>.
  \<^item> \<open>Load_Balancer\<close>: \<open>metautils/lib/lb.c\<close>. Pools and iterators are the entries of a \<open>lb_world\<close>, so
    that shared ones are seen by all; a provider of services is a step function. The
    arithmetic on doubles is that on rationals with the rounding of IEEE 754.
  \<^item> \<open>Load_Balancer_Pool\<close>, \<open>Load_Balancer_Iterators\<close>, \<open>Load_Balancer_Polling\<close>, \<open>Load_Balancer_Namespace\<close>:
    the order and the sums of a reloaded pool, how often an iterator serves each service,
    what a polled set satisfies, and the pools of a namespace over all operations (\<open>lbpool_step\<close>).

  \<^bold>\<open>What is shown.\<close>
  For the election: at most one member leads with its node alive, in every reachable state of
  the cluster; the relation between the step, the number and the master of a member, always;
  the graph of the steps; the exact conditions to enter and to leave the leadership; that late
  replies are ignored; and two sequences after which it does not do what it should. For the
  versions: what a comparison answers, when a replica accepts a transaction and which tables this
  leaves out, and that the encoding is lossless. For the tree: it is a list in the order of use, and each value is
  released exactly once. For the URL: round trip, options, the cached fields. For the
  resolver: hits and misses of the caches, that every \<open>meta0\<close> is tried, that expiration and
  purge end and what they leave, the wrong entry that the expiration removes included. For the cache of bases: one user at a time for each base,
  slots whose status says what they hold, counters each exact when it is read under the lock, a bound
  on the waiting threads,
  handles kept from a close to the next opening, and the loop in which a full cache hangs.
  For the load-balancer: a reload sorts the usable services; the round-robin is a rotation, the
  weighted one serves each service as often as its score over a cycle, and the weighted
  random one for as many random values as its score, but for one; polling returns, and the set has the
  number, the classes, the distances and the distinct addresses asked for; each type keeps its own
  pool; and the reload from JSON loses everything or hangs.
  For the helpers: round trips, permutations, bounds.

  \<^bold>\<open>Conventions.\<close>
  ZooKeeper, the peers, the remote services, the clock, the random numbers, SHA-256 and the
  ASN.1 codec are not part of the sources: they are fields of an environment (\<open>env\<close>, \<open>renv\<close>, \<open>lbenv\<close>) or
  parameters, read by the number of the call, so that no theorem assumes anything of them
  that its statement does not say. A \<open>GError\<close> is its code, a NULL pointer is \<open>None\<close>, an
  assertion that fails ends the process (\<open>None\<close>). Counters that the sources compare or wrap keep
  their width, and what is stored in a \<open>gint\<close> is cut to it; dates and version numbers are integers, the
  overflow of which the language leaves undefined. Loops over chained nodes and the loops
  of the caches are partial functions whose end is proved for every well-formed state. No
  fuel is used.

  \<^bold>\<open>Not modelled.\<close>
  Outside of the cache of bases, mutexes and conditions: each function runs alone, as the lock
  of the source makes it, and interleaving is between whole functions. In the cache, a thread
  may wake up at any time, which covers every order of signals. The red-black tree of \<open>tree.h\<close> stands for its
  specification. The lookups of the load-balancer from a printed address, which go through the
  resolver of names, are left out, and so is the reading of a service in a JSON item, a
  parameter. Allocation failures, logs and traces are left out. The servers (\<open>meta0v2\<close>,
  \<open>meta1v2\<close>, \<open>meta2v2\<close>, \<open>sqlx\<close>, \<open>rawx\<close>, \<open>rainx\<close>), the agents and the administration tools are
  request handlers around SQL, files, sockets and third-party servers, and their state
  is in those; the ASN.1 codecs are generated from a schema.
\<close>

end
